(* ===== verification/Gas_Prelude.thy ===== *)
theory Gas_Prelude
  imports Main "HOL-Library.Word"
begin

text \<open>
  Shared vocabulary of the development: machine integers, byte-addressed blocks, the
  little-endian accessors that stand for the C struct fields and for \<open>le32_to_cpu\<close> /
  \<open>cpu_to_le32\<close>, bitmaps seen as bits of a block and as arrays of 64-bit words, the C string
  functions the sources use, and the error numbers.

  A block (the \<open>b_data\<close> of a buffer, a page, a \<open>malloc\<close>ed buffer) is a function from byte
  offsets to bytes. The code never relies on what lies beyond the end of a block; where it reads
  there, the model returns an explicit failure instead.
\<close>

unbundle bit_operations_syntax

named_theorems le_simps \<open>reading back what a little-endian store wrote\<close>
named_theorems bits_simps \<open>bit-level effect of the bitmap operations\<close>

section \<open>Machine integers and blocks\<close>

type_synonym byte = "8 word"
type_synonym u16 = "16 word"
type_synonym u32 = "32 word"
type_synonym u64 = "64 word"
type_synonym block = "nat \<Rightarrow> byte"

datatype errno = ENOENT | EIO | EAGAIN | ENOMEM | EEXIST | EINVAL | ENOSPC | ENAMETOOLONG | ENOTEMPTY

text \<open>An \<open>int\<close> error return: \<open>None\<close> is 0, \<open>Some e\<close> is \<open>-e\<close>.\<close>

type_synonym err = "errno option"

section \<open>Little-endian fields\<close>

definition get_le16 :: "block \<Rightarrow> nat \<Rightarrow> u16" where
  "get_le16 b p = ucast (b p) OR push_bit 8 (ucast (b (p + 1)))"

definition put_le16 :: "block \<Rightarrow> nat \<Rightarrow> u16 \<Rightarrow> block" where
  "put_le16 b p v = b(p := ucast v, p + 1 := ucast (drop_bit 8 v))"

definition get_le32 :: "block \<Rightarrow> nat \<Rightarrow> u32" where
  "get_le32 b p = ucast (b p) OR push_bit 8 (ucast (b (p + 1)))
     OR push_bit 16 (ucast (b (p + 2))) OR push_bit 24 (ucast (b (p + 3)))"

definition put_le32 :: "block \<Rightarrow> nat \<Rightarrow> u32 \<Rightarrow> block" where
  "put_le32 b p v = b(p := ucast v, p + 1 := ucast (drop_bit 8 v),
     p + 2 := ucast (drop_bit 16 v), p + 3 := ucast (drop_bit 24 v))"

lemma get_put_le16_same [simp, le_simps]: "get_le16 (put_le16 b p v) p = v"
  by (rule bit_word_eqI)
    (auto simp: get_le16_def put_le16_def bit_or_iff bit_push_bit_iff bit_unsigned_iff bit_drop_bit_eq
      dest: bit_imp_le_length)

lemma get_put_le32_same [simp, le_simps]: "get_le32 (put_le32 b p v) p = v"
proof (rule bit_word_eqI)
  fix n
  assume n: "n < LENGTH(32)"
  consider "n < 8" | "8 \<le> n" "n < 16" | "16 \<le> n" "n < 24" | "24 \<le> n" by linarith
  then show "bit (get_le32 (put_le32 b p v) p) n = bit v n"
    using n by cases
      (auto simp: get_le32_def put_le32_def bit_or_iff bit_push_bit_iff bit_unsigned_iff bit_drop_bit_eq)
qed

lemma put_get_le32: "put_le32 b p (get_le32 b p) = b"
proof -
  have "(ucast (get_le32 b p) :: byte) = b p" "(ucast (drop_bit 8 (get_le32 b p)) :: byte) = b (p + 1)"
    "(ucast (drop_bit 16 (get_le32 b p)) :: byte) = b (p + 2)" "(ucast (drop_bit 24 (get_le32 b p)) :: byte) = b (p + 3)"
    by (rule bit_word_eqI, auto simp: get_le32_def bit_or_iff bit_push_bit_iff bit_unsigned_iff bit_drop_bit_eq
      dest: bit_imp_le_length)+
  then show ?thesis by (simp add: put_le32_def fun_eq_iff)
qed

lemma put_le32_frame [simp, le_simps]: "q < p \<or> p + 4 \<le> q \<Longrightarrow> put_le32 b p v q = b q"
  by (auto simp: put_le32_def)

lemma put_le16_frame [simp, le_simps]: "q < p \<or> p + 2 \<le> q \<Longrightarrow> put_le16 b p v q = b q"
  by (auto simp: put_le16_def)

lemma get_put_le32_other [simp, le_simps]:
  "q + 4 \<le> p \<or> p + 4 \<le> q \<Longrightarrow> get_le32 (put_le32 b p v) q = get_le32 b q"
  by (auto simp: get_le32_def)

lemma get_le32_put_le16 [simp, le_simps]:
  "q + 4 \<le> p \<or> p + 2 \<le> q \<Longrightarrow> get_le32 (put_le16 b p v) q = get_le32 b q"
  by (auto simp: get_le32_def)

lemma get_le16_put_le32 [simp, le_simps]:
  "q + 2 \<le> p \<or> p + 4 \<le> q \<Longrightarrow> get_le16 (put_le32 b p v) q = get_le16 b q"
  by (auto simp: get_le16_def)

lemma get_le16_put_le16_other [simp, le_simps]:
  "q + 2 \<le> p \<or> p + 2 \<le> q \<Longrightarrow> get_le16 (put_le16 b p v) q = get_le16 b q"
  by (auto simp: get_le16_def)

lemma get_le32_cong:
  assumes "\<And>i. i < 4 \<Longrightarrow> b (p + i) = c (q + i)"
  shows "get_le32 b p = get_le32 c q"
  using assms [of 0] assms [of 1] assms [of 2] assms [of 3] by (simp add: get_le32_def)


section \<open>Bitmaps\<close>

text \<open>
  The same bitmap is read in two ways: the kernel numbers the bits of a buffer
  (\<^verbatim>\<open>(unsigned long *)bh->b_data\<close> on a little-endian machine), the file system
  maker indexes an array of \<^verbatim>\<open>uint64_t\<close> laid over the same bytes.
\<close>

definition blk_bit :: "block \<Rightarrow> nat \<Rightarrow> bool" where
  "blk_bit b n = bit (b (n div 8)) (n mod 8)"

type_synonym u64map = "nat \<Rightarrow> u64"

definition map_bit :: "u64map \<Rightarrow> nat \<Rightarrow> bool" where
  "map_bit m n = bit (m (n div 64)) (n mod 64)"

definition u64s :: "block \<Rightarrow> u64map" where
  "u64s b i = ucast (b (8 * i)) OR push_bit 8 (ucast (b (8 * i + 1)))
     OR push_bit 16 (ucast (b (8 * i + 2))) OR push_bit 24 (ucast (b (8 * i + 3)))
     OR push_bit 32 (ucast (b (8 * i + 4))) OR push_bit 40 (ucast (b (8 * i + 5)))
     OR push_bit 48 (ucast (b (8 * i + 6))) OR push_bit 56 (ucast (b (8 * i + 7)))"

lemma byte_bit_beyond: "8 \<le> n \<Longrightarrow> \<not> bit (w :: byte) n"
  using bit_imp_le_length [of w n] by auto

definition bytes_of :: "u64map \<Rightarrow> block" where
  "bytes_of m p = ucast (drop_bit (8 * (p mod 8)) (m (p div 8)))"

lemma bit_u64s:
  assumes "k < 8" and "r < 8"
  shows "bit (u64s b i) (8 * k + r) = bit (b (8 * i + k)) r"
proof -
  have "k \<in> {0, 1, 2, 3, 4, 5, 6, 7}" using assms(1) by auto
  then show ?thesis using assms(2)
    by (elim insertE emptyE)
      (simp_all add: u64s_def bit_or_iff bit_push_bit_iff bit_unsigned_iff byte_bit_beyond)
qed

lemma mod64_split: "n mod 64 = 8 * (n div 8 mod 8) + n mod (8::nat)"
  using mod_mult2_eq [of n 8 8] by simp

lemma div8_split: "8 * (n div 64) + n div 8 mod 8 = n div (8::nat)"
proof -
  have "n div 64 = n div 8 div 8" by (simp add: div_mult2_eq [symmetric])
  then show ?thesis using mult_div_mod_eq [of 8 "n div 8"] by simp
qed

lemma map_bit_u64s [simp, bits_simps]: "map_bit (u64s b) n = blk_bit b n"
  by (simp add: map_bit_def blk_bit_def mod64_split [of n] bit_u64s div8_split)

lemma blk_bit_bytes_of [simp, bits_simps]: "blk_bit (bytes_of m) n = map_bit m n"
  by (simp add: blk_bit_def map_bit_def bytes_of_def bit_unsigned_iff bit_drop_bit_eq mod64_split [of n]
      div_mult2_eq [symmetric])

text \<open>Blocks with the same bits are the same block.\<close>

lemma block_eqI: "(\<And>n. blk_bit b n = blk_bit c n) \<Longrightarrow> b = c"
proof (rule ext, rule bit_word_eqI)
  fix p k
  assume eq: "\<And>n. blk_bit b n = blk_bit c n" and "k < LENGTH(8)"
  then have "(8 * p + k) div 8 = p" "(8 * p + k) mod 8 = k" by simp_all
  with eq [of "8 * p + k"] show "bit (b p) k = bit (c p) k" by (simp add: blk_bit_def)
qed

lemma bytes_of_u64s [simp]: "bytes_of (u64s b) = b"
  by (rule block_eqI) simp

lemma u64map_eqI: "(\<And>n. map_bit m n = map_bit m' n) \<Longrightarrow> m = m'"
proof (rule ext, rule bit_word_eqI)
  fix p k
  assume eq: "\<And>n. map_bit m n = map_bit m' n" and "k < LENGTH(64)"
  then have "(64 * p + k) div 64 = p" "(64 * p + k) mod 64 = k" by simp_all
  with eq [of "64 * p + k"] show "bit (m p) k = bit (m' p) k" by (simp add: map_bit_def)
qed

text \<open>\<^verbatim>\<open>memset(b, v, n)\<close>.\<close>

definition memset :: "block \<Rightarrow> byte \<Rightarrow> nat \<Rightarrow> block" where
  "memset b v n = (\<lambda>p. if p < n then v else b p)"

lemma blk_bit_memset_0 [bits_simps]: "blk_bit (memset b 0 k) n = (8 * k \<le> n \<and> blk_bit b n)"
  by (auto simp: blk_bit_def memset_def)

lemma blk_bit_memset_ff [bits_simps]: "blk_bit (memset b 0xff k) n = (n < 8 * k \<or> blk_bit b n)"
proof -
  have "bit (mask 8 :: byte) (n mod 8)" by (simp add: bit_mask_iff)
  then have "bit (0xff::byte) (n mod 8)" by (simp add: mask_eq_exp_minus_1)
  then show ?thesis by (auto simp: blk_bit_def memset_def)
qed

section \<open>Conversions between word widths\<close>

lemma unat_ucast_narrow: "unat (ucast (w :: 'a::len word) :: 'b::len word) = unat w mod 2 ^ LENGTH('b)"
  by (simp add: unsigned_ucast_eq take_bit_eq_mod)

lemma unat_word_of_nat: "unat (word_of_nat n :: 'b::len word) = n mod 2 ^ LENGTH('b)"
  by (simp add: unsigned_of_nat take_bit_eq_mod)

lemma unat_ucast_widen:
  assumes "LENGTH('a::len) \<le> LENGTH('b::len)"
  shows "unat (ucast (w :: 'a word) :: 'b word) = unat w"
proof -
  have "unat w < 2 ^ LENGTH('a)" by (rule unsigned_less)
  also have "\<dots> \<le> 2 ^ LENGTH('b)" using assms by (rule power_increasing) simp
  finally show ?thesis by (simp add: unat_ucast_narrow)
qed

section \<open>The least index with a property\<close>

text \<open>
  The reference definition every scan of the sources is compared with: the first index of
  \<open>[lo, hi)\<close> that satisfies \<open>P\<close>, or \<open>hi\<close> when there is none.
\<close>

definition is_first :: "(nat \<Rightarrow> bool) \<Rightarrow> nat \<Rightarrow> nat \<Rightarrow> nat \<Rightarrow> bool" where
  "is_first P lo hi r \<longleftrightarrow> lo \<le> r \<and> r \<le> hi \<and> (\<forall>i. lo \<le> i \<and> i < r \<longrightarrow> \<not> P i) \<and> (r < hi \<longrightarrow> P r)"

lemma is_first_unique: "is_first P lo hi r \<Longrightarrow> is_first P lo hi r' \<Longrightarrow> r = r'"
  unfolding is_first_def by (metis le_antisym less_le_trans not_le)

lemma is_first_skip:
  "is_first P mid hi r \<Longrightarrow> lo \<le> mid \<Longrightarrow> (\<And>i. lo \<le> i \<Longrightarrow> i < mid \<Longrightarrow> \<not> P i) \<Longrightarrow> is_first P lo hi r"
  unfolding is_first_def by (meson le_trans not_le)

end
