(* ===== verification/Gas_State.thy ===== *)
theory Gas_State
  imports Gas_Prelude
begin

text \<open>
  The data of the file system (\<^verbatim>\<open>src/kern/gas.h\<close>): the on-disk structures with their
  byte layout, the in-core super block and inode, and the state of a mounted file system.

  A buffer head is represented by the number of the block it caches and \<open>bufs\<close> holds the contents
  of all buffers, so two readers of one block see each other's stores, as they do through the
  kernel's buffer cache. An in-core inode is named by its inode number and kept in \<open>icache\<close>;
  the page cache of inode \<open>ino\<close> is \<open>pages ino\<close>, by page index. \<open>PAGE_CACHE_SIZE\<close> is 4096, the
  block size.
\<close>

section \<open>Constants\<close>

abbreviation (input) GAS_MAX_NAME_LEN :: nat where "GAS_MAX_NAME_LEN \<equiv> 256"
abbreviation (input) GAS_BLOCK_SIZE :: nat where "GAS_BLOCK_SIZE \<equiv> 4096"
abbreviation (input) PAGE_CACHE_SIZE :: nat where "PAGE_CACHE_SIZE \<equiv> 4096"
abbreviation (input) PAGE_CACHE_SHIFT :: nat where "PAGE_CACHE_SHIFT \<equiv> 12"
abbreviation (input) MAGIC_NUMBER :: u32 where "MAGIC_NUMBER \<equiv> 0x6A5000F5"
abbreviation (input) BITS_PER_BLOCK :: nat where "BITS_PER_BLOCK \<equiv> 32768"
abbreviation (input) SUPER_BLOCK_NO :: nat where "SUPER_BLOCK_NO \<equiv> 0"
abbreviation (input) GAS_ROOT_INO :: nat where "GAS_ROOT_INO \<equiv> 1"
abbreviation (input) GAS_LINK_MAX :: nat where "GAS_LINK_MAX \<equiv> 32000"

text \<open>\<open>sizeof(struct gas_inode)\<close> and \<open>sizeof(struct gas_dir_entry)\<close>.\<close>

abbreviation (input) GAS_INODE_SIZE :: nat where "GAS_INODE_SIZE \<equiv> 64"
abbreviation (input) GAS_DIR_ENTRY_SIZE :: nat where "GAS_DIR_ENTRY_SIZE \<equiv> 260"

text \<open>File types and the \<open>S_IS\<dots>\<close> tests of \<open>sys/stat.h\<close>.\<close>

abbreviation (input) S_IFMT :: u16 where "S_IFMT \<equiv> 0xF000"
abbreviation (input) S_IFREG :: u16 where "S_IFREG \<equiv> 0x8000"
abbreviation (input) S_IFDIR :: u16 where "S_IFDIR \<equiv> 0x4000"
abbreviation (input) S_IFLNK :: u16 where "S_IFLNK \<equiv> 0xA000"
abbreviation (input) S_IFCHR :: u16 where "S_IFCHR \<equiv> 0x2000"
abbreviation (input) S_IFBLK :: u16 where "S_IFBLK \<equiv> 0x6000"

definition S_ISREG :: "u16 \<Rightarrow> bool" where "S_ISREG m \<longleftrightarrow> m AND S_IFMT = S_IFREG"
definition S_ISDIR :: "u16 \<Rightarrow> bool" where "S_ISDIR m \<longleftrightarrow> m AND S_IFMT = S_IFDIR"
definition S_ISLNK :: "u16 \<Rightarrow> bool" where "S_ISLNK m \<longleftrightarrow> m AND S_IFMT = S_IFLNK"
definition S_ISCHR :: "u16 \<Rightarrow> bool" where "S_ISCHR m \<longleftrightarrow> m AND S_IFMT = S_IFCHR"
definition S_ISBLK :: "u16 \<Rightarrow> bool" where "S_ISBLK m \<longleftrightarrow> m AND S_IFMT = S_IFBLK"

section \<open>On-disk structures\<close>

record gas_super_block =
  d_magic :: u32
  d_blocksize :: u32
  d_bam_blocks :: u32
  d_iam_blocks :: u32
  d_inode_blocks :: u32
  d_nblocks :: u32
  d_ninodes :: u32

text \<open>The seven little-endian fields, in order, from byte \<open>p\<close> of a block.\<close>

definition load_super :: "block \<Rightarrow> nat \<Rightarrow> gas_super_block" where
  "load_super b p = \<lparr>d_magic = get_le32 b p, d_blocksize = get_le32 b (p + 4),
     d_bam_blocks = get_le32 b (p + 8), d_iam_blocks = get_le32 b (p + 12),
     d_inode_blocks = get_le32 b (p + 16), d_nblocks = get_le32 b (p + 20),
     d_ninodes = get_le32 b (p + 24)\<rparr>"

definition store_super :: "block \<Rightarrow> nat \<Rightarrow> gas_super_block \<Rightarrow> block" where
  "store_super b p sb =
     put_le32 (put_le32 (put_le32 (put_le32 (put_le32 (put_le32 (put_le32 b p (d_magic sb))
       (p + 4) (d_blocksize sb)) (p + 8) (d_bam_blocks sb)) (p + 12) (d_iam_blocks sb))
       (p + 16) (d_inode_blocks sb)) (p + 20) (d_nblocks sb)) (p + 24) (d_ninodes sb)"

text \<open>\<open>i_blkaddr\<close> is an array of nine block addresses (6 direct, single, double, triple
  indirect); as a function it is 0 from index 9 on.\<close>

record gas_inode =
  gi_mode :: u16
  gi_nlink :: u16
  gi_uid :: u32
  gi_gid :: u32
  gi_size :: u32
  gi_atime :: u32
  gi_mtime :: u32
  gi_ctime :: u32
  gi_blkaddr :: "nat \<Rightarrow> u32"

definition gas_inode_ok :: "gas_inode \<Rightarrow> bool" where
  "gas_inode_ok gi \<longleftrightarrow> (\<forall>i\<ge>9. gi_blkaddr gi i = 0)"

fun put_words :: "block \<Rightarrow> nat \<Rightarrow> (nat \<Rightarrow> u32) \<Rightarrow> nat \<Rightarrow> block" where
  "put_words b p f 0 = b"
| "put_words b p f (Suc n) = put_le32 (put_words b p f n) (p + 4 * n) (f n)"

definition load_inode :: "block \<Rightarrow> nat \<Rightarrow> gas_inode" where
  "load_inode b p = \<lparr>gi_mode = get_le16 b p, gi_nlink = get_le16 b (p + 2),
     gi_uid = get_le32 b (p + 4), gi_gid = get_le32 b (p + 8), gi_size = get_le32 b (p + 12),
     gi_atime = get_le32 b (p + 16), gi_mtime = get_le32 b (p + 20), gi_ctime = get_le32 b (p + 24),
     gi_blkaddr = (\<lambda>i. if i < 9 then get_le32 b (p + 28 + 4 * i) else 0)\<rparr>"

definition store_inode :: "block \<Rightarrow> nat \<Rightarrow> gas_inode \<Rightarrow> block" where
  "store_inode b p gi =
     put_words (put_le32 (put_le32 (put_le32 (put_le32 (put_le32 (put_le32
       (put_le16 (put_le16 b p (gi_mode gi)) (p + 2) (gi_nlink gi))
       (p + 4) (gi_uid gi)) (p + 8) (gi_gid gi)) (p + 12) (gi_size gi))
       (p + 16) (gi_atime gi)) (p + 20) (gi_mtime gi)) (p + 24) (gi_ctime gi))
       (p + 28) (gi_blkaddr gi) 9"

lemma put_words_frame: "q < p \<or> p + 4 * n \<le> q \<Longrightarrow> put_words b p f n q = b q"
  by (induction n) auto

lemma get_le32_put_words:
  "i < n \<Longrightarrow> get_le32 (put_words b p f n) (p + 4 * i) = f i"
proof (induction n)
  case (Suc n)
  then show ?case by (cases "i = n") auto
qed simp

lemma get_put_words_before:
  "q + 4 \<le> p \<Longrightarrow> get_le32 (put_words b p f n) q = get_le32 b q"
  "q + 2 \<le> p \<Longrightarrow> get_le16 (put_words b p f n) q = get_le16 b q"
  by (induction n) auto

section \<open>The interface of a stored structure\<close>

text \<open>
  What a structure laid over the bytes of a block promises: reading back what was stored, touching
  only its own bytes, and depending only on them. Tables of structures (the inode list, the slots
  of a directory page, the block addresses of an indirect block) are clients.
\<close>

locale stored_struct =
  fixes store :: "block \<Rightarrow> nat \<Rightarrow> 'a \<Rightarrow> block"
    and load :: "block \<Rightarrow> nat \<Rightarrow> 'a"
    and width :: nat
    and ok :: "'a \<Rightarrow> bool"
  assumes load_store: "ok x \<Longrightarrow> load (store b p x) p = x"
    and store_frame: "q < p \<or> p + width \<le> q \<Longrightarrow> store b p x q = b q"
    and load_cong: "(\<And>q. p \<le> q \<Longrightarrow> q < p + width \<Longrightarrow> b q = c q) \<Longrightarrow> load b p = load c p"
begin

lemma load_store_disjoint:
  assumes "p + width \<le> q \<or> q + width \<le> p"
  shows "load (store b p x) q = load b q"
  by (rule load_cong) (use assms in \<open>auto intro: store_frame\<close>)

lemma slots_disjoint: "i \<noteq> j \<Longrightarrow> base + width * i + width \<le> base + width * j \<or> base + width * j + width \<le> base + width * i"
proof (induction i j rule: linorder_wlog)
  case (le a b)
  then have "Suc a \<le> b" by simp
  then have "width * Suc a \<le> width * b" by (rule mult_le_mono2)
  then show ?case by (simp add: algebra_simps)
qed auto

text \<open>A table of structures behaves as an array.\<close>

lemma load_store_slot:
  assumes "ok x"
  shows "load (store b (base + width * i) x) (base + width * j) = (if i = j then x else load b (base + width * j))"
  using slots_disjoint [of i j base] by (auto simp: load_store [OF assms] intro: load_store_disjoint)

end

lemma get_le32_eqI: "(\<And>q. p \<le> q \<Longrightarrow> q < p + 4 \<Longrightarrow> b q = c q) \<Longrightarrow> get_le32 b p = get_le32 c p"
  by (rule get_le32_cong) simp

lemma get_le16_eqI: "(\<And>q. p \<le> q \<Longrightarrow> q < p + 2 \<Longrightarrow> b q = c q) \<Longrightarrow> get_le16 b p = get_le16 c p"
  by (simp add: get_le16_def)

interpretation le32: stored_struct put_le32 get_le32 4 "\<lambda>_. True"
  by unfold_locales (auto intro: get_le32_eqI)

interpretation super: stored_struct store_super load_super 28 "\<lambda>_. True"
proof
  show "load_super (store_super b p x) p = x" for b p x
    by (simp add: load_super_def store_super_def)
  show "store_super b p x q = b q" if "q < p \<or> p + 28 \<le> q" for b p x q
    using that by (auto simp: store_super_def)
  show "load_super b p = load_super c p" if "\<And>q. p \<le> q \<Longrightarrow> q < p + 28 \<Longrightarrow> b q = c q" for b c p
    using that by (simp add: load_super_def) (auto intro!: get_le32_eqI)
qed

interpretation dinode: stored_struct store_inode load_inode GAS_INODE_SIZE gas_inode_ok
proof
  show "load_inode (store_inode b p x) p = x" if "gas_inode_ok x" for b p x
    using that get_le32_put_words [of _ 9 _ "p + 28"]
    by (auto simp: load_inode_def store_inode_def get_put_words_before gas_inode_ok_def fun_eq_iff
        intro!: gas_inode.equality)
  show "store_inode b p x q = b q" if "q < p \<or> p + GAS_INODE_SIZE \<le> q" for b p x q
    using that by (auto simp: store_inode_def put_words_frame)
  show "load_inode b p = load_inode c p"
    if "\<And>q. p \<le> q \<Longrightarrow> q < p + GAS_INODE_SIZE \<Longrightarrow> b q = c q" for b c p
    using that by (auto simp: load_inode_def fun_eq_iff intro!: get_le32_eqI get_le16_eqI)
qed

lemma gas_inode_ok_load [simp]: "gas_inode_ok (load_inode b p)"
  by (simp add: gas_inode_ok_def load_inode_def)

section \<open>In-core structures\<close>

text \<open>
  \<open>struct gas_sb_info\<close>. \<open>s_bam_bh\<close> and \<open>s_iam_bh\<close> are the arrays of pinned bitmap buffers, each
  buffer head given by its block number.
\<close>

record gas_sb_info =
  s_magic :: u32
  s_blocksize :: u32
  s_bam_blocks :: u32
  s_iam_blocks :: u32
  s_inode_blocks :: u32
  s_nblocks :: u32
  s_ninodes :: u32
  s_inodes_per_block :: u32
  s_bits_per_block :: u32
  s_dir_entries_per_block :: u32
  s_bam_bh :: "nat list"
  s_iam_bh :: "nat list"
  s_bam_last :: nat
  s_iam_last :: nat
  s_inode_list_start :: u32
  s_data_block_start :: u32

record timespec =
  tv_sec :: u64
  tv_nsec :: u64

datatype inode_ops = No_iops | File_iops | Dir_iops | Symlink_iops | Special_iops nat
datatype file_ops = No_fops | File_fops | Dir_fops | Special_fops nat
datatype space_ops = No_aops | Gas_aops

text \<open>
  \<open>struct gas_inode_info\<close>: the block addresses and the fields of the embedded VFS \<open>struct inode\<close>
  that the file system reads or writes. \<open>i_dirty\<close> is the dirty mark of \<open>mark_inode_dirty\<close>.
\<close>

record inode =
  i_ino :: nat
  i_mode :: u16
  i_nlink :: u32
  i_uid :: u32
  i_gid :: u32
  i_rdev :: u32
  i_size :: nat
  i_atime :: timespec
  i_mtime :: timespec
  i_ctime :: timespec
  i_op :: inode_ops
  i_fop :: file_ops
  i_aops :: space_ops
  i_dirty :: bool
  blkaddr :: "nat \<Rightarrow> u32"

text \<open>The state of a mounted file system. \<open>b_dirty\<close> is the dirty flag of each buffer.\<close>

record fs =
  sbi :: gas_sb_info
  sb_blocksize :: nat
  sb_blocksize_bits :: nat
  bufs :: "nat \<Rightarrow> block"
  b_dirty :: "nat \<Rightarrow> bool"
  icache :: "nat \<Rightarrow> inode"
  pages :: "nat \<Rightarrow> nat \<Rightarrow> block"

section \<open>Elementary state changes\<close>

definition set_buf :: "nat \<Rightarrow> block \<Rightarrow> fs \<Rightarrow> fs" where
  "set_buf n b s = s\<lparr>bufs := (bufs s)(n := b)\<rparr>"

definition mark_buffer_dirty :: "nat \<Rightarrow> fs \<Rightarrow> fs" where
  "mark_buffer_dirty n s = s\<lparr>b_dirty := (b_dirty s)(n := True)\<rparr>"

text \<open>\<open>bforget\<close>: the buffer loses its dirty mark, so its contents are not written back.\<close>

definition bforget :: "nat \<Rightarrow> fs \<Rightarrow> fs" where
  "bforget n s = s\<lparr>b_dirty := (b_dirty s)(n := False)\<rparr>"

text \<open>\<open>sync_dirty_buffer\<close>: the buffer is submitted for writing and its dirty mark cleared.\<close>

definition sync_dirty_buffer :: "nat \<Rightarrow> fs \<Rightarrow> fs" where
  "sync_dirty_buffer n s = s\<lparr>b_dirty := (b_dirty s)(n := False)\<rparr>"

definition upd_inode :: "nat \<Rightarrow> (inode \<Rightarrow> inode) \<Rightarrow> fs \<Rightarrow> fs" where
  "upd_inode ino f s = s\<lparr>icache := (icache s)(ino := f (icache s ino))\<rparr>"

definition mark_inode_dirty :: "nat \<Rightarrow> fs \<Rightarrow> fs" where
  "mark_inode_dirty ino = upd_inode ino (i_dirty_update (\<lambda>_. True))"

definition set_page :: "nat \<Rightarrow> nat \<Rightarrow> block \<Rightarrow> fs \<Rightarrow> fs" where
  "set_page ino n b s = s\<lparr>pages := (pages s)(ino := (pages s ino)(n := b))\<rparr>"

named_theorems state_simps \<open>field access after the elementary state changes\<close>

lemma set_buf_simps [simp, state_simps]:
  "bufs (set_buf n b s) = (bufs s)(n := b)" "b_dirty (set_buf n b s) = b_dirty s"
  "sbi (set_buf n b s) = sbi s" "icache (set_buf n b s) = icache s" "pages (set_buf n b s) = pages s"
  "sb_blocksize (set_buf n b s) = sb_blocksize s" "sb_blocksize_bits (set_buf n b s) = sb_blocksize_bits s"
  by (simp_all add: set_buf_def)

lemma mark_buffer_dirty_simps [simp, state_simps]:
  "bufs (mark_buffer_dirty n s) = bufs s" "b_dirty (mark_buffer_dirty n s) = (b_dirty s)(n := True)"
  "sbi (mark_buffer_dirty n s) = sbi s" "icache (mark_buffer_dirty n s) = icache s"
  "pages (mark_buffer_dirty n s) = pages s"
  "sb_blocksize (mark_buffer_dirty n s) = sb_blocksize s"
  "sb_blocksize_bits (mark_buffer_dirty n s) = sb_blocksize_bits s"
  by (simp_all add: mark_buffer_dirty_def)

lemma bforget_simps [simp, state_simps]:
  "bufs (bforget n s) = bufs s" "b_dirty (bforget n s) = (b_dirty s)(n := False)"
  "sbi (bforget n s) = sbi s" "icache (bforget n s) = icache s" "pages (bforget n s) = pages s"
  "sb_blocksize (bforget n s) = sb_blocksize s" "sb_blocksize_bits (bforget n s) = sb_blocksize_bits s"
  by (simp_all add: bforget_def)

lemma sync_dirty_buffer_simps [simp, state_simps]:
  "bufs (sync_dirty_buffer n s) = bufs s" "b_dirty (sync_dirty_buffer n s) = (b_dirty s)(n := False)"
  "sbi (sync_dirty_buffer n s) = sbi s" "icache (sync_dirty_buffer n s) = icache s"
  "pages (sync_dirty_buffer n s) = pages s"
  by (simp_all add: sync_dirty_buffer_def)

lemma upd_inode_simps [simp, state_simps]:
  "bufs (upd_inode ino f s) = bufs s" "b_dirty (upd_inode ino f s) = b_dirty s"
  "sbi (upd_inode ino f s) = sbi s" "icache (upd_inode ino f s) = (icache s)(ino := f (icache s ino))"
  "pages (upd_inode ino f s) = pages s" "sb_blocksize (upd_inode ino f s) = sb_blocksize s"
  "sb_blocksize_bits (upd_inode ino f s) = sb_blocksize_bits s"
  by (simp_all add: upd_inode_def)

lemma mark_inode_dirty_simps [simp, state_simps]:
  "bufs (mark_inode_dirty ino s) = bufs s" "b_dirty (mark_inode_dirty ino s) = b_dirty s"
  "sbi (mark_inode_dirty ino s) = sbi s"
  "icache (mark_inode_dirty ino s) = (icache s)(ino := (icache s ino)\<lparr>i_dirty := True\<rparr>)"
  "pages (mark_inode_dirty ino s) = pages s" "sb_blocksize (mark_inode_dirty ino s) = sb_blocksize s"
  "sb_blocksize_bits (mark_inode_dirty ino s) = sb_blocksize_bits s"
  by (simp_all add: mark_inode_dirty_def)

lemma set_page_simps [simp, state_simps]:
  "bufs (set_page ino n b s) = bufs s" "b_dirty (set_page ino n b s) = b_dirty s"
  "sbi (set_page ino n b s) = sbi s" "icache (set_page ino n b s) = icache s"
  "pages (set_page ino n b s) = (pages s)(ino := (pages s ino)(n := b))"
  "sb_blocksize (set_page ino n b s) = sb_blocksize s"
  "sb_blocksize_bits (set_page ino n b s) = sb_blocksize_bits s"
  by (simp_all add: set_page_def)

end
