(* ===== verification/Makefs_Bitmap.thy ===== *)
theory Makefs_Bitmap
  imports Gas_Prelude
begin

text \<open>
  The bitmap routines of the file system maker (\<^verbatim>\<open>src/makefs/bitmap.c\<close> and
  \<^verbatim>\<open>bitmap.h\<close>): find-first-set on a word, the scans for the next set and the next clear
  bit, setting and clearing a run of bits word by word with masks, and the first-fit allocation of
  a run. Data words are \<open>u64\<close>; bit numbers, which the callers keep far below \<open>2 ^ 31\<close>, are
  natural numbers (the scans only ever subtract from \<open>size\<close> what it is known to exceed).
\<close>

section \<open>Masks and find-first-set\<close>

definition BITMAP_FIRST_WORD_MASK :: "nat \<Rightarrow> u64" where
  "BITMAP_FIRST_WORD_MASK start = push_bit (start mod 64) (- 1)"

definition BITMAP_LAST_WORD_MASK :: "nat \<Rightarrow> u64" where
  "BITMAP_LAST_WORD_MASK nbits =
     (if nbits mod 64 \<noteq> 0 then push_bit (nbits mod 64) 1 - 1 else - 1)"

definition ffs :: "u64 \<Rightarrow> nat" where
  "ffs word =
     (let (num, word) = (if word AND 0xffffffff = 0 then (32, drop_bit 32 word) else (0, word));
          (num, word) = (if word AND 0xffff = 0 then (num + 16, drop_bit 16 word) else (num, word));
          (num, word) = (if word AND 0xff = 0 then (num + 8, drop_bit 8 word) else (num, word));
          (num, word) = (if word AND 0xf = 0 then (num + 4, drop_bit 4 word) else (num, word));
          (num, word) = (if word AND 0x3 = 0 then (num + 2, drop_bit 2 word) else (num, word))
      in if word AND 0x1 = 0 then num + 1 else num)"

definition ffz :: "u64 \<Rightarrow> nat" where
  "ffz x = ffs (NOT x)"

section \<open>Scanning for the next set or clear bit\<close>

definition next_bit_found_first :: "u64 \<Rightarrow> nat \<Rightarrow> nat \<Rightarrow> nat" where
  "next_bit_found_first tmp result sz =
     (let tmp = tmp AND drop_bit (64 - sz) (- 1)
      in if tmp = 0 then result + sz else result + ffs tmp)"

fun next_bit_words :: "u64map \<Rightarrow> nat \<Rightarrow> nat \<Rightarrow> nat \<Rightarrow> nat" where
  "next_bit_words addr p result sz =
     (if 64 \<le> sz
      then (if addr p \<noteq> 0 then result + ffs (addr p)
            else next_bit_words addr (p + 1) (result + 64) (sz - 64))
      else if sz = 0 then result
      else next_bit_found_first (addr p) result sz)"

definition find_next_bit :: "u64map \<Rightarrow> nat \<Rightarrow> nat \<Rightarrow> nat" where
  "find_next_bit addr sz offset =
     (if sz \<le> offset then sz
      else let p = offset div 64; result = offset - offset mod 64;
               sz = sz - result; offset = offset mod 64
           in if offset \<noteq> 0
              then let tmp = addr p AND push_bit offset (- 1)
                   in if sz < 64 then next_bit_found_first tmp result sz
                      else if tmp \<noteq> 0 then result + ffs tmp
                      else next_bit_words addr (p + 1) (result + 64) (sz - 64)
              else next_bit_words addr p result sz)"

definition next_zero_found_first :: "u64 \<Rightarrow> nat \<Rightarrow> nat \<Rightarrow> nat" where
  "next_zero_found_first tmp result sz =
     (let tmp = tmp OR push_bit sz (- 1)
      in if tmp = - 1 then result + sz else result + ffz tmp)"

fun next_zero_words :: "u64map \<Rightarrow> nat \<Rightarrow> nat \<Rightarrow> nat \<Rightarrow> nat" where
  "next_zero_words addr p result sz =
     (if 64 \<le> sz
      then (if NOT (addr p) \<noteq> 0 then result + ffz (addr p)
            else next_zero_words addr (p + 1) (result + 64) (sz - 64))
      else if sz = 0 then result
      else next_zero_found_first (addr p) result sz)"

definition find_next_zero_bit :: "u64map \<Rightarrow> nat \<Rightarrow> nat \<Rightarrow> nat" where
  "find_next_zero_bit addr sz offset =
     (if sz \<le> offset then sz
      else let p = offset div 64; result = offset - offset mod 64;
               sz = sz - result; offset = offset mod 64
           in if offset \<noteq> 0
              then let tmp = addr p OR drop_bit (64 - offset) (- 1)
                   in if sz < 64 then next_zero_found_first tmp result sz
                      else if NOT tmp \<noteq> 0 then result + ffz tmp
                      else next_zero_words addr (p + 1) (result + 64) (sz - 64)
              else next_zero_words addr p result sz)"

declare next_bit_words.simps [simp del] next_zero_words.simps [simp del]

section \<open>Setting and clearing runs\<close>

text \<open>
  The word loop of \<^verbatim>\<open>bitmap_set\<close>. \<open>bits_to_set\<close> is \<open>64 - start mod 64\<close> at first and
  64 from the second word on, so it is never 0; the guard records that for the termination proof.
\<close>

function bitmap_set_words :: "u64map \<Rightarrow> nat \<Rightarrow> nat \<Rightarrow> nat \<Rightarrow> u64 \<Rightarrow> u64map \<times> nat \<times> nat \<times> u64" where
  "bitmap_set_words mp p nr bits_to_set mask_to_set =
     (if bits_to_set \<le> nr \<and> 0 < bits_to_set
      then bitmap_set_words (mp(p := mp p OR mask_to_set)) (p + 1) (nr - bits_to_set) 64 (- 1)
      else (mp, p, nr, mask_to_set))"
  by pat_completeness auto
termination
  by (relation "measure (\<lambda>(mp, p, nr, bits, mask). nr)") auto

definition bitmap_set :: "u64map \<Rightarrow> nat \<Rightarrow> nat \<Rightarrow> u64map" where
  "bitmap_set mp start nr =
     (let sz = start + nr;
          (mp, p, nr, mask_to_set) =
            bitmap_set_words mp (start div 64) nr (64 - start mod 64) (BITMAP_FIRST_WORD_MASK start)
      in if nr \<noteq> 0 then mp(p := mp p OR (mask_to_set AND BITMAP_LAST_WORD_MASK sz)) else mp)"

function bitmap_clear_words :: "u64map \<Rightarrow> nat \<Rightarrow> nat \<Rightarrow> nat \<Rightarrow> u64 \<Rightarrow> u64map \<times> nat \<times> nat \<times> u64" where
  "bitmap_clear_words mp p nr bits_to_clear mask_to_clear =
     (if bits_to_clear \<le> nr \<and> 0 < bits_to_clear
      then bitmap_clear_words (mp(p := mp p AND NOT mask_to_clear)) (p + 1) (nr - bits_to_clear) 64 (- 1)
      else (mp, p, nr, mask_to_clear))"
  by pat_completeness auto
termination
  by (relation "measure (\<lambda>(mp, p, nr, bits, mask). nr)") auto

definition bitmap_clear :: "u64map \<Rightarrow> nat \<Rightarrow> nat \<Rightarrow> u64map" where
  "bitmap_clear mp start nr =
     (let sz = start + nr;
          (mp, p, nr, mask_to_clear) =
            bitmap_clear_words mp (start div 64) nr (64 - start mod 64) (BITMAP_FIRST_WORD_MASK start)
      in if nr \<noteq> 0 then mp(p := mp p AND NOT (mask_to_clear AND BITMAP_LAST_WORD_MASK sz)) else mp)"

declare bitmap_set_words.simps [simp del] bitmap_clear_words.simps [simp del]

section \<open>Find-first-set is the least set bit\<close>

definition lsb_at :: "u64 \<Rightarrow> nat \<Rightarrow> bool" where
  "lsb_at w n \<longleftrightarrow> bit w n \<and> (\<forall>j<n. \<not> bit w j)"

definition ffs_stage :: "nat \<Rightarrow> nat \<times> u64 \<Rightarrow> nat \<times> u64" where
  "ffs_stage k s = (if snd s AND mask k = 0 then (fst s + k, drop_bit k (snd s)) else s)"

lemma lsb_at_exists: "w \<noteq> 0 \<Longrightarrow> \<exists>n<64. lsb_at w n"
proof -
  assume "w \<noteq> 0"
  then obtain i where i: "bit w i" by (auto simp: bit_eq_iff)
  then have "lsb_at w (LEAST n. bit w n)"
    unfolding lsb_at_def by (auto intro: LeastI dest: not_less_Least)
  moreover from this have "(LEAST n. bit w n) < LENGTH(64)"
    unfolding lsb_at_def by (blast dest: bit_imp_le_length)
  ultimately show ?thesis by (intro exI [of _ "LEAST n. bit w n"]) simp
qed

lemma lsb_at_mask: "lsb_at w n \<Longrightarrow> w AND mask k = 0 \<longleftrightarrow> k \<le> n"
proof
  assume n: "lsb_at w n" and "w AND mask k = 0"
  then have "\<not> bit (w AND mask k) n" by simp
  with n show "k \<le> n" by (auto simp: lsb_at_def bit_and_iff bit_mask_iff dest: bit_imp_le_length)
next
  assume "lsb_at w n" and "k \<le> n"
  then show "w AND mask k = 0"
    by (auto intro!: bit_word_eqI simp: lsb_at_def bit_and_iff bit_mask_iff)
qed

lemma lsb_at_drop_bit: "lsb_at w n \<Longrightarrow> k \<le> n \<Longrightarrow> lsb_at (drop_bit k w) (n - k)"
  by (auto simp: lsb_at_def bit_drop_bit_eq)

lemma ffs_stage_inv:
  assumes "\<exists>m<2 * k. lsb_at (snd s) m \<and> fst s + m = n"
  shows "\<exists>m<k. lsb_at (snd (ffs_stage k s)) m \<and> fst (ffs_stage k s) + m = n"
proof -
  obtain m where m: "m < 2 * k" "lsb_at (snd s) m" "fst s + m = n" using assms by blast
  show ?thesis
  proof (cases "k \<le> m")
    case True
    with m have "m - k < k" "lsb_at (drop_bit k (snd s)) (m - k)" by (auto intro: lsb_at_drop_bit)
    with True m show ?thesis
      by (intro exI [of _ "m - k"]) (simp add: ffs_stage_def lsb_at_mask)
  qed (use m in \<open>auto simp: ffs_stage_def lsb_at_mask\<close>)
qed

lemma ffs_stage_if:
  "(if w AND 0xffffffff = 0 then (32, drop_bit 32 w) else (0, w)) = ffs_stage 32 (0, w)"
  "(if w AND 0xffff = 0 then (n + 16, drop_bit 16 w) else (n, w)) = ffs_stage 16 (n, w)"
  "(if w AND 0xff = 0 then (n + 8, drop_bit 8 w) else (n, w)) = ffs_stage 8 (n, w)"
  "(if w AND 0xf = 0 then (n + 4, drop_bit 4 w) else (n, w)) = ffs_stage 4 (n, w)"
  "(if w AND 0x3 = 0 then (n + 2, drop_bit 2 w) else (n, w)) = ffs_stage 2 (n, w)"
  "(if w AND 0x1 = 0 then n + 1 else n) = fst (ffs_stage 1 (n, w))"
  by (simp_all add: ffs_stage_def mask_eq_exp_minus_1)

lemma ffs_eq_stages:
  "ffs w = fst (ffs_stage 1 (ffs_stage 2 (ffs_stage 4 (ffs_stage 8 (ffs_stage 16 (ffs_stage 32 (0, w)))))))"
  by (simp only: ffs_def ffs_stage_if Let_def split_beta prod.collapse)

lemma ffs_lsb: "w \<noteq> 0 \<Longrightarrow> lsb_at w (ffs w) \<and> ffs w < 64"
proof -
  assume "w \<noteq> 0"
  then obtain n where n: "n < 64" "lsb_at w n" using lsb_at_exists by blast
  define s where "s = ffs_stage 2 (ffs_stage 4 (ffs_stage 8 (ffs_stage 16 (ffs_stage 32 (0, w)))))"
  from n have "\<exists>m<2 * 32. lsb_at (snd (0, w)) m \<and> fst (0, w) + m = n" by simp
  from ffs_stage_inv [OF this]
  have "\<exists>m<2 * 16. lsb_at (snd (ffs_stage 32 (0, w))) m \<and> fst (ffs_stage 32 (0, w)) + m = n"
    by simp
  from ffs_stage_inv [OF this]
  have "\<exists>m<2 * 8. lsb_at (snd (ffs_stage 16 (ffs_stage 32 (0, w)))) m \<and>
      fst (ffs_stage 16 (ffs_stage 32 (0, w))) + m = n" by simp
  from ffs_stage_inv [OF this]
  have "\<exists>m<2 * 4. lsb_at (snd (ffs_stage 8 (ffs_stage 16 (ffs_stage 32 (0, w))))) m \<and>
      fst (ffs_stage 8 (ffs_stage 16 (ffs_stage 32 (0, w)))) + m = n" by simp
  from ffs_stage_inv [OF this]
  have "\<exists>m<2 * 2. lsb_at (snd (ffs_stage 4 (ffs_stage 8 (ffs_stage 16 (ffs_stage 32 (0, w)))))) m \<and>
      fst (ffs_stage 4 (ffs_stage 8 (ffs_stage 16 (ffs_stage 32 (0, w))))) + m = n" by simp
  from ffs_stage_inv [OF this]
  have "\<exists>m<2 * 1. lsb_at (snd s) m \<and> fst s + m = n" by (simp add: s_def)
  from ffs_stage_inv [OF this] have "ffs w = n" by (simp add: ffs_eq_stages s_def)
  with n show ?thesis by simp
qed

section \<open>The scans find the first bit\<close>

lemma bit_and_high [bits_simps]: "bit (w AND push_bit k (- 1) :: u64) n \<longleftrightarrow> bit w n \<and> k \<le> n"
  using bit_imp_le_length [of w n] by (auto simp: bit_and_iff bit_not_iff bit_mask_iff)

lemma bit_and_low [bits_simps]: "k < 64 \<Longrightarrow> bit (w AND drop_bit (64 - k) (- 1) :: u64) n \<longleftrightarrow> bit w n \<and> n < k"
  using bit_imp_le_length [of w n] by (auto simp: bit_and_iff bit_mask_iff)

lemma is_first_word:
  assumes "tmp \<noteq> 0" and "result + ffs tmp < hi"
  shows "is_first (\<lambda>i. bit tmp (i - result)) result hi (result + ffs tmp)"
  using ffs_lsb [OF assms(1)] assms(2) by (auto simp: is_first_def lsb_at_def)

lemma next_bit_found_first_spec:
  assumes "sz < 64"
  shows "is_first (\<lambda>i. bit tmp (i - result)) result (result + sz) (next_bit_found_first tmp result sz)"
proof -
  define t where "t = tmp AND drop_bit (64 - sz) (- 1)"
  have t: "bit t n \<longleftrightarrow> bit tmp n \<and> n < sz" for n
    unfolding t_def by (rule bit_and_low [OF assms])
  show ?thesis
  proof (cases "t = 0")
    case True
    have "\<not> (bit tmp n \<and> n < sz)" for n using t [of n] True by simp
    then show ?thesis
      unfolding next_bit_found_first_def Let_def t_def [symmetric] by (force simp: is_first_def True)
  next
    case False
    from ffs_lsb [OF False] have "ffs t < sz" by (simp add: lsb_at_def t)
    with is_first_word [OF False, of result "result + sz"] False show ?thesis
      unfolding next_bit_found_first_def Let_def t_def [symmetric]
      by (auto simp: is_first_def t)
  qed
qed

lemma map_bit_word: "result = 64 * p \<Longrightarrow> result \<le> i \<Longrightarrow> i < result + 64 \<Longrightarrow>
    map_bit addr i = bit (addr p) (i - result)"
proof -
  assume *: "result = 64 * p" "result \<le> i" "i < result + 64"
  define j where "j = i - result"
  from * have "i = 64 * p + j" "j < 64" by (simp_all add: j_def)
  then show ?thesis by (simp add: map_bit_def *(1))
qed

lemma is_first_cong:
  "is_first P lo hi r \<Longrightarrow> (\<And>i. lo \<le> i \<Longrightarrow> i \<le> r \<Longrightarrow> i < hi \<Longrightarrow> P i = Q i) \<Longrightarrow> is_first Q lo hi r"
  unfolding is_first_def by (metis le_trans nat_less_le not_le)

lemma next_bit_words_spec:
  "result = 64 * p \<Longrightarrow> is_first (map_bit addr) result (result + sz) (next_bit_words addr p result sz)"
proof (induction addr p result sz rule: next_bit_words.induct)
  case (1 addr p result sz)
  show ?case
  proof (cases "64 \<le> sz")
    case True
    show ?thesis
    proof (cases "addr p = 0")
      case True
      with "1.IH" \<open>64 \<le> sz\<close> "1.prems"
      have "is_first (map_bit addr) (result + 64) (result + sz) (next_bit_words addr (p + 1) (result + 64) (sz - 64))"
        by simp
      then have "is_first (map_bit addr) result (result + sz) (next_bit_words addr (p + 1) (result + 64) (sz - 64))"
        by (rule is_first_skip) (simp_all add: map_bit_word [OF "1.prems"] True)
      with True \<open>64 \<le> sz\<close> show ?thesis by (simp add: next_bit_words.simps [of addr p])
    next
      case False
      from ffs_lsb [OF False] \<open>64 \<le> sz\<close>
      have "is_first (\<lambda>i. bit (addr p) (i - result)) result (result + sz) (result + ffs (addr p))"
        and less: "ffs (addr p) < 64"
        by (simp_all add: is_first_word False)
      from this(1) have "is_first (map_bit addr) result (result + sz) (result + ffs (addr p))"
        by (rule is_first_cong) (use less in \<open>simp add: map_bit_word [OF "1.prems"]\<close>)
      with False \<open>64 \<le> sz\<close> show ?thesis by (simp add: next_bit_words.simps [of addr p])
    qed
  next
    case False
    then have "sz < 64" by simp
    from next_bit_found_first_spec [OF this]
    have "is_first (map_bit addr) result (result + sz) (next_bit_found_first (addr p) result sz)"
      by (rule is_first_cong) (use False in \<open>simp add: map_bit_word [OF "1.prems"]\<close>)
    with False show ?thesis
      by (auto simp: next_bit_words.simps [of addr p] is_first_def)
  qed
qed

lemma is_first_first_word:
  assumes "is_first (\<lambda>i. bit (addr p AND push_bit k (- 1)) (i - 64 * p)) (64 * p) hi r"
    and "r < 64 * p + 64 \<or> hi \<le> 64 * p + 64" and "64 * p + k < hi"
  shows "is_first (map_bit addr) (64 * p + k) hi r"
proof -
  have b: "bit (addr p AND push_bit k (- 1)) n \<longleftrightarrow> bit (addr p) n \<and> k \<le> n" for n
    by (rule bit_and_high)
  have "64 * p + k \<le> r"
    using assms(1,3) unfolding is_first_def b by (cases "r < hi") auto
  then have "is_first (\<lambda>i. bit (addr p AND push_bit k (- 1)) (i - 64 * p)) (64 * p + k) hi r"
    using assms(1) unfolding is_first_def by auto
  then have "is_first (\<lambda>i. bit (addr p) (i - 64 * p) \<and> k \<le> i - 64 * p) (64 * p + k) hi r"
    unfolding b .
  then show ?thesis
    by (rule is_first_cong) (use assms(2) in \<open>auto simp: map_bit_word [of "64 * p" p]\<close>)
qed

lemma find_next_bit_spec:
  assumes "offset \<le> sz"
  shows "is_first (map_bit addr) offset sz (find_next_bit addr sz offset)"
proof (cases "offset = sz")
  case True
  then show ?thesis by (auto simp: find_next_bit_def is_first_def)
next
  case False
  define p k where "p = offset div 64" and "k = offset mod 64"
  have off: "offset = 64 * p + k" "k < 64" by (simp_all add: p_def k_def)
  define n where "n = sz - 64 * p"
  have n: "sz = 64 * p + n" "k < n" using False assms off by (simp_all add: n_def)
  define tmp where "tmp = addr p AND push_bit k (- 1)"
  let ?r = "if k \<noteq> 0
       then if n < 64 then next_bit_found_first tmp (64 * p) n
            else if tmp \<noteq> 0 then 64 * p + ffs tmp
            else next_bit_words addr (p + 1) (64 * p + 64) (n - 64)
       else next_bit_words addr p (64 * p) n"
  have eq: "find_next_bit addr sz offset = ?r"
    using False assms off(2) n(2) by (simp add: find_next_bit_def Let_def off(1) n(1) tmp_def)
  consider "k = 0" | "k \<noteq> 0" "n < 64" | "k \<noteq> 0" "64 \<le> n" "tmp \<noteq> 0" | "k \<noteq> 0" "64 \<le> n" "tmp = 0"
    by linarith
  then have "is_first (map_bit addr) (64 * p + k) (64 * p + n) ?r"
  proof cases
    case 1
    then show ?thesis using next_bit_words_spec [of "64 * p" p addr n] by simp
  next
    case 2
    have "is_first (map_bit addr) (64 * p + k) (64 * p + n) (next_bit_found_first tmp (64 * p) n)"
      by (rule is_first_first_word)
        (use 2 n next_bit_found_first_spec [of n tmp "64 * p"] in \<open>simp_all add: tmp_def\<close>)
    with 2 show ?thesis by simp
  next
    case 3
    have "is_first (map_bit addr) (64 * p + k) (64 * p + n) (64 * p + ffs tmp)"
      by (rule is_first_first_word)
        (use 3 n ffs_lsb [OF 3(3)] is_first_word [OF 3(3), of "64 * p" "64 * p + n"] in \<open>simp_all add: tmp_def\<close>)
    with 3 show ?thesis by simp
  next
    case 4
    have b: "k \<le> j \<Longrightarrow> \<not> bit (addr p) j" for j
      using bit_and_high [of "addr p" k j] 4(3) by (simp add: tmp_def)
    have "is_first (map_bit addr) (64 * p + 64) (64 * p + n) (next_bit_words addr (p + 1) (64 * p + 64) (n - 64))"
      using next_bit_words_spec [of "64 * p + 64" "p + 1" addr "n - 64"] 4 by simp
    then have "is_first (map_bit addr) (64 * p + k) (64 * p + n) (next_bit_words addr (p + 1) (64 * p + 64) (n - 64))"
      by (rule is_first_skip) (use off(2) b in \<open>simp_all add: map_bit_word [of "64 * p" p]\<close>)
    with 4 show ?thesis by simp
  qed
  then show ?thesis by (simp only: eq) (simp only: off(1) n(1))
qed

text \<open>
  The scan for a clear bit is the scan for a set bit of the complemented map: the two routines of
  the source, written with different masks, agree word by word.
\<close>

definition map_not :: "u64map \<Rightarrow> u64map" where
  "map_not m = (\<lambda>i. NOT (m i))"

lemma map_not_apply: "map_not m i = NOT (m i)"
  by (simp add: map_not_def)

lemma map_bit_map_not [simp, bits_simps]: "map_bit (map_not m) n \<longleftrightarrow> \<not> map_bit m n"
  by (simp add: map_bit_def map_not_apply bit_not_iff)

lemma map_not_map_not [simp]: "map_not (map_not m) = m"
  by (simp add: map_not_def)

lemma next_zero_found_first_not:
  assumes "sz < 64"
  shows "next_zero_found_first tmp result sz = next_bit_found_first (NOT tmp) result sz"
proof -
  have m: "NOT (push_bit sz (- 1)) = (drop_bit (64 - sz) (- 1) :: u64)"
    using assms by (auto intro!: bit_word_eqI simp: bit_not_iff bit_mask_iff)
  have "NOT (tmp OR push_bit sz (- 1)) = NOT tmp AND drop_bit (64 - sz) (- 1)"
    unfolding bit.de_Morgan_disj m ..
  moreover have "tmp OR push_bit sz (- 1) = - 1 \<longleftrightarrow> NOT (tmp OR push_bit sz (- 1)) = 0"
    by (metis bit.compl_one bit.double_compl)
  ultimately show ?thesis
    unfolding next_zero_found_first_def next_bit_found_first_def Let_def ffz_def by presburger
qed

lemma next_zero_words_not: "next_zero_words addr p result sz = next_bit_words (map_not addr) p result sz"
proof (induction addr p result sz rule: next_zero_words.induct)
  case (1 addr p result sz)
  have m: "map_not addr p = NOT (addr p)" by (rule map_not_apply)
  from 1 show ?case
    by (auto simp: next_zero_words.simps [of addr p] next_bit_words.simps [of "map_not addr" p] m
        ffz_def next_zero_found_first_not)
qed

lemma find_next_zero_bit_eq_find_next_bit:
  "find_next_zero_bit addr sz offset = find_next_bit (map_not addr) sz offset"
proof -
  have m: "map_not addr (offset div 64) = NOT (addr (offset div 64))" by (rule map_not_apply)
  have n: "NOT (w OR drop_bit (64 - k) (- 1)) = NOT w AND push_bit k (- 1)" if "k < 64" for k and w :: u64
    using that by (auto intro!: bit_word_eqI simp: bit_not_iff bit_or_iff bit_and_iff bit_mask_iff)
  show ?thesis
    unfolding find_next_zero_bit_def find_next_bit_def Let_def ffz_def next_zero_words_not m
    by (simp only: n [OF mod_less_divisor [OF zero_less_numeral]] next_zero_found_first_not
        mod_less_divisor zero_less_numeral cong: if_cong)
qed

lemma find_next_zero_bit_spec:
  assumes "offset \<le> sz"
  shows "is_first (\<lambda>i. \<not> map_bit addr i) offset sz (find_next_zero_bit addr sz offset)"
  unfolding find_next_zero_bit_eq_find_next_bit
  by (rule is_first_cong [OF find_next_bit_spec [OF assms]]) simp

section \<open>Setting and clearing runs, bit by bit\<close>

lemma same_word:
  assumes "i div 64 = pos div (64::nat)"
  shows "pos mod 64 \<le> i mod 64 \<longleftrightarrow> pos \<le> i" and "i < pos + (64 - pos mod 64)"
    and "i mod 64 < pos mod 64 + n \<longleftrightarrow> i < pos + n"
proof -
  have "64 * (i div 64) + i mod 64 = i" "64 * (pos div 64) + pos mod 64 = pos" "i mod 64 < 64"
    by simp_all
  with assms show "pos mod 64 \<le> i mod 64 \<longleftrightarrow> pos \<le> i" and "i < pos + (64 - pos mod 64)"
    and "i mod 64 < pos mod 64 + n \<longleftrightarrow> i < pos + n" by linarith+
qed

lemma other_word:
  assumes "i div 64 \<noteq> pos div (64::nat)" and "n \<le> 64 - pos mod 64"
  shows "\<not> (pos \<le> i \<and> i < pos + n)"
proof
  assume i: "pos \<le> i \<and> i < pos + n"
  have "i = 64 * (pos div 64) + (i - 64 * (pos div 64))" "i - 64 * (pos div 64) < 64"
    using i assms(2) div_mult_mod_eq [of pos 64] by linarith+
  then have "i div 64 = pos div 64" by (metis add.commute div_less div_mult_self4 add_0 zero_neq_numeral)
  with assms(1) show False ..
qed

lemma next_word:
  "(pos + (64 - pos mod 64)) div 64 = pos div 64 + 1" "(pos + (64 - pos mod 64)) mod (64::nat) = 0"
proof -
  define q r where "q = pos div 64" and "r = pos mod 64"
  have "pos = 64 * q + r" "r < 64" by (simp_all add: q_def r_def)
  then have "pos + (64 - r) = 64 * (q + 1)" by simp
  then show "(pos + (64 - pos mod 64)) div 64 = pos div 64 + 1" "(pos + (64 - pos mod 64)) mod 64 = 0"
    by (simp_all flip: q_def r_def)
qed

lemma bitmap_set_words_spec:
  assumes "bitmap_set_words mp (pos div 64) nr (64 - pos mod 64) (push_bit (pos mod 64) (- 1)) = (mp', p', nr', mask')"
  shows "\<exists>pos'. pos' + nr' = pos + nr \<and> pos \<le> pos' \<and> p' = pos' div 64 \<and> nr' < 64 - pos' mod 64 \<and>
     mask' = push_bit (pos' mod 64) (- 1) \<and>
     (\<forall>i. map_bit mp' i \<longleftrightarrow> map_bit mp i \<or> pos \<le> i \<and> i < pos')"
  using assms
proof (induction nr arbitrary: mp pos rule: less_induct)
  case (less nr)
  define k where "k = 64 - pos mod 64"
  show ?case
  proof (cases "k \<le> nr")
    case True
    define pos1 where "pos1 = pos + k"
    have k: "0 < k" "k \<le> 64" and pos1: "pos1 div 64 = pos div 64 + 1" "pos1 mod 64 = 0"
      using next_word [of pos] by (simp_all add: k_def pos1_def)
    define mp1 where "mp1 = mp(pos div 64 := mp (pos div 64) OR push_bit (pos mod 64) (- 1))"
    have "bitmap_set_words mp1 (pos1 div 64) (nr - k) (64 - pos1 mod 64) (push_bit (pos1 mod 64) (- 1))
        = (mp', p', nr', mask')"
      using less.prems True k unfolding k_def [symmetric]
      by (subst (asm) bitmap_set_words.simps) (simp add: pos1 mp1_def)
    from less.IH [OF _ this] k True obtain pos' where pos': "pos' + nr' = pos1 + (nr - k)" "pos1 \<le> pos'"
      "p' = pos' div 64" "nr' < 64 - pos' mod 64" "mask' = push_bit (pos' mod 64) (- 1)"
      "\<forall>i. map_bit mp' i \<longleftrightarrow> map_bit mp1 i \<or> pos1 \<le> i \<and> i < pos'" by auto
    have b: "map_bit mp1 i \<longleftrightarrow> map_bit mp i \<or> pos \<le> i \<and> i < pos1" for i
      using same_word [of i pos] other_word [of i pos k]
      by (auto simp: mp1_def map_bit_def pos1_def k_def bit_or_iff bit_not_iff bit_mask_iff)
    have "map_bit mp' i \<longleftrightarrow> map_bit mp i \<or> pos \<le> i \<and> i < pos'" for i
      unfolding pos'(6) [rule_format] b using pos'(2) by (auto simp: pos1_def)
    with pos'(1-5) True show ?thesis by (intro exI [of _ pos']) (simp add: pos1_def)
  next
    case False
    with less.prems have "mp' = mp" "p' = pos div 64" "nr' = nr" "mask' = push_bit (pos mod 64) (- 1)"
      by (subst (asm) bitmap_set_words.simps, simp add: k_def)+
    with False show ?thesis by (intro exI [of _ pos]) (auto simp: k_def)
  qed
qed

lemma map_bit_bitmap_set [bits_simps]:
  "map_bit (bitmap_set mp start nr) i \<longleftrightarrow> map_bit mp i \<or> start \<le> i \<and> i < start + nr"
proof -
  obtain mp' p' nr' mask' where r:
    "bitmap_set_words mp (start div 64) nr (64 - start mod 64) (push_bit (start mod 64) (- 1)) = (mp', p', nr', mask')"
    by (metis prod_cases4)
  from bitmap_set_words_spec [OF this] obtain pos where pos: "pos + nr' = start + nr" "start \<le> pos"
    "p' = pos div 64" "nr' < 64 - pos mod 64" "mask' = push_bit (pos mod 64) (- 1)"
    "\<forall>i. map_bit mp' i \<longleftrightarrow> map_bit mp i \<or> start \<le> i \<and> i < pos" by blast
  show ?thesis
  proof (cases "nr' = 0")
    case True
    with pos r show ?thesis by (simp add: bitmap_set_def BITMAP_FIRST_WORD_MASK_def)
  next
    case False
    define m where "m = mask' AND BITMAP_LAST_WORD_MASK (start + nr)"
    have "(pos + nr') mod 64 = (pos mod 64 + nr') mod 64" by (simp add: mod_add_left_eq)
    then have q: "(pos + nr') mod 64 = pos mod 64 + nr'" using pos(4) by simp
    have m: "bit m j \<longleftrightarrow> pos mod 64 \<le> j \<and> j < pos mod 64 + nr'" for j
      using False pos(4)
      by (auto simp: m_def pos(5) BITMAP_LAST_WORD_MASK_def q pos(1) [symmetric] bit_and_iff bit_not_iff
          bit_mask_iff mask_eq_exp_minus_1 [symmetric])
    have "bitmap_set mp start nr = mp'(p' := mp' p' OR m)"
      using False r by (simp add: bitmap_set_def BITMAP_FIRST_WORD_MASK_def m_def)
    moreover have "map_bit (mp'(p' := mp' p' OR m)) i \<longleftrightarrow> map_bit mp' i \<or> pos \<le> i \<and> i < pos + nr'"
      using same_word [of i pos] other_word [of i pos nr'] pos(4)
      by (auto simp: map_bit_def bit_or_iff m pos(3))
    ultimately show ?thesis using pos(1,2) unfolding pos(6) [rule_format] by auto
  qed
qed

text \<open>Clearing a run is setting it in the complement.\<close>

lemma bitmap_clear_words_not:
  "bitmap_clear_words mp p nr k msk =
     (case bitmap_set_words (map_not mp) p nr k msk of (mp', r) \<Rightarrow> (map_not mp', r))"
proof (induction mp p nr k msk rule: bitmap_clear_words.induct)
  case (1 mp p nr k msk)
  have "map_not (mp(p := mp p AND NOT msk)) = (map_not mp)(p := map_not mp p OR msk)"
    by (auto simp: map_not_def fun_eq_iff)
  note IH = "1.IH" [unfolded this]
  show ?case
  proof (cases "k \<le> nr \<and> 0 < k")
    case True
    from IH [OF True] True show ?thesis
      by (simp only: bitmap_clear_words.simps [of mp] bitmap_set_words.simps [of "map_not mp"] if_True simp_thms)
  qed (auto simp: bitmap_clear_words.simps [of mp] bitmap_set_words.simps [of "map_not mp"])
qed

lemma bitmap_clear_eq_bitmap_set: "bitmap_clear mp start nr = map_not (bitmap_set (map_not mp) start nr)"
  by (auto simp: bitmap_clear_def bitmap_set_def bitmap_clear_words_not Let_def map_not_def fun_eq_iff
      split: prod.splits)

lemma map_bit_bitmap_clear [bits_simps]:
  "map_bit (bitmap_clear mp start nr) i \<longleftrightarrow> map_bit mp i \<and> \<not> (start \<le> i \<and> i < start + nr)"
  by (auto simp: bitmap_clear_eq_bitmap_set map_bit_bitmap_set)

section \<open>Allocating a run\<close>

text \<open>\<open>__ALIGN_MASK\<close>: \<open>(x + msk)\<close> with the bits of \<open>msk\<close> cleared.\<close>

definition ALIGN_MASK :: "nat \<Rightarrow> nat \<Rightarrow> nat" where
  "ALIGN_MASK x msk = (x + msk) - ((x + msk) AND msk)"

lemma ALIGN_MASK_ge: "x \<le> ALIGN_MASK x msk"
proof -
  have "int ((x + msk) AND msk) \<le> int msk"
    unfolding of_nat_and_eq by (rule AND_upper2) simp
  then have "(x + msk) AND msk \<le> msk" by simp
  then show ?thesis by (simp add: ALIGN_MASK_def)
qed

lemma ALIGN_MASK_0 [simp]: "ALIGN_MASK x 0 = x"
  by (simp add: ALIGN_MASK_def)

lemma find_next_zero_bit_ge: "min offset sz \<le> find_next_zero_bit addr sz offset"
  using find_next_zero_bit_spec [of offset sz addr]
  by (cases "offset \<le> sz") (auto simp: is_first_def find_next_zero_bit_def)

lemma find_next_bit_ge: "min offset sz \<le> find_next_bit addr sz offset"
  using find_next_bit_spec [of offset sz addr]
  by (cases "offset \<le> sz") (auto simp: is_first_def find_next_bit_def)

function bitmap_find_next_zero_area :: "u64map \<Rightarrow> nat \<Rightarrow> nat \<Rightarrow> nat \<Rightarrow> nat \<Rightarrow> nat" where
  "bitmap_find_next_zero_area mp sz start nr align_mask =
     (let index = ALIGN_MASK (find_next_zero_bit mp sz start) align_mask;
          e = index + nr
      in if sz < e then e
         else let i = find_next_bit mp e index
              in if i < e then bitmap_find_next_zero_area mp sz (i + 1) nr align_mask
                 else index)"
  by pat_completeness auto
termination
proof (relation "measure (\<lambda>(mp, sz, start, nr, align_mask). sz - start)", goal_cases)
  case (2 mp sz start nr align_mask index e i)
  have "min start sz \<le> index"
    using find_next_zero_bit_ge [of start sz mp] ALIGN_MASK_ge 2(1) by (metis le_trans)
  moreover have "min index e \<le> i" using find_next_bit_ge [of index e mp] 2(4) by simp
  ultimately show ?case using 2(2,3,5) by auto
qed simp

declare bitmap_find_next_zero_area.simps [simp del]

definition bitmap_alloc_region :: "u64map \<Rightarrow> nat \<Rightarrow> nat \<Rightarrow> nat \<Rightarrow> nat \<times> u64map" where
  "bitmap_alloc_region bitmap sz start nr =
     (let pos = bitmap_find_next_zero_area bitmap sz start nr 0
      in if sz < pos then (0, bitmap) else (pos, bitmap_set bitmap pos nr))"

definition bitmap_free_region :: "u64map \<Rightarrow> nat \<Rightarrow> nat \<Rightarrow> u64map" where
  "bitmap_free_region bitmap pos nr = bitmap_clear bitmap pos nr"

definition free_run :: "u64map \<Rightarrow> nat \<Rightarrow> nat \<Rightarrow> bool" where
  "free_run m pos nr \<longleftrightarrow> (\<forall>i. pos \<le> i \<and> i < pos + nr \<longrightarrow> \<not> map_bit m i)"

lemma not_free_runI: "map_bit m i \<Longrightarrow> pos \<le> i \<Longrightarrow> i < pos + nr \<Longrightarrow> \<not> free_run m pos nr"
  by (auto simp: free_run_def)

text \<open>
  The search either returns the first free run (first fit) or a number above \<open>sz\<close>, and then
  there is no free run at all.
\<close>

lemma bitmap_find_next_zero_area_spec:
  fixes mp :: u64map
  assumes "0 < nr" and "start \<le> sz"
  defines "r \<equiv> bitmap_find_next_zero_area mp sz start nr 0"
  shows "r + nr \<le> sz \<and> start \<le> r \<and> free_run mp r nr \<and> (\<forall>q. start \<le> q \<and> q < r \<longrightarrow> \<not> free_run mp q nr)
    \<or> sz < r \<and> (\<forall>q. start \<le> q \<and> q + nr \<le> sz \<longrightarrow> \<not> free_run mp q nr)"
  using assms(2) unfolding r_def
proof (induction "sz - start" arbitrary: start rule: less_induct)
  case less
  define x where "x = find_next_zero_bit mp sz start"
  define i where "i = find_next_bit mp (x + nr) x"
  have x: "start \<le> x" "x \<le> sz" "\<And>q. start \<le> q \<Longrightarrow> q < x \<Longrightarrow> map_bit mp q"
    using find_next_zero_bit_spec [OF less.prems, of mp] by (auto simp: is_first_def x_def)
  have i: "x \<le> i" "i \<le> x + nr" "\<And>q. x \<le> q \<Longrightarrow> q < i \<Longrightarrow> \<not> map_bit mp q" "i < x + nr \<Longrightarrow> map_bit mp i"
    using find_next_bit_spec [of x "x + nr" mp] by (auto simp: is_first_def i_def)
  have before: "\<not> free_run mp q nr" if "start \<le> q" "q < x" for q
    using assms(1) by (intro not_free_runI [OF x(3) [OF that]]) auto
  have eq: "bitmap_find_next_zero_area mp sz start nr 0 =
      (if sz < x + nr then x + nr
       else if i < x + nr then bitmap_find_next_zero_area mp sz (i + 1) nr 0 else x)"
    by (subst bitmap_find_next_zero_area.simps) (simp add: x_def i_def Let_def)
  consider "sz < x + nr" | "x + nr \<le> sz" "i < x + nr" | "x + nr \<le> sz" "i = x + nr"
    using i(2) by linarith
  then show ?case
  proof cases
    case 1
    have "\<not> free_run mp q nr" if "start \<le> q" "q + nr \<le> sz" for q
      using 1 that by (intro before) auto
    with 1 show ?thesis unfolding eq by auto
  next
    case 2
    have upto: "\<not> free_run mp q nr" if "start \<le> q" "q < i + 1" for q
    proof (cases "q < x")
      case False
      then show ?thesis using that 2 by (intro not_free_runI [OF i(4)]) auto
    qed (use that before in blast)
    have "sz - (i + 1) < sz - start" "i + 1 \<le> sz" using x i(1) 2 by auto
    note IH = less.hyps [OF this]
    have r: "bitmap_find_next_zero_area mp sz start nr 0 = bitmap_find_next_zero_area mp sz (i + 1) nr 0"
      using eq 2 by simp
    have "start \<le> i + 1" using x(1) i(1) by simp
    with IH upto show ?thesis unfolding r by (meson le_trans not_le)
  next
    case 3
    then have "free_run mp x nr" using i(3) by (auto simp: free_run_def)
    with 3 x(1) before show ?thesis unfolding eq by auto
  qed
qed

section \<open>Properties of the bitmap routines\<close>

text \<open>
  \<^verbatim>\<open>__ffs\<close>: on a non-zero word the six mask-and-shift stages compute the number of the
  least significant set bit.
\<close>

theorem ffs_least_set_bit:
  assumes "w \<noteq> 0"
  shows "ffs w < 64 \<and> bit w (ffs w) \<and> (\<forall>j<ffs w. \<not> bit w j)"
  using ffs_lsb [OF assms] by (simp add: lsb_at_def)

theorem ffs_least_set_bit_witness:
  "(0x5000 :: u64) \<noteq> 0 \<and> ffs 0x5000 = 12 \<and> bit (0x5000 :: u64) (ffs 0x5000) \<and> \<not> bit (0x5000 :: u64) 11"
proof -
  have "ffs 0x5000 = 12" by (simp add: ffs_def)
  then show ?thesis using ffs_least_set_bit [of "0x5000"] by simp
qed

text \<open>
  C38. \<^verbatim>\<open>find_next_bit\<close> and \<^verbatim>\<open>find_next_zero_bit\<close>, with their separate treatment of a
  partial first word, whole words and a partial last word, return the first set (clear) bit at or
  after \<open>offset\<close>, or \<open>size\<close> when there is none below \<open>size\<close>.
\<close>

theorem find_next_bit_first:
  assumes "offset \<le> sz"
  shows "is_first (map_bit m) offset sz (find_next_bit m sz offset) \<and>
    is_first (\<lambda>i. \<not> map_bit m i) offset sz (find_next_zero_bit m sz offset)"
  using find_next_bit_spec [OF assms] find_next_zero_bit_spec [OF assms] by blast

theorem find_next_bit_first_witness:
  "find_next_zero_bit (\<lambda>_. 0xff) 100 3 = 8 \<and> is_first (\<lambda>i. \<not> map_bit (\<lambda>_. 0xff) i) 3 100 8"
proof
  show r: "find_next_zero_bit (\<lambda>_. 0xff) 100 3 = 8"
    by (simp add: find_next_zero_bit_def ffz_def ffs_def Let_def mask_eq_exp_minus_1)
  have "(3::nat) \<le> 100" by simp
  from find_next_bit_first [OF this, THEN conjunct2, of "\<lambda>_. 0xff"]
  show "is_first (\<lambda>i. \<not> map_bit (\<lambda>_. 0xff) i) 3 100 8" unfolding r .
qed

text \<open>
  \<^verbatim>\<open>bitmap_set\<close> and \<^verbatim>\<open>bitmap_clear\<close>: the word-at-a-time loops with their first and last
  word masks set (clear) exactly the bits of the run and leave every other bit of the map alone.
\<close>

theorem bitmap_set_clear_exact:
  "map_bit (bitmap_set m start nr) i = (map_bit m i \<or> start \<le> i \<and> i < start + nr) \<and>
   map_bit (bitmap_clear m start nr) i = (map_bit m i \<and> \<not> (start \<le> i \<and> i < start + nr))"
  by (simp add: map_bit_bitmap_set map_bit_bitmap_clear)

text \<open>
  C35. \<^verbatim>\<open>bitmap_alloc_region\<close> is first fit: when a free run of \<open>nr\<close> bits exists at or after
  \<open>start\<close> it returns the lowest one and sets exactly its bits; when none exists it returns 0 and
  leaves the map as it was.
\<close>

theorem bitmap_alloc_region_first_fit:
  assumes "0 < nr" and "start \<le> sz" and "bitmap_alloc_region m sz start nr = (pos, m')"
  shows "if \<exists>q. start \<le> q \<and> q + nr \<le> sz \<and> free_run m q nr
    then start \<le> pos \<and> pos + nr \<le> sz \<and> free_run m pos nr \<and>
      (\<forall>q. start \<le> q \<and> q < pos \<longrightarrow> \<not> free_run m q nr) \<and>
      (\<forall>i. map_bit m' i \<longleftrightarrow> map_bit m i \<or> pos \<le> i \<and> i < pos + nr)
    else pos = 0 \<and> m' = m"
proof -
  define r where "r = bitmap_find_next_zero_area m sz start nr 0"
  have m: "(pos, m') = (if sz < r then (0, m) else (r, bitmap_set m r nr))"
    using assms(3) by (auto simp: bitmap_alloc_region_def r_def Let_def split: if_splits)
  from bitmap_find_next_zero_area_spec [OF assms(1,2), of m] show ?thesis
    unfolding r_def [symmetric] using m by (auto simp: map_bit_bitmap_set)
qed

theorem bitmap_alloc_region_first_fit_witness:
  "fst (bitmap_alloc_region (\<lambda>_. 0x7) 128 0 5) = 3 \<and> free_run (\<lambda>_. 0x7) 3 5"
proof -
  have e: "find_next_zero_bit (\<lambda>_. 0x7) 128 0 = 3" "find_next_bit (\<lambda>_. 0x7) 8 3 = 8"
    by (simp_all add: find_next_zero_bit_def find_next_bit_def next_zero_words.simps next_bit_words.simps
        next_bit_found_first_def ffz_def ffs_def Let_def mask_eq_exp_minus_1)
  then have "bitmap_find_next_zero_area (\<lambda>_. 0x7) 128 0 5 0 = 3"
    by (subst bitmap_find_next_zero_area.simps) simp
  then have r: "bitmap_alloc_region (\<lambda>_. 0x7) 128 0 5 = (3, bitmap_set (\<lambda>_. 0x7) 3 5)"
    by (simp add: bitmap_alloc_region_def)
  have "(\<exists>q. 0 \<le> q \<and> q + 5 \<le> (128::nat) \<and> free_run (\<lambda>_. 0x7) q 5) \<or> (3::nat) = 0"
    using bitmap_alloc_region_first_fit [OF _ _ r] by (auto split: if_splits)
  with bitmap_alloc_region_first_fit [OF _ _ r] r show ?thesis by (auto split: if_splits)
qed

text \<open>
  Freeing what was just allocated restores the map, bit for bit.
\<close>

theorem bitmap_free_alloc_region:
  assumes "0 < nr" and "start \<le> sz" and "bitmap_alloc_region m sz start nr = (pos, m')"
    and "\<exists>q. start \<le> q \<and> q + nr \<le> sz \<and> free_run m q nr"
  shows "bitmap_free_region m' pos nr = m"
proof (rule u64map_eqI)
  fix i
  from bitmap_find_next_zero_area_spec [OF assms(1,2), of m] assms(3,4)
  have "free_run m pos nr" "m' = bitmap_set m pos nr"
    by (auto simp: bitmap_alloc_region_def Let_def split: if_splits)
  then show "map_bit (bitmap_free_region m' pos nr) i = map_bit m i"
    by (auto simp: bitmap_free_region_def map_bit_bitmap_set map_bit_bitmap_clear free_run_def)
qed

theorem bitmap_free_alloc_region_witness:
  "bitmap_free_region (snd (bitmap_alloc_region (\<lambda>_. 0) 128 0 5)) (fst (bitmap_alloc_region (\<lambda>_. 0) 128 0 5)) 5
    = (\<lambda>_. 0)"
proof (rule bitmap_free_alloc_region)
  show "bitmap_alloc_region (\<lambda>_. 0) 128 0 5 =
      (fst (bitmap_alloc_region (\<lambda>_. 0) 128 0 5), snd (bitmap_alloc_region (\<lambda>_. 0) 128 0 5))" by simp
  show "\<exists>q. 0 \<le> q \<and> q + 5 \<le> (128::nat) \<and> free_run (\<lambda>_. 0) q 5"
    by (intro exI [of _ 0]) (simp add: free_run_def map_bit_def)
qed simp_all

end
