(* ===== verification/Kern_Bitops.thy ===== *)
theory Kern_Bitops
  imports Gas_State Makefs_Bitmap
begin

text \<open>
  The kernel services the file system calls. None of them is part of this repository, so each is a
  field of a record that every definition using it takes as an argument; what the code relies on is
  stated as the assumptions of a locale. The bit operations of \<open>linux/bitops.h\<close> work on the data
  of a buffer; the locale is interpreted on the repository's own bitmap routines.
\<close>

section \<open>Bit operations on a buffer\<close>

record bitops =
  find_first_zero_bit :: "block \<Rightarrow> nat \<Rightarrow> nat"
  bit_set :: "nat \<Rightarrow> block \<Rightarrow> block"
  test_and_clear_bit :: "nat \<Rightarrow> block \<Rightarrow> bool \<times> block"
  hweight16 :: "u16 \<Rightarrow> nat"

text \<open>The number of set bits of a half word, the documented value of \<open>hweight16\<close>.\<close>

definition popcount16 :: "u16 \<Rightarrow> nat" where
  "popcount16 w = length (filter (bit w) [0..<16])"

locale kernel_bitops =
  fixes K :: "'k bitops_scheme"
  assumes ffzb: "is_first (\<lambda>i. \<not> blk_bit b i) 0 n (find_first_zero_bit K b n)"
    and bit_set: "blk_bit (bit_set K n b) i \<longleftrightarrow> i = n \<or> blk_bit b i"
    and test_and_clear_old: "fst (test_and_clear_bit K n b) = blk_bit b n"
    and test_and_clear_new: "blk_bit (snd (test_and_clear_bit K n b)) i \<longleftrightarrow> i \<noteq> n \<and> blk_bit b i"
    and hweight: "hweight16 K w = popcount16 w"
begin

lemma ffzb_le: "find_first_zero_bit K b n \<le> n"
  using ffzb [of b n] by (simp add: is_first_def)

lemma ffzb_clear: "find_first_zero_bit K b n < n \<Longrightarrow> \<not> blk_bit b (find_first_zero_bit K b n)"
  using ffzb [of b n] by (simp add: is_first_def)

lemma ffzb_full: "\<not> find_first_zero_bit K b n < n \<longleftrightarrow> (\<forall>i<n. blk_bit b i)"
proof
  assume "\<not> find_first_zero_bit K b n < n"
  with ffzb [of b n] show "\<forall>i<n. blk_bit b i" by (auto simp: is_first_def)
qed (use ffzb_clear [of b n] in blast)

lemma clear_set: "\<not> blk_bit b n \<Longrightarrow> snd (test_and_clear_bit K n (bit_set K n b)) = b"
  by (rule block_eqI) (auto simp: test_and_clear_new bit_set)

end

text \<open>The makefs routines, applied to the 64-bit words of the buffer, meet the contract.\<close>

definition makefs_bitops :: bitops where
  "makefs_bitops = \<lparr>find_first_zero_bit = (\<lambda>b n. find_next_zero_bit (u64s b) n 0),
     bit_set = (\<lambda>n b. bytes_of (bitmap_set (u64s b) n 1)),
     test_and_clear_bit = (\<lambda>n b. (find_next_bit (u64s b) (n + 1) n = n, bytes_of (bitmap_clear (u64s b) n 1))),
     hweight16 = popcount16\<rparr>"

lemma find_next_bit_test: "find_next_bit m (n + 1) n = n \<longleftrightarrow> map_bit m n"
  using find_next_bit_spec [of n "n + 1" m] by (auto simp: is_first_def le_Suc_eq)

interpretation makefs: kernel_bitops makefs_bitops
proof
  show "is_first (\<lambda>i. \<not> blk_bit b i) 0 n (find_first_zero_bit makefs_bitops b n)" for b n
    using find_next_zero_bit_spec [of 0 n "u64s b"] by (simp add: makefs_bitops_def)
  show "blk_bit (bit_set makefs_bitops n b) i \<longleftrightarrow> i = n \<or> blk_bit b i" for n b i
    by (auto simp: makefs_bitops_def map_bit_bitmap_set)
  show "fst (test_and_clear_bit makefs_bitops n b) = blk_bit b n" for n b
    by (simp add: makefs_bitops_def find_next_bit_test [unfolded Suc_eq_plus1 [symmetric]])
  show "blk_bit (snd (test_and_clear_bit makefs_bitops n b)) i \<longleftrightarrow> i \<noteq> n \<and> blk_bit b i" for n b i
    by (auto simp: makefs_bitops_def map_bit_bitmap_clear)
qed (simp add: makefs_bitops_def)

end
