(* ===== verification/Gas_Inode.thy ===== *)
theory Gas_Inode
  imports Kern_Bitops
begin

text \<open>
  The inode table (\<^verbatim>\<open>src/kern/gas_inode.c\<close>): where inode \<open>ino\<close> lives on disk, writing an
  in-core inode to its slot, reading it back, and choosing its operations by file type. (Truncation
  and eviction, which need the block tree and the bitmaps, are in \<open>Gas_Page\<close>.)
\<close>

section \<open>Kernel services\<close>

text \<open>
  \<open>sb_bread\<close> returns the data of the buffer for a block, or nothing on a read error;
  \<open>iget_locked\<close> fails, finds a cached inode or hands out a fresh one to be filled;
  \<open>write_fails s n\<close> says that after \<open>sync_dirty_buffer\<close> the buffer is requested but not up to date.
\<close>

datatype iget_result = Iget_nomem | Iget_cached | Iget_new inode

record inode_services = bitops +
  sb_bread :: "(nat \<Rightarrow> block) \<Rightarrow> nat \<Rightarrow> block option"
  write_fails :: "fs \<Rightarrow> nat \<Rightarrow> bool"
  iget_locked :: "fs \<Rightarrow> nat \<Rightarrow> iget_result"
  init_special_inode :: "inode \<Rightarrow> u16 \<Rightarrow> u32 \<Rightarrow> inode"
  new_encode_dev :: "u32 \<Rightarrow> u32"
  new_decode_dev :: "u32 \<Rightarrow> u32"

text \<open>
  What the code relies on: a buffer that was read holds the contents of its block, and the
  device-number encodings are inverse to each other.
\<close>

locale buffer_cache = kernel_bitops K for K :: "'k inode_services_scheme" +
  assumes bread: "sb_bread K bf n = Some d \<Longrightarrow> d = bf n"
    and decode_encode: "new_decode_dev K (new_encode_dev K dev) = dev"
    and special_fields: "i_rdev (init_special_inode K i m dev) = dev"
      "blkaddr (init_special_inode K i m dev) = blkaddr i" "i_mode (init_special_inode K i m dev) = i_mode i"
      "i_nlink (init_special_inode K i m dev) = i_nlink i" "i_size (init_special_inode K i m dev) = i_size i"
      "i_uid (init_special_inode K i m dev) = i_uid i" "i_gid (init_special_inode K i m dev) = i_gid i"
      "i_atime (init_special_inode K i m dev) = i_atime i" "i_mtime (init_special_inode K i m dev) = i_mtime i"
      "i_ctime (init_special_inode K i m dev) = i_ctime i" "i_ino (init_special_inode K i m dev) = i_ino i"

section \<open>The inode list\<close>

definition gas_inode_block :: "gas_sb_info \<Rightarrow> nat \<Rightarrow> nat" where
  "gas_inode_block sb ino = unat (s_inode_list_start sb) + ino div unat (s_inodes_per_block sb)"

definition gas_inode_offset :: "gas_sb_info \<Rightarrow> nat \<Rightarrow> nat" where
  "gas_inode_offset sb ino = GAS_INODE_SIZE * (ino mod unat (s_inodes_per_block sb))"

text \<open>The result stands for the buffer head, the offset of the structure and the buffer's data.\<close>

definition gas_get_inode :: "'k inode_services_scheme \<Rightarrow> fs \<Rightarrow> nat \<Rightarrow> (nat \<times> nat \<times> block) option" where
  "gas_get_inode K s ino =
     (let blk = gas_inode_block (sbi s) ino; offset = gas_inode_offset (sbi s) ino
      in case sb_bread K (bufs s) blk of None \<Rightarrow> None | Some b_data \<Rightarrow> Some (blk, offset, b_data))"

definition gas_set_inode :: "'k inode_services_scheme \<Rightarrow> inode \<Rightarrow> u32 \<Rightarrow> inode" where
  "gas_set_inode K i rdev =
     (let i = i\<lparr>i_aops := Gas_aops\<rparr>
      in if S_ISREG (i_mode i) then i\<lparr>i_op := File_iops, i_fop := File_fops\<rparr>
         else if S_ISDIR (i_mode i) then i\<lparr>i_op := Dir_iops, i_fop := Dir_fops\<rparr>
         else if S_ISLNK (i_mode i) then i\<lparr>i_op := Symlink_iops\<rparr>
         else init_special_inode K (i\<lparr>i_aops := No_aops\<rparr>) (i_mode i) rdev)"

text \<open>The image of an in-core inode that is written to its slot.\<close>

definition inode_image :: "'k inode_services_scheme \<Rightarrow> inode \<Rightarrow> gas_inode" where
  "inode_image K i =
     \<lparr>gi_mode = i_mode i, gi_nlink = ucast (i_nlink i), gi_uid = i_uid i, gi_gid = i_gid i,
      gi_size = word_of_nat (i_size i), gi_atime = ucast (tv_sec (i_atime i)),
      gi_mtime = ucast (tv_sec (i_mtime i)), gi_ctime = ucast (tv_sec (i_ctime i)),
      gi_blkaddr =
        (if S_ISCHR (i_mode i) \<or> S_ISBLK (i_mode i)
         then (\<lambda>n. if n = 0 then new_encode_dev K (i_rdev i) else 0)
         else (\<lambda>n. if n < 9 then blkaddr i n else 0))\<rparr>"

definition gas_update_inode :: "'k inode_services_scheme \<Rightarrow> fs \<Rightarrow> nat \<Rightarrow> nat option \<times> fs" where
  "gas_update_inode K s ino =
     (case gas_get_inode K s (i_ino (icache s ino)) of
        None \<Rightarrow> (None, s)
      | Some (bh, offset, b_data) \<Rightarrow>
          (Some bh, mark_buffer_dirty bh
             (set_buf bh (store_inode b_data offset (inode_image K (icache s ino))) s)))"

definition gas_write_inode :: "'k inode_services_scheme \<Rightarrow> fs \<Rightarrow> nat \<Rightarrow> bool \<Rightarrow> err \<times> fs" where
  "gas_write_inode K s ino wb_sync_all =
     (case gas_update_inode K s ino of
        (None, s) \<Rightarrow> (Some EIO, s)
      | (Some bh, s) \<Rightarrow>
          if wb_sync_all \<and> b_dirty s bh
          then (if write_fails K s bh then Some EIO else None, sync_dirty_buffer bh s)
          else (None, s))"

definition gas_inode_fill :: "inode \<Rightarrow> gas_inode \<Rightarrow> inode" where
  "gas_inode_fill i gi =
     i\<lparr>i_mode := gi_mode gi, i_size := unat (gi_size gi),
       i_ctime := \<lparr>tv_sec = ucast (gi_ctime gi), tv_nsec = 0\<rparr>,
       i_atime := \<lparr>tv_sec = ucast (gi_atime gi), tv_nsec = 0\<rparr>,
       i_mtime := \<lparr>tv_sec = ucast (gi_mtime gi), tv_nsec = 0\<rparr>,
       i_uid := gi_uid gi, i_gid := gi_gid gi, i_nlink := ucast (gi_nlink gi),
       blkaddr := (\<lambda>n. if n < 9 then gi_blkaddr gi n else blkaddr i n)\<rparr>"

definition gas_iget :: "'k inode_services_scheme \<Rightarrow> fs \<Rightarrow> nat \<Rightarrow> (errno + nat) \<times> fs" where
  "gas_iget K s ino =
     (case iget_locked K s ino of
        Iget_nomem \<Rightarrow> (Inl ENOMEM, s)
      | Iget_cached \<Rightarrow> (Inr ino, s)
      | Iget_new fresh \<Rightarrow>
          let blk = gas_inode_block (sbi s) ino; offset = gas_inode_offset (sbi s) ino
          in case sb_bread K (bufs s) blk of
               None \<Rightarrow> (Inl EIO, s)
             | Some b_data \<Rightarrow>
                 let i = gas_inode_fill fresh (load_inode b_data offset)
                 in (Inr ino, upd_inode ino (\<lambda>_. gas_set_inode K i (new_decode_dev K (blkaddr i 0))) s))"

section \<open>Slots of the inode list\<close>

definition itable_wf :: "gas_sb_info \<Rightarrow> bool" where
  "itable_wf sb \<longleftrightarrow> s_inodes_per_block sb = 64"

definition disk_inode :: "fs \<Rightarrow> nat \<Rightarrow> gas_inode" where
  "disk_inode s ino = load_inode (bufs s (gas_inode_block (sbi s) ino)) (gas_inode_offset (sbi s) ino)"

lemma inode_location [simp]:
  assumes "itable_wf sb"
  shows "gas_inode_block sb ino = unat (s_inode_list_start sb) + ino div 64"
    and "gas_inode_offset sb ino = GAS_INODE_SIZE * (ino mod 64)"
  using assms by (simp_all add: itable_wf_def gas_inode_block_def gas_inode_offset_def)

lemma inode_offset_in_block: "itable_wf sb \<Longrightarrow> gas_inode_offset sb ino + GAS_INODE_SIZE \<le> GAS_BLOCK_SIZE"
proof -
  have "ino mod 64 < 64" by simp
  then show "itable_wf sb \<Longrightarrow> gas_inode_offset sb ino + GAS_INODE_SIZE \<le> GAS_BLOCK_SIZE" by simp
qed

lemma inode_location_inj:
  assumes "itable_wf sb" and "gas_inode_block sb i = gas_inode_block sb j"
    and "gas_inode_offset sb i = gas_inode_offset sb j"
  shows "i = j"
proof -
  from assms have "i div 64 = j div 64" and "i mod 64 = j mod 64" by simp_all
  then show "i = j" by (metis div_mult_mod_eq)
qed

text \<open>A store to one slot of the inode list is seen at that slot only.\<close>

lemma load_inode_set_slot:
  assumes "itable_wf sb" and "gas_inode_ok gi"
  shows "load_inode ((bf(gas_inode_block sb i :=
        store_inode (bf (gas_inode_block sb i)) (gas_inode_offset sb i) gi)) (gas_inode_block sb j)) (gas_inode_offset sb j)
    = (if i = j then gi else load_inode (bf (gas_inode_block sb j)) (gas_inode_offset sb j))"
proof (cases "gas_inode_block sb i = gas_inode_block sb j")
  case True
  have "i mod 64 = j mod 64 \<longleftrightarrow> i = j"
    using inode_location_inj [OF assms(1) True] assms(1) by auto
  then show ?thesis
    using dinode.load_store_slot [OF assms(2), of _ 0 "i mod 64" "j mod 64"] True
    by (simp only: fun_upd_apply True if_True inode_location(2) [OF assms(1)] add_0)
qed auto

lemma inode_image_ok [simp]: "gas_inode_ok (inode_image K i)"
  by (simp add: inode_image_def gas_inode_ok_def)

context buffer_cache
begin

lemma gas_get_inode_Some:
  "gas_get_inode K s ino = Some (bh, off, d) \<Longrightarrow>
     bh = gas_inode_block (sbi s) ino \<and> off = gas_inode_offset (sbi s) ino \<and> d = bufs s bh"
  by (auto simp: gas_get_inode_def Let_def split: option.splits dest: bread)

lemma gas_update_inode_disk:
  assumes "gas_update_inode K s ino = (Some bh, s')" and "itable_wf (sbi s)"
  shows "disk_inode s' n = (if n = i_ino (icache s ino) then inode_image K (icache s ino) else disk_inode s n)"
    and "b_dirty s' bh" and "bh = gas_inode_block (sbi s) (i_ino (icache s ino))"
    and "\<And>m. m \<noteq> bh \<Longrightarrow> bufs s' m = bufs s m" and "sbi s' = sbi s" and "icache s' = icache s" and "pages s' = pages s"
proof -
  from assms(1) obtain off d where g: "gas_get_inode K s (i_ino (icache s ino)) = Some (bh, off, d)"
    and s': "s' = mark_buffer_dirty bh (set_buf bh (store_inode d off (inode_image K (icache s ino))) s)"
    by (auto simp: gas_update_inode_def split: option.splits)
  let ?i = "i_ino (icache s ino)"
  from gas_get_inode_Some [OF g] have l: "bh = gas_inode_block (sbi s) ?i"
    "off = gas_inode_offset (sbi s) ?i" "d = bufs s (gas_inode_block (sbi s) ?i)" by auto
  show "disk_inode s' n = (if n = i_ino (icache s ino) then inode_image K (icache s ino) else disk_inode s n)"
    using load_inode_set_slot [OF assms(2) inode_image_ok, of "bufs s" ?i K "icache s ino" n]
    unfolding disk_inode_def s' mark_buffer_dirty_simps set_buf_simps l by (simp only: eq_commute [of n])
qed (use assms(1) in \<open>auto simp: gas_update_inode_def split: option.splits dest: gas_get_inode_Some\<close>)

lemma gas_update_inode_None: "gas_update_inode K s ino = (None, s') \<Longrightarrow> s' = s"
  by (auto simp: gas_update_inode_def split: option.splits)

lemma gas_set_inode_fields:
  "i_mode (gas_set_inode K i dev) = i_mode i" "i_nlink (gas_set_inode K i dev) = i_nlink i"
  "i_size (gas_set_inode K i dev) = i_size i" "i_uid (gas_set_inode K i dev) = i_uid i"
  "i_gid (gas_set_inode K i dev) = i_gid i" "blkaddr (gas_set_inode K i dev) = blkaddr i"
  "i_atime (gas_set_inode K i dev) = i_atime i" "i_mtime (gas_set_inode K i dev) = i_mtime i"
  "i_ctime (gas_set_inode K i dev) = i_ctime i" "i_ino (gas_set_inode K i dev) = i_ino i"
  by (auto simp: gas_set_inode_def Let_def special_fields)

lemma gas_iget_new:
  assumes "iget_locked K s ino = Iget_new fresh" and "gas_iget K s ino = (Inr r, s')"
  shows "r = ino" and "icache s' ino = (let i = gas_inode_fill fresh (disk_inode s ino) in
      gas_set_inode K i (new_decode_dev K (blkaddr i 0)))"
  using assms by (auto simp: gas_iget_def Let_def disk_inode_def split: option.splits dest!: bread)

end

section \<open>A reference kernel\<close>

text \<open>
  An instance of the kernel services, used to show that the assumptions can hold together: the
  bitmap routines of the file system maker, a buffer cache without read errors, and the documented
  32-bit encoding of device numbers (12 bits of major, 20 bits of minor).
\<close>

definition ref_encode_dev :: "u32 \<Rightarrow> u32" where
  "ref_encode_dev dev =
     (let major = drop_bit 20 dev; minor = dev AND 0xfffff
      in (minor AND 0xff) OR push_bit 8 major OR push_bit 12 (minor AND NOT 0xff))"

definition ref_decode_dev :: "u32 \<Rightarrow> u32" where
  "ref_decode_dev dev =
     (let major = drop_bit 8 (dev AND 0xfff00); minor = (dev AND 0xff) OR (drop_bit 12 dev AND 0xfff00)
      in push_bit 20 major OR minor)"

lemma ref_decode_encode: "ref_decode_dev (ref_encode_dev dev) = dev"
proof -
  have m: "(0xff::u32) = mask 8" "(0xfffff::u32) = mask 20" "(0xfff00::u32) = push_bit 8 (mask 12)"
    by (simp_all add: mask_eq_exp_minus_1 push_bit_eq_mult)
  show ?thesis
  proof (rule bit_word_eqI)
    fix n
    assume n: "n < LENGTH(32)"
    consider "n < 8" | "8 \<le> n" "n < 20" | "20 \<le> n" by linarith
    then show "bit (ref_decode_dev (ref_encode_dev dev)) n = bit dev n"
      using n by cases
        (simp_all add: ref_decode_dev_def ref_encode_dev_def Let_def m bit_or_iff bit_and_iff bit_push_bit_iff
          bit_drop_bit_eq bit_mask_iff bit_not_iff, auto dest: bit_imp_le_length)
  qed
qed

definition ref_special_inode :: "inode \<Rightarrow> u16 \<Rightarrow> u32 \<Rightarrow> inode" where
  "ref_special_inode i m dev = i\<lparr>i_mode := i_mode i, i_rdev := dev, i_fop := Special_fops 0\<rparr>"

definition ref_fresh_inode :: "nat \<Rightarrow> inode" where
  "ref_fresh_inode ino =
     \<lparr>i_ino = ino, i_mode = 0, i_nlink = 1, i_uid = 0, i_gid = 0, i_rdev = 0, i_size = 0,
      i_atime = \<lparr>tv_sec = 0, tv_nsec = 0\<rparr>, i_mtime = \<lparr>tv_sec = 0, tv_nsec = 0\<rparr>,
      i_ctime = \<lparr>tv_sec = 0, tv_nsec = 0\<rparr>, i_op = No_iops, i_fop = No_fops, i_aops = No_aops,
      i_dirty = False, blkaddr = (\<lambda>_. 0)\<rparr>"

definition ref_inode_services :: inode_services where
  "ref_inode_services = bitops.extend makefs_bitops
     (inode_services.fields (\<lambda>bf n. Some (bf n)) (\<lambda>_ _. False) (\<lambda>_ ino. Iget_new (ref_fresh_inode ino))
        ref_special_inode ref_encode_dev ref_decode_dev)"

lemma ref_inode_services_simps [simp]:
  "find_first_zero_bit ref_inode_services = find_first_zero_bit makefs_bitops"
  "bit_set ref_inode_services = bit_set makefs_bitops"
  "test_and_clear_bit ref_inode_services = test_and_clear_bit makefs_bitops"
  "hweight16 ref_inode_services = hweight16 makefs_bitops"
  "sb_bread ref_inode_services bf n = Some (bf n)"
  "iget_locked ref_inode_services s n = Iget_new (ref_fresh_inode n)"
  "new_decode_dev ref_inode_services = ref_decode_dev" "new_encode_dev ref_inode_services = ref_encode_dev"
  "init_special_inode ref_inode_services = ref_special_inode"
  by (simp_all add: ref_inode_services_def bitops.extend_def inode_services.fields_def)

interpretation ref_buffers: buffer_cache ref_inode_services
  by unfold_locales
    (auto simp: makefs.ffzb makefs.bit_set makefs.test_and_clear_old makefs.test_and_clear_new makefs.hweight
      ref_decode_encode ref_special_inode_def)

section \<open>Properties of the inode table\<close>

text \<open>
  C37. The inode list is a table: every inode number below \<open>s_ninodes\<close> has its own 64 bytes inside
  one block of the inode area, and no two inodes share a byte.
\<close>

theorem inode_slots_disjoint:
  assumes "itable_wf sb"
    and "unat (s_data_block_start sb) = unat (s_inode_list_start sb) + unat (s_inode_blocks sb)"
    and "i < 64 * unat (s_inode_blocks sb)" and "j < 64 * unat (s_inode_blocks sb)" and "i \<noteq> j"
  shows "unat (s_inode_list_start sb) \<le> gas_inode_block sb i \<and>
    gas_inode_block sb i < unat (s_data_block_start sb) \<and>
    gas_inode_offset sb i + GAS_INODE_SIZE \<le> GAS_BLOCK_SIZE \<and>
    (gas_inode_block sb i \<noteq> gas_inode_block sb j \<or>
     gas_inode_offset sb i + GAS_INODE_SIZE \<le> gas_inode_offset sb j \<or>
     gas_inode_offset sb j + GAS_INODE_SIZE \<le> gas_inode_offset sb i)"
proof -
  have "i div 64 < unat (s_inode_blocks sb)" using assms(3) by (simp add: less_mult_imp_div_less mult.commute)
  moreover have "gas_inode_block sb i = gas_inode_block sb j \<Longrightarrow> i mod 64 \<noteq> j mod 64"
    using inode_location_inj [OF assms(1), of i j] assms(1,5) by auto
  then have "gas_inode_block sb i \<noteq> gas_inode_block sb j \<or>
      gas_inode_offset sb i + GAS_INODE_SIZE \<le> gas_inode_offset sb j \<or>
      gas_inode_offset sb j + GAS_INODE_SIZE \<le> gas_inode_offset sb i"
    using dinode.slots_disjoint [of "i mod 64" "j mod 64" 0] assms(1) by auto
  ultimately show ?thesis
    using assms(1,2) inode_offset_in_block [OF assms(1)] by simp
qed

definition example_sb :: gas_sb_info where
  "example_sb = \<lparr>s_magic = MAGIC_NUMBER, s_blocksize = 4096, s_bam_blocks = 1, s_iam_blocks = 1,
     s_inode_blocks = 4, s_nblocks = 1024, s_ninodes = 256, s_inodes_per_block = 64,
     s_bits_per_block = 32768, s_dir_entries_per_block = 15, s_bam_bh = [1], s_iam_bh = [2],
     s_bam_last = 0, s_iam_last = 0, s_inode_list_start = 3, s_data_block_start = 7\<rparr>"

theorem inode_slots_disjoint_witness:
  "gas_inode_block example_sb 255 < 7 \<and> gas_inode_offset example_sb 255 + GAS_INODE_SIZE \<le> GAS_BLOCK_SIZE"
  using inode_slots_disjoint [of example_sb 255 1] by (simp add: example_sb_def itable_wf_def)

text \<open>
  C32. Writing an in-core inode with \<^verbatim>\<open>gas_update_inode\<close> and reading it into a fresh inode with
  \<^verbatim>\<open>gas_iget\<close> gives back its mode, owner, link count (to 16 bits), size and the seconds of its three times (to 32 bits) and,
  unless it is a device, its nine block addresses; a device gets its device number back through
  \<open>blkaddr[0]\<close>. Every other inode on disk is left as it was.
\<close>

theorem inode_write_read:
  assumes "buffer_cache K" and "itable_wf (sbi s)" and "i_ino (icache s ino) = ino"
    and "gas_update_inode K s ino = (Some bh, s')"
    and "iget_locked K s' ino = Iget_new fresh" and "gas_iget K s' ino = (Inr r, s'')"
  shows "let i = icache s ino; j = icache s'' ino in
      i_mode j = i_mode i \<and> i_uid j = i_uid i \<and> i_gid j = i_gid i \<and>
      unat (i_nlink j) = unat (i_nlink i) mod 2 ^ 16 \<and> i_size j = i_size i mod 2 ^ 32 \<and>
      unat (tv_sec (i_atime j)) = unat (tv_sec (i_atime i)) mod 2 ^ 32 \<and>
      unat (tv_sec (i_mtime j)) = unat (tv_sec (i_mtime i)) mod 2 ^ 32 \<and>
      unat (tv_sec (i_ctime j)) = unat (tv_sec (i_ctime i)) mod 2 ^ 32 \<and>
      (if S_ISCHR (i_mode i) \<or> S_ISBLK (i_mode i) then i_rdev j = i_rdev i
       else \<forall>n<9. blkaddr j n = blkaddr i n) \<and>
      (\<forall>n. n \<noteq> ino \<longrightarrow> disk_inode s' n = disk_inode s n)"
proof -
  note d = buffer_cache.gas_update_inode_disk [OF assms(1,4,2), unfolded assms(3)]
  have di: "disk_inode s' ino = inode_image K (icache s ino)" by (simp add: d(1))
  define j0 where "j0 = gas_inode_fill fresh (inode_image K (icache s ino))"
  have j: "icache s'' ino = gas_set_inode K j0 (new_decode_dev K (blkaddr j0 0))"
    using buffer_cache.gas_iget_new(2) [OF assms(1,5,6)] by (simp add: di j0_def Let_def)
  have dev: "i_rdev (gas_set_inode K j0 (new_decode_dev K (blkaddr j0 0))) = i_rdev (icache s ino)"
    if "S_ISCHR (i_mode (icache s ino)) \<or> S_ISBLK (i_mode (icache s ino))"
    using that
    by (auto simp: gas_set_inode_def j0_def gas_inode_fill_def inode_image_def Let_def
        buffer_cache.special_fields [OF assms(1)] buffer_cache.decode_encode [OF assms(1)]
        S_ISCHR_def S_ISBLK_def S_ISREG_def S_ISDIR_def S_ISLNK_def)
  show ?thesis
    unfolding Let_def j using dev
    by (auto simp: buffer_cache.gas_set_inode_fields [OF assms(1)] j0_def gas_inode_fill_def inode_image_def d(1)
        unat_ucast_widen unat_ucast_narrow unat_word_of_nat)
qed

definition example_fs :: fs where
  "example_fs = \<lparr>sbi = example_sb, sb_blocksize = 4096, sb_blocksize_bits = 12, bufs = (\<lambda>_ _. 0),
     b_dirty = (\<lambda>_. False),
     icache = (\<lambda>n. (ref_fresh_inode n)\<lparr>i_mode := 0x81A4, i_size := 5000, blkaddr := (\<lambda>k. if k < 2 then 20 else 0)\<rparr>),
     pages = (\<lambda>_ _ _. 0)\<rparr>"

theorem inode_write_read_witness:
  "\<exists>s' s''. gas_update_inode ref_inode_services example_fs 5 = (Some 3, s') \<and>
     gas_iget ref_inode_services s' 5 = (Inr 5, s'') \<and> i_size (icache s'' 5) = 5000 \<and> blkaddr (icache s'' 5) 1 = 20"
proof -
  have wf: "itable_wf (sbi example_fs)" and ino: "i_ino (icache example_fs 5) = 5"
    by (simp_all add: example_fs_def example_sb_def itable_wf_def ref_fresh_inode_def)
  obtain s' where s': "gas_update_inode ref_inode_services example_fs 5 = (Some 3, s')"
    by (simp add: gas_update_inode_def gas_get_inode_def ino wf) (simp add: example_fs_def example_sb_def)
  obtain s'' where s'': "gas_iget ref_inode_services s' 5 = (Inr 5, s'')"
    by (simp add: gas_iget_def Let_def)
  have "iget_locked ref_inode_services s' 5 = Iget_new (ref_fresh_inode 5)" by simp
  from inode_write_read [OF ref_buffers.buffer_cache_axioms wf ino s' this s''] s' s'' show ?thesis
    by (auto simp: Let_def example_fs_def ref_fresh_inode_def S_ISCHR_def S_ISBLK_def)
qed

end
