(* ===== verification/Kern_Bitmap.thy ===== *)
theory Kern_Bitmap
  imports Gas_Inode
begin

text \<open>
  Block and inode allocation in the mounted file system (\<^verbatim>\<open>src/kern/bitmap.c\<close>): the
  round-robin search of the bitmap blocks, setting and clearing allocation bits, the counts that
  \<open>statfs\<close> reports, and the creation and release of inodes.

  A result of type \<open>option\<close> is \<open>None\<close> when the C code has no defined result: the search never
  ends, or an array of buffer heads is read past its end.
\<close>

record alloc_services = inode_services +
  new_inode :: "fs \<Rightarrow> inode option"
  inode_init_owner :: "inode \<Rightarrow> inode \<Rightarrow> u16 \<Rightarrow> inode"
  current_time_sec :: timespec

section \<open>Counting free bits\<close>

fun count_free_words :: "'k bitops_scheme \<Rightarrow> block \<Rightarrow> nat \<Rightarrow> nat \<Rightarrow> u32 \<Rightarrow> u32" where
  "count_free_words K b p 0 acc = acc"
| "count_free_words K b p (Suc words) acc =
     count_free_words K b (p + 2) words (acc + word_of_nat (16 - hweight16 K (get_le16 b p)))"

fun count_free_maps :: "'k bitops_scheme \<Rightarrow> (nat \<Rightarrow> block) \<Rightarrow> nat \<Rightarrow> nat list \<Rightarrow> nat \<Rightarrow> u32 \<Rightarrow> u32 option" where
  "count_free_maps K bf bsize mp 0 acc = Some acc"
| "count_free_maps K bf bsize [] (Suc blocks) acc = None"
| "count_free_maps K bf bsize (m # mp) (Suc blocks) acc =
     count_free_maps K bf bsize mp blocks (count_free_words K (bf m) 0 (bsize div 2) acc)"

definition count_free :: "'k bitops_scheme \<Rightarrow> (nat \<Rightarrow> block) \<Rightarrow> nat list \<Rightarrow> nat \<Rightarrow> u32 \<Rightarrow> u32 option" where
  "count_free K bf mp bsize numbits =
     (let blocks = unat ((numbits + word_of_nat (bsize * 8) - 1) div word_of_nat (bsize * 8) :: u32)
      in count_free_maps K bf bsize mp blocks 0)"

text \<open>
  \<open>s_bam_bh\<close> and \<open>s_iam_bh\<close> are consecutive parts of one array of \<open>bam + iam\<close> pointers, so the
  block count may run from the first into the second, the inode count past the end.
\<close>

definition gas_count_free_blocks :: "'k bitops_scheme \<Rightarrow> fs \<Rightarrow> u32 option" where
  "gas_count_free_blocks K s =
     (let sb = sbi s; bits = s_nblocks sb - s_data_block_start sb + 1
      in count_free K (bufs s) (s_bam_bh sb @ s_iam_bh sb) (sb_blocksize s) bits)"

definition gas_count_free_inodes :: "'k bitops_scheme \<Rightarrow> fs \<Rightarrow> u32 option" where
  "gas_count_free_inodes K s =
     (let sb = sbi s; bits = s_ninodes sb + 1
      in count_free K (bufs s) (s_iam_bh sb) (sb_blocksize s) bits)"

section \<open>Searching the bitmap blocks\<close>

text \<open>
  The \<open>do \<dots> while\<close> loop of \<^verbatim>\<open>gas_new_block\<close> and \<^verbatim>\<open>gas_new_inode\<close>: from block \<open>i\<close> of the map
  look for a clear bit, go on cyclically, stop when \<open>i\<close> is back at \<open>last_i\<close>. The outcome is the map
  block and the bit found, or nothing. One unit of fuel is one iteration; \<open>nblocks + 1\<close> units cover
  every map block, and a search that is not over then goes round for ever.
\<close>

fun bitmap_search ::
  "'k bitops_scheme \<Rightarrow> (nat \<Rightarrow> block) \<Rightarrow> nat list \<Rightarrow> nat \<Rightarrow> nat \<Rightarrow> nat \<Rightarrow> nat \<Rightarrow> nat \<Rightarrow> (nat \<times> nat) option option" where
  "bitmap_search K bf bh bits nblocks last_i 0 i = None"
| "bitmap_search K bf bh bits nblocks last_i (Suc fuel) i =
     (if length bh \<le> i then None
      else let blk = find_first_zero_bit K (bf (bh ! i)) bits
           in if blk < bits then Some (Some (i, blk))
              else let i = (i + 1) mod nblocks
                   in if i \<noteq> last_i then bitmap_search K bf bh bits nblocks last_i fuel i else Some None)"

section \<open>Blocks\<close>

definition gas_free_block :: "'k bitops_scheme \<Rightarrow> fs \<Rightarrow> nat \<Rightarrow> fs" where
  "gas_free_block K s blk =
     (let sb = sbi s; k = sb_blocksize_bits s + 3
      in if blk < unat (s_data_block_start sb) \<or> unat (s_nblocks sb) \<le> blk then s
         else let idx = drop_bit k blk; bt = blk AND (2 ^ k - 1)
              in if unat (s_bam_blocks sb) \<le> idx then s
                 else let bh = s_bam_bh sb ! idx
                      in mark_buffer_dirty bh (set_buf bh (snd (test_and_clear_bit K bt (bufs s bh))) s))"

definition gas_new_block :: "'k bitops_scheme \<Rightarrow> fs \<Rightarrow> (nat \<times> err \<times> fs) option" where
  "gas_new_block K s =
     (let sb = sbi s
      in case bitmap_search K (bufs s) (s_bam_bh sb) (unat (s_bits_per_block sb)) (unat (s_bam_blocks sb))
                (s_bam_last sb) (unat (s_bam_blocks sb) + 1) (s_bam_last sb) of
           None \<Rightarrow> None
         | Some None \<Rightarrow> Some (0, Some ENOSPC, s)
         | Some (Some (i, blk)) \<Rightarrow>
             let bh = s_bam_bh sb ! i;
                 s = set_buf bh (bit_set K blk (bufs s bh)) s;
                 blk = blk + unat (word_of_nat i * s_bits_per_block sb);
                 s = mark_buffer_dirty bh (s\<lparr>sbi := (sbi s)\<lparr>s_bam_last := i\<rparr>\<rparr>)
             in Some (blk, None, s))"

section \<open>Inodes\<close>

definition gas_clear_inode :: "'k inode_services_scheme \<Rightarrow> fs \<Rightarrow> nat \<Rightarrow> fs" where
  "gas_clear_inode K s ino =
     (case gas_get_inode K s (i_ino (icache s ino)) of
        None \<Rightarrow> s
      | Some (bh, offset, b_data) \<Rightarrow>
          mark_buffer_dirty bh (set_buf bh (store_inode b_data offset
            ((load_inode b_data offset)\<lparr>gi_nlink := 0, gi_mode := 0\<rparr>)) s))"

definition gas_free_inode :: "'k inode_services_scheme \<Rightarrow> fs \<Rightarrow> nat \<Rightarrow> fs" where
  "gas_free_inode K s inode =
     (let sb = sbi s; k = sb_blocksize_bits s + 3; ino = i_ino (icache s inode)
      in if ino < 1 \<or> unat (s_ninodes sb) < ino then s
         else let bt = ino AND (2 ^ k - 1); ino = drop_bit k ino
              in if unat (s_iam_blocks sb) \<le> ino then s
                 else let s = gas_clear_inode K s inode; bh = s_iam_bh sb ! ino
                      in mark_buffer_dirty bh (set_buf bh (snd (test_and_clear_bit K bt (bufs s bh))) s))"

text \<open>
  The new inode takes its number from the bitmap. On failure the anonymous inode is dropped by
  \<open>iput\<close>, which leaves no trace in the state.
\<close>

definition gas_new_inode :: "'k alloc_services_scheme \<Rightarrow> fs \<Rightarrow> nat \<Rightarrow> u16 \<Rightarrow> (nat option \<times> err \<times> fs) option" where
  "gas_new_inode K s dir mode =
     (let sb = sbi s
      in case new_inode K s of
           None \<Rightarrow> Some (None, Some ENOMEM, s)
         | Some inode \<Rightarrow>
             (case bitmap_search K (bufs s) (s_iam_bh sb) (unat (s_bits_per_block sb)) (unat (s_iam_blocks sb))
                     (s_iam_last sb) (unat (s_iam_blocks sb) + 1) (s_iam_last sb) of
                None \<Rightarrow> None
              | Some None \<Rightarrow> Some (None, Some ENOSPC, s)
              | Some (Some (i, ino)) \<Rightarrow>
                  let bh = s_iam_bh sb ! i;
                      s = set_buf bh (bit_set K ino (bufs s bh)) s;
                      ino = ino + unat (word_of_nat i * s_bits_per_block sb);
                      s = mark_buffer_dirty bh (s\<lparr>sbi := (sbi s)\<lparr>s_iam_last := i\<rparr>\<rparr>);
                      inode = inode\<lparr>blkaddr := (\<lambda>n. if n < 9 then 0 else blkaddr inode n)\<rparr>;
                      inode = inode_init_owner K inode (icache s dir) mode;
                      now = current_time_sec K;
                      inode = inode\<lparr>i_ino := ino, i_atime := now, i_ctime := now, i_mtime := now, i_size := 0\<rparr>;
                      s = mark_inode_dirty ino (upd_inode ino (\<lambda>_. inode) s)
                  in Some (Some ino, None, s)))"

section \<open>The bitmap search visits every map block\<close>

lemma cyclic_distance:
  assumes "(last_i + k) mod n = last_i" and "last_i < n" and "0 < k" and "k \<le> n"
  shows "k = (n::nat)"
proof (rule ccontr)
  assume "k \<noteq> n"
  with assms have k: "k < n" by simp
  show False
  proof (cases "last_i + k < n")
    case False
    then have "(last_i + k) mod n = last_i + k - n" using k assms(2) by (simp add: mod_if)
    with assms k False show False by simp
  qed (use assms in simp)
qed

lemma cyclic_reach:
  assumes "last_i < n" and "i < (n::nat)"
  shows "\<exists>j<n. i = (last_i + j) mod n"
proof (cases "last_i \<le> i")
  case True
  with assms show ?thesis by (intro exI [of _ "i - last_i"]) auto
next
  case False
  with assms show ?thesis by (intro exI [of _ "n + i - last_i"]) auto
qed

context kernel_bitops
begin

lemma bitmap_search_spec:
  assumes "last_i < n" and "length bh = n" and "k < n" and "n - k \<le> fuel"
    and "\<And>j. j < k \<Longrightarrow> \<forall>b<bits. blk_bit (bf (bh ! ((last_i + j) mod n))) b"
  shows "\<exists>r. bitmap_search K bf bh bits n last_i fuel ((last_i + k) mod n) = Some r \<and>
    (case r of
       None \<Rightarrow> \<forall>i<n. \<forall>b<bits. blk_bit (bf (bh ! i)) b
     | Some (i, b) \<Rightarrow> i < n \<and> b < bits \<and> \<not> blk_bit (bf (bh ! i)) b)"
  using assms(3-5)
proof (induction fuel arbitrary: k)
  case (Suc fuel)
  let ?i = "(last_i + k) mod n"
  have i: "?i < n" using assms(1) by simp
  show ?case
  proof (cases "find_first_zero_bit K (bf (bh ! ?i)) bits < bits")
    case True
    with i assms(2) ffzb_clear [OF True] show ?thesis by simp
  next
    case False
    then have full: "\<forall>b<bits. blk_bit (bf (bh ! ?i)) b" using ffzb_full by simp
    have next_i: "(?i + 1) mod n = (last_i + (k + 1)) mod n" by (simp add: mod_simps)
    have visited: "\<And>j. j < k + 1 \<Longrightarrow> \<forall>b<bits. blk_bit (bf (bh ! ((last_i + j) mod n))) b"
      using Suc.prems(3) full by (auto simp: less_Suc_eq)
    show ?thesis
    proof (cases "(last_i + (k + 1)) mod n = last_i")
      case True
      with cyclic_distance [OF True assms(1)] Suc.prems have "k + 1 = n" by simp
      then have "\<forall>i<n. \<forall>b<bits. blk_bit (bf (bh ! i)) b"
        using visited cyclic_reach [OF assms(1)] by metis
      with True False i assms(2) next_i show ?thesis by simp
    next
      case ne: False
      have "(last_i + n) mod n = last_i" using assms(1) by simp
      with ne have "k + 1 \<noteq> n" by metis
      with Suc.prems have "k + 1 < n" "n - (k + 1) \<le> fuel" by auto
      from Suc.IH [OF this visited] ne False i assms(2) next_i show ?thesis by simp
    qed
  qed
qed simp

lemma bitmap_search_total:
  assumes "last_i < n" and "length bh = n"
  shows "\<exists>r. bitmap_search K bf bh bits n last_i (n + 1) last_i = Some r \<and>
    (case r of
       None \<Rightarrow> \<forall>i<n. \<forall>b<bits. blk_bit (bf (bh ! i)) b
     | Some (i, b) \<Rightarrow> i < n \<and> b < bits \<and> \<not> blk_bit (bf (bh ! i)) b)"
  using bitmap_search_spec [OF assms, of 0 "n + 1"] assms(1) by simp

end

section \<open>The allocation state\<close>

text \<open>Shape of the in-core super block that mounting establishes (\<open>bam_wf\<close>, \<open>iam_wf\<close>).\<close>

definition bam_wf :: "fs \<Rightarrow> bool" where
  "bam_wf s \<longleftrightarrow> sb_blocksize_bits s = 12 \<and> s_bits_per_block (sbi s) = 32768 \<and>
     length (s_bam_bh (sbi s)) = unat (s_bam_blocks (sbi s)) \<and> distinct (s_bam_bh (sbi s)) \<and>
     s_bam_last (sbi s) < unat (s_bam_blocks (sbi s)) \<and>
     BITS_PER_BLOCK * unat (s_bam_blocks (sbi s)) \<le> 2 ^ 32 \<and>
     unat (s_nblocks (sbi s)) \<le> BITS_PER_BLOCK * unat (s_bam_blocks (sbi s))"

definition bam_bits :: "fs \<Rightarrow> nat" where
  "bam_bits s = BITS_PER_BLOCK * unat (s_bam_blocks (sbi s))"

text \<open>The set of numbers a run of map blocks marks; the busy blocks.\<close>

definition map_bits :: "(nat \<Rightarrow> block) \<Rightarrow> nat list \<Rightarrow> nat set" where
  "map_bits bf bh = {n. n < BITS_PER_BLOCK * length bh \<and> blk_bit (bf (bh ! (n div BITS_PER_BLOCK))) (n mod BITS_PER_BLOCK)}"

definition used_blocks :: "fs \<Rightarrow> nat set" where
  "used_blocks s = map_bits (bufs s) (s_bam_bh (sbi s))"

text \<open>The blocks that files may own.\<close>

definition data_zone :: "fs \<Rightarrow> nat set" where
  "data_zone s = {unat (s_data_block_start (sbi s))..<unat (s_nblocks (sbi s))}"

text \<open>
  The invariant of the block bitmap: every bit outside the data zone (super block, bitmaps, inode
  list, and the padding of the last map block beyond \<open>s_nblocks\<close>) stays set, so that the search,
  which never looks at \<open>s_nblocks\<close>, cannot hand such a block out.
\<close>

definition alloc_inv :: "fs \<Rightarrow> bool" where
  "alloc_inv s \<longleftrightarrow> bam_wf s \<and> {..<bam_bits s} - data_zone s \<subseteq> used_blocks s \<and> 0 < unat (s_data_block_start (sbi s))"

lemma bit_position: "i < n \<Longrightarrow> b < 32768 \<Longrightarrow> b + 32768 * i < 32768 * (n::nat)"
proof -
  assume "i < n" "b < 32768"
  then have "32768 * (i + 1) \<le> 32768 * n" by (intro mult_le_mono2) simp
  then show ?thesis using \<open>b < 32768\<close> by (simp add: algebra_simps)
qed

lemma bit_offset:
  "i * 32768 < 2 ^ 32 \<Longrightarrow> unat (word_of_nat i * (32768 :: u32)) = 32768 * i"
  by (simp add: unat_word_ariths unat_word_of_nat mod_mult_left_eq)

lemma nth_distinct_eq: "distinct xs \<Longrightarrow> i < length xs \<Longrightarrow> j < length xs \<Longrightarrow> xs ! i = xs ! j \<longleftrightarrow> i = j"
  by (rule nth_eq_iff_index_eq)

declare bitmap_search.simps [simp del]

text \<open>The effect of changing one bit of a map block.\<close>

lemma map_bits_upd:
  assumes i: "i < length bh" and dist: "distinct bh" and b: "b < BITS_PER_BLOCK"
    and bits: "\<And>k. k < BITS_PER_BLOCK \<Longrightarrow> blk_bit (bf' (bh ! i)) k \<longleftrightarrow> (if k = b then v else blk_bit (bf (bh ! i)) k)"
    and frame: "\<And>m. m \<in> set bh \<Longrightarrow> m \<noteq> bh ! i \<Longrightarrow> bf' m = bf m"
  shows "map_bits bf' bh =
    (if v then insert (b + BITS_PER_BLOCK * i) (map_bits bf bh) else map_bits bf bh - {b + BITS_PER_BLOCK * i})"
proof -
  have used: "blk_bit (bf' (bh ! (n div BITS_PER_BLOCK))) (n mod BITS_PER_BLOCK) \<longleftrightarrow>
      (if n = b + BITS_PER_BLOCK * i then v else blk_bit (bf (bh ! (n div BITS_PER_BLOCK))) (n mod BITS_PER_BLOCK))"
    if "n < BITS_PER_BLOCK * length bh" for n
  proof -
    have n: "n div BITS_PER_BLOCK < length bh"
      using that by (simp add: less_mult_imp_div_less mult.commute)
    show ?thesis
    proof (cases "n div BITS_PER_BLOCK = i")
      case True
      have "n = b + BITS_PER_BLOCK * i \<longleftrightarrow> n mod BITS_PER_BLOCK = b"
        using b True mod_mult_div_eq [of n BITS_PER_BLOCK] by (metis mod_less mod_mult_self2)
      with True bits [of "n mod BITS_PER_BLOCK"] show ?thesis by simp
    next
      case False
      then have "bh ! (n div BITS_PER_BLOCK) \<noteq> bh ! i" using n i dist by (simp add: nth_distinct_eq)
      moreover have "n \<noteq> b + BITS_PER_BLOCK * i" using False b by auto
      ultimately show ?thesis using n by (simp add: frame)
    qed
  qed
  have "b + BITS_PER_BLOCK * i < BITS_PER_BLOCK * length bh" using bit_position [OF i b] by simp
  moreover have "map_bits bf' bh = {n. n < BITS_PER_BLOCK * length bh \<and>
      (if n = b + BITS_PER_BLOCK * i then v else blk_bit (bf (bh ! (n div BITS_PER_BLOCK))) (n mod BITS_PER_BLOCK))}"
    unfolding map_bits_def using used by blast
  ultimately show ?thesis by (auto simp: map_bits_def)
qed

lemma map_bits_full: "\<forall>i<length bh. \<forall>b<BITS_PER_BLOCK. blk_bit (bf (bh ! i)) b \<Longrightarrow> map_bits bf bh = {..<BITS_PER_BLOCK * length bh}"
  by (auto simp: map_bits_def less_mult_imp_div_less mult.commute)

lemma map_bits_cong: "(\<And>m. m \<in> set bh \<Longrightarrow> bf m = bf' m) \<Longrightarrow> map_bits bf bh = map_bits bf' bh"
  by (auto simp: map_bits_def less_mult_imp_div_less mult.commute)

context kernel_bitops
begin

lemma gas_new_block_cases:
  assumes "bam_wf s"
  obtains (nospace) "gas_new_block K s = Some (0, Some ENOSPC, s)" "used_blocks s = {..<bam_bits s}"
  | (found) i b s' where "gas_new_block K s = Some (b + BITS_PER_BLOCK * i, None, s')"
      "i < unat (s_bam_blocks (sbi s))" "b < BITS_PER_BLOCK" "\<not> blk_bit (bufs s (s_bam_bh (sbi s) ! i)) b"
      "s' = mark_buffer_dirty (s_bam_bh (sbi s) ! i)
         ((set_buf (s_bam_bh (sbi s) ! i) (bit_set K b (bufs s (s_bam_bh (sbi s) ! i))) s)
            \<lparr>sbi := (sbi s)\<lparr>s_bam_last := i\<rparr>\<rparr>)"
proof -
  let ?sb = "sbi s"
  have wf: "s_bam_last ?sb < unat (s_bam_blocks ?sb)" "length (s_bam_bh ?sb) = unat (s_bam_blocks ?sb)"
    "unat (s_bits_per_block ?sb) = BITS_PER_BLOCK" "BITS_PER_BLOCK * unat (s_bam_blocks ?sb) \<le> 2 ^ 32"
    using assms by (simp_all add: bam_wf_def)
  obtain r where r: "bitmap_search K (bufs s) (s_bam_bh ?sb) BITS_PER_BLOCK (unat (s_bam_blocks ?sb)) (s_bam_last ?sb)
      (unat (s_bam_blocks ?sb) + 1) (s_bam_last ?sb) = Some r"
    and spec: "case r of None \<Rightarrow> \<forall>i<unat (s_bam_blocks ?sb). \<forall>b<BITS_PER_BLOCK. blk_bit (bufs s (s_bam_bh ?sb ! i)) b
      | Some (i, b) \<Rightarrow> i < unat (s_bam_blocks ?sb) \<and> b < BITS_PER_BLOCK \<and> \<not> blk_bit (bufs s (s_bam_bh ?sb ! i)) b"
    using bitmap_search_total [OF wf(1,2)] by blast
  show thesis
  proof (cases r)
    case None
    then have "gas_new_block K s = Some (0, Some ENOSPC, s)" using r wf(3) by (simp add: gas_new_block_def Let_def)
    moreover have "used_blocks s = {..<bam_bits s}"
      using spec None map_bits_full [of "s_bam_bh ?sb" "bufs s"] by (simp add: used_blocks_def bam_bits_def wf(2))
    ultimately show thesis by (rule nospace)
  next
    case (Some ib)
    obtain i b where ib: "ib = (i, b)" by (cases ib)
    have i: "i < unat (s_bam_blocks ?sb)" "b < BITS_PER_BLOCK" "\<not> blk_bit (bufs s (s_bam_bh ?sb ! i)) b"
      using spec Some ib by auto
    have "i * BITS_PER_BLOCK < 2 ^ 32" using i(1) wf(4) by linarith
    then have "unat (word_of_nat i * s_bits_per_block ?sb) = BITS_PER_BLOCK * i"
      using assms bit_offset by (simp add: bam_wf_def)
    with r Some ib wf(3) show thesis
      by (intro found [OF _ i refl]) (simp add: gas_new_block_def Let_def)
  qed
qed

lemma gas_new_block_found:
  assumes wf: "bam_wf s" and "gas_new_block K s = Some (n, None, s')"
  shows "n < bam_bits s" "n \<notin> used_blocks s" "used_blocks s' = insert n (used_blocks s)"
    "bam_wf s'" "\<And>m. m \<notin> set (s_bam_bh (sbi s)) \<Longrightarrow> bufs s' m = bufs s m"
    "icache s' = icache s" "pages s' = pages s" "sbi s' = (sbi s)\<lparr>s_bam_last := n div BITS_PER_BLOCK\<rparr>"
    "sb_blocksize s' = sb_blocksize s" "sb_blocksize_bits s' = sb_blocksize_bits s"
proof -
  obtain i b where
    n: "n = b + BITS_PER_BLOCK * i" and i: "i < unat (s_bam_blocks (sbi s))" "b < BITS_PER_BLOCK"
      "\<not> blk_bit (bufs s (s_bam_bh (sbi s) ! i)) b"
    and s': "s' = mark_buffer_dirty (s_bam_bh (sbi s) ! i)
         ((set_buf (s_bam_bh (sbi s) ! i) (bit_set K b (bufs s (s_bam_bh (sbi s) ! i))) s)
            \<lparr>sbi := (sbi s)\<lparr>s_bam_last := i\<rparr>\<rparr>)"
    using assms(2) by (cases rule: gas_new_block_cases [OF wf]) auto
  have nth: "s_bam_bh (sbi s) ! i \<in> set (s_bam_bh (sbi s))" using i(1) wf by (simp add: bam_wf_def)
  show "n < bam_bits s" using bit_position [OF i(1,2)] by (simp add: n bam_bits_def)
  show "n \<notin> used_blocks s" using i by (simp add: used_blocks_def map_bits_def n)
  show "used_blocks s' = insert n (used_blocks s)"
    using map_bits_upd [of i "s_bam_bh (sbi s)" b "bufs s'" True "bufs s"] i wf
    by (auto simp: s' n bit_set used_blocks_def bam_wf_def)
  show "bam_wf s'" using wf i(1) by (simp add: bam_wf_def s')
  show "bufs s' m = bufs s m" if "m \<notin> set (s_bam_bh (sbi s))" for m using that nth by (auto simp: s')
  show "sbi s' = (sbi s)\<lparr>s_bam_last := n div BITS_PER_BLOCK\<rparr>" using i(2) by (simp add: s' n)
  show "icache s' = icache s" "pages s' = pages s" "sb_blocksize s' = sb_blocksize s"
    "sb_blocksize_bits s' = sb_blocksize_bits s" by (simp_all add: s')
qed

end

lemma block_split: "drop_bit (12 + 3) n = n div (BITS_PER_BLOCK::nat)" "n AND (2 ^ (12 + 3) - 1) = n mod (BITS_PER_BLOCK::nat)"
  using take_bit_eq_mask [of 15 n] by (simp_all add: drop_bit_eq_div take_bit_eq_mod mask_eq_exp_minus_1)

context kernel_bitops
begin

lemma gas_free_block_outside: "n \<notin> data_zone s \<Longrightarrow> gas_free_block K s n = s"
  by (auto simp: gas_free_block_def data_zone_def Let_def)

lemma gas_free_block_inside:
  assumes wf: "bam_wf s" and n: "n \<in> data_zone s"
  shows "gas_free_block K s n =
    (let bh = s_bam_bh (sbi s) ! (n div BITS_PER_BLOCK)
     in mark_buffer_dirty bh (set_buf bh (snd (test_and_clear_bit K (n mod BITS_PER_BLOCK) (bufs s bh))) s))"
    "n div BITS_PER_BLOCK < unat (s_bam_blocks (sbi s))"
proof -
  have "n < BITS_PER_BLOCK * unat (s_bam_blocks (sbi s))" "sb_blocksize_bits s = 12"
    using wf n by (auto simp: bam_wf_def data_zone_def)
  moreover from this show "n div BITS_PER_BLOCK < unat (s_bam_blocks (sbi s))"
    by (simp add: less_mult_imp_div_less mult.commute)
  ultimately show "gas_free_block K s n =
    (let bh = s_bam_bh (sbi s) ! (n div BITS_PER_BLOCK)
     in mark_buffer_dirty bh (set_buf bh (snd (test_and_clear_bit K (n mod BITS_PER_BLOCK) (bufs s bh))) s))"
    using n unfolding gas_free_block_def Let_def data_zone_def by (simp only: block_split) simp
qed

lemma gas_free_block_frame:
  "sbi (gas_free_block K s n) = sbi s" "icache (gas_free_block K s n) = icache s"
  "pages (gas_free_block K s n) = pages s" "sb_blocksize (gas_free_block K s n) = sb_blocksize s"
  "sb_blocksize_bits (gas_free_block K s n) = sb_blocksize_bits s"
  "bam_wf s \<Longrightarrow> m \<notin> set (s_bam_bh (sbi s)) \<Longrightarrow> bufs (gas_free_block K s n) m = bufs s m"
proof -
  show "bufs (gas_free_block K s n) m = bufs s m" if "bam_wf s" "m \<notin> set (s_bam_bh (sbi s))"
  proof (cases "n \<in> data_zone s")
    case True
    have "s_bam_bh (sbi s) ! (n div BITS_PER_BLOCK) \<in> set (s_bam_bh (sbi s))"
      using gas_free_block_inside(2) [OF that(1) True] that(1) by (simp add: bam_wf_def)
    with gas_free_block_inside(1) [OF that(1) True] that(2) show ?thesis by (auto simp: Let_def)
  qed (simp add: gas_free_block_outside)
qed (simp_all add: gas_free_block_def Let_def)

lemma gas_free_block_used:
  assumes wf: "bam_wf s"
  shows "used_blocks (gas_free_block K s n) = (if n \<in> data_zone s then used_blocks s - {n} else used_blocks s)"
    and "bam_wf (gas_free_block K s n)"
proof -
  show "used_blocks (gas_free_block K s n) = (if n \<in> data_zone s then used_blocks s - {n} else used_blocks s)"
  proof (cases "n \<in> data_zone s")
    case True
    note f = gas_free_block_inside [OF wf True]
    have "n mod BITS_PER_BLOCK < BITS_PER_BLOCK" by simp
    with map_bits_upd [of "n div BITS_PER_BLOCK" "s_bam_bh (sbi s)" "n mod BITS_PER_BLOCK" "bufs (gas_free_block K s n)"
        False "bufs s"] True f(2) wf show ?thesis
      by (simp add: f(1) Let_def test_and_clear_new used_blocks_def bam_wf_def)
  qed (simp add: gas_free_block_outside)
  show "bam_wf (gas_free_block K s n)" using wf by (simp add: bam_wf_def gas_free_block_frame)
qed

end

section \<open>The allocator interface\<close>

text \<open>
  What the block tree relies on. \<open>used\<close> is the abstract state, the set of busy blocks; \<open>zone\<close> the
  blocks that may be handed out and given back.
\<close>

locale block_allocator =
  fixes alloc :: "'s \<Rightarrow> (nat \<times> err \<times> 's) option"
    and release :: "'s \<Rightarrow> nat \<Rightarrow> 's"
    and used :: "'s \<Rightarrow> nat set"
    and zone :: "'s \<Rightarrow> nat set"
    and inv :: "'s \<Rightarrow> bool"
  assumes alloc_total: "inv s \<Longrightarrow> \<exists>r. alloc s = Some r"
    and alloc_ok: "inv s \<Longrightarrow> alloc s = Some (n, None, s') \<Longrightarrow>
      n \<in> zone s \<and> n \<notin> used s \<and> used s' = insert n (used s) \<and> zone s' = zone s \<and> inv s'"
    and alloc_fail: "inv s \<Longrightarrow> alloc s = Some (n, Some e, s') \<Longrightarrow>
      n = 0 \<and> e = ENOSPC \<and> s' = s \<and> zone s \<subseteq> used s"
    and zone_pos: "inv s \<Longrightarrow> n \<in> zone s \<Longrightarrow> n \<noteq> 0"
    and release_used: "inv s \<Longrightarrow> used (release s n) = (if n \<in> zone s then used s - {n} else used s)"
    and release_zone: "inv s \<Longrightarrow> zone (release s n) = zone s"
    and release_inv: "inv s \<Longrightarrow> inv (release s n)"
begin

lemma release_alloc:
  assumes "inv s" and "alloc s = Some (n, None, s')"
  shows "used (release s' n) = used s"
  using alloc_ok [OF assms] release_used [of s' n] by auto

lemma release_list:
  assumes "inv s" and "set ns \<subseteq> zone s"
  shows "used (foldl release s ns) = used s - set ns \<and> inv (foldl release s ns) \<and> zone (foldl release s ns) = zone s"
  using assms
proof (induction ns arbitrary: s)
  case (Cons n ns)
  then have "inv (release s n)" "set ns \<subseteq> zone (release s n)" by (auto simp: release_inv release_zone)
  from Cons.IH [OF this] Cons.prems show ?case by (auto simp: release_used release_zone)
qed simp

text \<open>Allocation succeeds exactly when some block of the zone is free.\<close>

lemma alloc_succeeds:
  assumes "inv s" and "\<not> zone s \<subseteq> used s"
  shows "\<exists>n s'. alloc s = Some (n, None, s')"
  using alloc_total [OF assms(1)] alloc_fail [OF assms(1)] assms(2) by (metis option.exhaust prod_cases3)

end

lemma alloc_inv_zone_pos: "alloc_inv s \<Longrightarrow> n \<in> data_zone s \<Longrightarrow> n \<noteq> 0"
  by (auto simp: alloc_inv_def data_zone_def)

lemma data_zone_bits: "bam_wf s \<Longrightarrow> data_zone s \<subseteq> {..<bam_bits s}"
  by (auto simp: bam_wf_def data_zone_def bam_bits_def)

sublocale kernel_bitops \<subseteq> allocator: block_allocator "gas_new_block K" "gas_free_block K" used_blocks data_zone alloc_inv
proof
  fix s n s' e
  assume inv: "alloc_inv s"
  then have wf: "bam_wf s" by (simp add: alloc_inv_def)
  show "\<exists>r. gas_new_block K s = Some r" by (cases rule: gas_new_block_cases [OF wf]) auto
  show "n \<in> data_zone s \<and> n \<notin> used_blocks s \<and> used_blocks s' = insert n (used_blocks s) \<and>
      data_zone s' = data_zone s \<and> alloc_inv s'" if "gas_new_block K s = Some (n, None, s')"
    using gas_new_block_found [OF wf that] inv
    by (auto simp: alloc_inv_def data_zone_def bam_bits_def)
  show "n = 0 \<and> e = ENOSPC \<and> s' = s \<and> data_zone s \<subseteq> used_blocks s" if "gas_new_block K s = Some (n, Some e, s')"
    using that data_zone_bits [OF wf] by (cases rule: gas_new_block_cases [OF wf]) auto
  show "n \<in> data_zone s \<Longrightarrow> n \<noteq> 0" using inv by (rule alloc_inv_zone_pos)
  show "used_blocks (gas_free_block K s n) = (if n \<in> data_zone s then used_blocks s - {n} else used_blocks s)"
    by (rule gas_free_block_used [OF wf])
  show "data_zone (gas_free_block K s n) = data_zone s" by (simp add: data_zone_def gas_free_block_frame)
  then show "alloc_inv (gas_free_block K s n)"
    using inv gas_free_block_used [OF wf]
    by (auto simp: alloc_inv_def bam_bits_def gas_free_block_frame)
qed

section \<open>Inode allocation\<close>

definition iam_wf :: "fs \<Rightarrow> bool" where
  "iam_wf s \<longleftrightarrow> sb_blocksize_bits s = 12 \<and> s_bits_per_block (sbi s) = 32768 \<and>
     length (s_iam_bh (sbi s)) = unat (s_iam_blocks (sbi s)) \<and> distinct (s_iam_bh (sbi s)) \<and>
     s_iam_last (sbi s) < unat (s_iam_blocks (sbi s)) \<and>
     BITS_PER_BLOCK * unat (s_iam_blocks (sbi s)) \<le> 2 ^ 32 \<and>
     unat (s_ninodes (sbi s)) \<le> BITS_PER_BLOCK * unat (s_iam_blocks (sbi s))"

definition used_inodes :: "fs \<Rightarrow> nat set" where
  "used_inodes s = map_bits (bufs s) (s_iam_bh (sbi s))"

text \<open>The areas of the disk do not overlap: bitmaps, then the inode list, then the data zone.\<close>

definition layout_wf :: "fs \<Rightarrow> bool" where
  "layout_wf s \<longleftrightarrow> itable_wf (sbi s) \<and>
     (\<forall>m \<in> set (s_bam_bh (sbi s)) \<union> set (s_iam_bh (sbi s)). m < unat (s_inode_list_start (sbi s))) \<and>
     set (s_bam_bh (sbi s)) \<inter> set (s_iam_bh (sbi s)) = {} \<and>
     unat (s_inode_list_start (sbi s)) \<le> unat (s_data_block_start (sbi s))"

lemma layout_wf_inode_block:
  "layout_wf s \<Longrightarrow> gas_inode_block (sbi s) ino \<notin> set (s_bam_bh (sbi s)) \<union> set (s_iam_bh (sbi s))"
  by (fastforce simp: layout_wf_def)

text \<open>
  What is documented of the VFS helpers: a fresh inode has one link, and \<open>inode_init_owner\<close> sets
  owner and mode only, keeping the file type it is given.
\<close>

locale inode_alloc = buffer_cache K for K :: "'k alloc_services_scheme" +
  assumes new_inode_nlink: "new_inode K s = Some i \<Longrightarrow> i_nlink i = 1"
    and init_owner: "i_nlink (inode_init_owner K i d m) = i_nlink i"
      "blkaddr (inode_init_owner K i d m) = blkaddr i"
      "i_mode (inode_init_owner K i d m) AND S_IFMT = m AND S_IFMT"
begin

lemma gas_new_inode_cases:
  assumes "iam_wf s"
  obtains (nomem) "gas_new_inode K s dir mode = Some (None, Some ENOMEM, s)" "new_inode K s = None"
  | (nospace) "gas_new_inode K s dir mode = Some (None, Some ENOSPC, s)"
      "used_inodes s = {..<BITS_PER_BLOCK * unat (s_iam_blocks (sbi s))}"
  | (found) i b ip s1 where "i < unat (s_iam_blocks (sbi s))" "b < BITS_PER_BLOCK"
      "\<not> blk_bit (bufs s (s_iam_bh (sbi s) ! i)) b"
      "s1 = mark_buffer_dirty (s_iam_bh (sbi s) ! i)
         ((set_buf (s_iam_bh (sbi s) ! i) (bit_set K b (bufs s (s_iam_bh (sbi s) ! i))) s)
            \<lparr>sbi := (sbi s)\<lparr>s_iam_last := i\<rparr>\<rparr>)"
      "i_ino ip = b + BITS_PER_BLOCK * i" "i_nlink ip = 1" "i_size ip = 0" "\<And>n. n < 9 \<Longrightarrow> blkaddr ip n = 0"
      "i_mode ip AND S_IFMT = mode AND S_IFMT"
      "gas_new_inode K s dir mode = Some (Some (b + BITS_PER_BLOCK * i), None,
         mark_inode_dirty (b + BITS_PER_BLOCK * i) (upd_inode (b + BITS_PER_BLOCK * i) (\<lambda>_. ip) s1))"
proof (cases "new_inode K s")
  case None
  then show thesis by (intro nomem) (simp add: gas_new_inode_def)
next
  case (Some i0)
  let ?sb = "sbi s"
  have wf: "s_iam_last ?sb < unat (s_iam_blocks ?sb)" "length (s_iam_bh ?sb) = unat (s_iam_blocks ?sb)"
    "unat (s_bits_per_block ?sb) = BITS_PER_BLOCK" "BITS_PER_BLOCK * unat (s_iam_blocks ?sb) \<le> 2 ^ 32"
    using assms by (simp_all add: iam_wf_def)
  obtain r where r: "bitmap_search K (bufs s) (s_iam_bh ?sb) BITS_PER_BLOCK (unat (s_iam_blocks ?sb)) (s_iam_last ?sb)
      (unat (s_iam_blocks ?sb) + 1) (s_iam_last ?sb) = Some r"
    and spec: "case r of None \<Rightarrow> \<forall>i<unat (s_iam_blocks ?sb). \<forall>b<BITS_PER_BLOCK. blk_bit (bufs s (s_iam_bh ?sb ! i)) b
      | Some (i, b) \<Rightarrow> i < unat (s_iam_blocks ?sb) \<and> b < BITS_PER_BLOCK \<and> \<not> blk_bit (bufs s (s_iam_bh ?sb ! i)) b"
    using bitmap_search_total [OF wf(1,2)] by blast
  show thesis
  proof (cases r)
    case None
    then show thesis
      using r wf(2,3) Some spec map_bits_full [of "s_iam_bh ?sb" "bufs s"]
      by (intro nospace) (simp_all add: gas_new_inode_def Let_def used_inodes_def)
  next
    case (Some ib)
    obtain i b where ib: "ib = (i, b)" by (cases ib)
    have i: "i < unat (s_iam_blocks ?sb)" "b < BITS_PER_BLOCK" "\<not> blk_bit (bufs s (s_iam_bh ?sb ! i)) b"
      using spec Some ib by auto
    have "i * BITS_PER_BLOCK < 2 ^ 32" using i(1) wf(4) by linarith
    then have off: "unat (word_of_nat i * s_bits_per_block ?sb) = BITS_PER_BLOCK * i"
      using assms bit_offset by (simp add: iam_wf_def)
    show thesis
      by (rule found [OF i refl, of "(inode_init_owner K (i0\<lparr>blkaddr := (\<lambda>n. if n < 9 then 0 else blkaddr i0 n)\<rparr>)
          (icache s dir) mode)\<lparr>i_ino := b + BITS_PER_BLOCK * i, i_atime := current_time_sec K,
          i_ctime := current_time_sec K, i_mtime := current_time_sec K, i_size := 0\<rparr>"])
        (use r Some ib wf(3) off \<open>new_inode K s = Some i0\<close> new_inode_nlink init_owner in
          \<open>auto simp: gas_new_inode_def Let_def\<close>)
  qed
qed

lemma gas_new_inode_found:
  assumes wf: "iam_wf s" and lay: "set (s_bam_bh (sbi s)) \<inter> set (s_iam_bh (sbi s)) = {}"
    and res: "gas_new_inode K s dir mode = Some (Some ino, e, s')"
  shows "e = None" "ino \<notin> used_inodes s" "used_inodes s' = insert ino (used_inodes s)" "iam_wf s'"
    "i_ino (icache s' ino) = ino" "i_nlink (icache s' ino) = 1" "i_size (icache s' ino) = 0"
    "\<And>n. n < 9 \<Longrightarrow> blkaddr (icache s' ino) n = 0" "i_mode (icache s' ino) AND S_IFMT = mode AND S_IFMT"
    "i_dirty (icache s' ino)" "\<And>n. n \<noteq> ino \<Longrightarrow> icache s' n = icache s n"
    "\<And>m. m \<notin> set (s_iam_bh (sbi s)) \<Longrightarrow> bufs s' m = bufs s m" "pages s' = pages s"
    "sbi s' = (sbi s)\<lparr>s_iam_last := ino div BITS_PER_BLOCK\<rparr>" "used_blocks s' = used_blocks s"
    "sb_blocksize_bits s' = sb_blocksize_bits s" "sb_blocksize s' = sb_blocksize s"
    "ino < BITS_PER_BLOCK * unat (s_iam_blocks (sbi s))"
proof -
  obtain i b ip s1 where i: "i < unat (s_iam_blocks (sbi s))" "b < BITS_PER_BLOCK"
      "\<not> blk_bit (bufs s (s_iam_bh (sbi s) ! i)) b"
    and s1: "s1 = mark_buffer_dirty (s_iam_bh (sbi s) ! i)
         ((set_buf (s_iam_bh (sbi s) ! i) (bit_set K b (bufs s (s_iam_bh (sbi s) ! i))) s)
            \<lparr>sbi := (sbi s)\<lparr>s_iam_last := i\<rparr>\<rparr>)"
    and ip: "i_ino ip = b + BITS_PER_BLOCK * i" "i_nlink ip = 1" "i_size ip = 0" "\<And>n. n < 9 \<Longrightarrow> blkaddr ip n = 0"
      "i_mode ip AND S_IFMT = mode AND S_IFMT"
    and r: "e = None" "ino = b + BITS_PER_BLOCK * i" "s' = mark_inode_dirty ino (upd_inode ino (\<lambda>_. ip) s1)"
    using res by (cases rule: gas_new_inode_cases [OF wf, of dir mode]) auto
  have nth: "s_iam_bh (sbi s) ! i \<in> set (s_iam_bh (sbi s))" using i(1) wf by (simp add: iam_wf_def)
  show "ino \<notin> used_inodes s" using i by (simp add: used_inodes_def map_bits_def r(2))
  show "used_inodes s' = insert ino (used_inodes s)"
    using map_bits_upd [of i "s_iam_bh (sbi s)" b "bufs s'" True "bufs s"] i wf
    by (auto simp: r(2,3) s1 bit_set used_inodes_def iam_wf_def)
  show "iam_wf s'" using wf i(1) by (simp add: iam_wf_def r(3) s1)
  show frame: "bufs s' m = bufs s m" if "m \<notin> set (s_iam_bh (sbi s))" for m using that nth by (auto simp: r(3) s1)
  have "map_bits (bufs s') (s_bam_bh (sbi s)) = map_bits (bufs s) (s_bam_bh (sbi s))"
    by (rule map_bits_cong) (use lay frame in blast)
  then show "used_blocks s' = used_blocks s" by (simp add: used_blocks_def r(3) s1)
  show "sbi s' = (sbi s)\<lparr>s_iam_last := ino div BITS_PER_BLOCK\<rparr>" using i(2) by (simp add: r s1)
  show "ino < BITS_PER_BLOCK * unat (s_iam_blocks (sbi s))" using bit_position [OF i(1,2)] by (simp add: r(2))
  show "e = None" "i_ino (icache s' ino) = ino" "i_nlink (icache s' ino) = 1" "i_size (icache s' ino) = 0"
    "i_mode (icache s' ino) AND S_IFMT = mode AND S_IFMT" "i_dirty (icache s' ino)" "pages s' = pages s"
    "sb_blocksize_bits s' = sb_blocksize_bits s" "sb_blocksize s' = sb_blocksize s"
    using ip by (simp_all add: r s1)
  show "blkaddr (icache s' ino) n = 0" if "n < 9" for n using ip(4) [OF that] by (simp add: r s1)
  show "icache s' n = icache s n" if "n \<noteq> ino" for n using that by (simp add: r s1)
qed

end

context buffer_cache
begin

lemma gas_clear_inode_disk:
  assumes "layout_wf s" and "gas_get_inode K s (i_ino (icache s ino)) \<noteq> None"
  shows "disk_inode (gas_clear_inode K s ino) n =
      (if n = i_ino (icache s ino) then (disk_inode s n)\<lparr>gi_nlink := 0, gi_mode := 0\<rparr> else disk_inode s n)"
    and "m \<noteq> gas_inode_block (sbi s) (i_ino (icache s ino)) \<Longrightarrow> bufs (gas_clear_inode K s ino) m = bufs s m"
proof -
  let ?i = "i_ino (icache s ino)"
  obtain bh off d where g: "gas_get_inode K s ?i = Some (bh, off, d)"
    using assms(2) by (metis option.exhaust prod_cases3)
  from gas_get_inode_Some [OF g] have l: "bh = gas_inode_block (sbi s) ?i"
    "off = gas_inode_offset (sbi s) ?i" "d = bufs s (gas_inode_block (sbi s) ?i)" by auto
  define gi where "gi = (load_inode d off)\<lparr>gi_nlink := 0, gi_mode := 0\<rparr>"
  have ok: "gas_inode_ok gi" using gas_inode_ok_load [of d off] by (simp add: gi_def gas_inode_ok_def)
  have wf: "itable_wf (sbi s)" using assms(1) by (simp add: layout_wf_def)
  have s': "gas_clear_inode K s ino = mark_buffer_dirty bh (set_buf bh (store_inode d off gi) s)"
    using g by (simp add: gas_clear_inode_def gi_def)
  have gi: "gi = (disk_inode s ?i)\<lparr>gi_nlink := 0, gi_mode := 0\<rparr>" by (simp only: gi_def disk_inode_def l)
  have "disk_inode (gas_clear_inode K s ino) n = (if ?i = n then gi else disk_inode s n)"
    using load_inode_set_slot [OF wf ok, of "bufs s" ?i n]
    unfolding disk_inode_def s' mark_buffer_dirty_simps set_buf_simps l .
  then show "disk_inode (gas_clear_inode K s ino) n =
      (if n = ?i then (disk_inode s n)\<lparr>gi_nlink := 0, gi_mode := 0\<rparr> else disk_inode s n)"
    using gi by auto
  show "bufs (gas_clear_inode K s ino) m = bufs s m" if "m \<noteq> gas_inode_block (sbi s) ?i"
    using that l(1) by (simp add: s')
qed

lemma gas_clear_inode_frame [simp]:
  "sbi (gas_clear_inode K s ino) = sbi s" "icache (gas_clear_inode K s ino) = icache s"
  "pages (gas_clear_inode K s ino) = pages s" "sb_blocksize_bits (gas_clear_inode K s ino) = sb_blocksize_bits s"
  "sb_blocksize (gas_clear_inode K s ino) = sb_blocksize s"
  by (auto simp: gas_clear_inode_def split: option.splits)

lemma gas_clear_inode_none: "gas_get_inode K s (i_ino (icache s ino)) = None \<Longrightarrow> gas_clear_inode K s ino = s"
  by (simp add: gas_clear_inode_def)

lemma gas_free_inode_used:
  assumes wf: "iam_wf s" and lay: "layout_wf s" and ino: "ino = i_ino (icache s n)" "1 \<le> ino" "ino < unat (s_ninodes (sbi s))"
  shows "used_inodes (gas_free_inode K s n) = used_inodes s - {ino}"
    and "gas_get_inode K s ino \<noteq> None \<Longrightarrow> disk_inode (gas_free_inode K s n) m =
      (if m = ino then (disk_inode s m)\<lparr>gi_nlink := 0, gi_mode := 0\<rparr> else disk_inode s m)"
    and "used_blocks (gas_free_inode K s n) = used_blocks s"
proof -
  define s1 where "s1 = gas_clear_inode K s n"
  define bh where "bh = s_iam_bh (sbi s) ! (ino div BITS_PER_BLOCK)"
  have idx: "ino div BITS_PER_BLOCK < length (s_iam_bh (sbi s))" "ino div BITS_PER_BLOCK < unat (s_iam_blocks (sbi s))"
    using ino(3) wf by (auto simp: iam_wf_def less_mult_imp_div_less mult.commute)
  then have bh: "bh \<in> set (s_iam_bh (sbi s))" by (simp add: bh_def)
  have "sb_blocksize_bits s = 12" using wf by (simp add: iam_wf_def)
  with idx(2) ino have s': "gas_free_inode K s n = mark_buffer_dirty bh (set_buf bh
      (snd (test_and_clear_bit K (ino mod BITS_PER_BLOCK) (bufs s1 bh))) s1)"
    unfolding gas_free_inode_def Let_def s1_def bh_def by (simp only: block_split) auto
  have nb: "gas_inode_block (sbi s) ino \<notin> set (s_bam_bh (sbi s)) \<union> set (s_iam_bh (sbi s))"
    using lay by (rule layout_wf_inode_block)
  have s1: "bufs s1 m = bufs s m" if "m \<in> set (s_bam_bh (sbi s)) \<union> set (s_iam_bh (sbi s))" for m
  proof (cases "gas_get_inode K s ino = None")
    case False
    with that nb show ?thesis unfolding s1_def by (intro gas_clear_inode_disk(2) [OF lay]) (auto simp flip: ino(1))
  qed (use ino(1) in \<open>simp add: s1_def gas_clear_inode_none\<close>)
  have "map_bits (bufs (gas_free_inode K s n)) (s_iam_bh (sbi s)) =
      map_bits (bufs s) (s_iam_bh (sbi s)) - {ino mod BITS_PER_BLOCK + BITS_PER_BLOCK * (ino div BITS_PER_BLOCK)}"
    using map_bits_upd [OF idx(1), of "ino mod BITS_PER_BLOCK" "bufs (gas_free_inode K s n)" False "bufs s"] wf bh s1
    by (simp add: s' iam_wf_def test_and_clear_new flip: bh_def)
  then show "used_inodes (gas_free_inode K s n) = used_inodes s - {ino}"
    by (simp add: used_inodes_def s' s1_def)
  have "map_bits (bufs (gas_free_inode K s n)) (s_bam_bh (sbi s)) = map_bits (bufs s) (s_bam_bh (sbi s))"
    by (rule map_bits_cong) (use bh lay s1 in \<open>auto simp: s' layout_wf_def\<close>)
  then show "used_blocks (gas_free_inode K s n) = used_blocks s" by (simp add: used_blocks_def s' s1_def)
  have "disk_inode (gas_free_inode K s n) m = disk_inode s1 m"
    using layout_wf_inode_block [OF lay, of m] bh by (auto simp: disk_inode_def s' s1_def simp del: inode_location)
  then show "gas_get_inode K s ino \<noteq> None \<Longrightarrow> disk_inode (gas_free_inode K s n) m =
      (if m = ino then (disk_inode s m)\<lparr>gi_nlink := 0, gi_mode := 0\<rparr> else disk_inode s m)"
    unfolding s1_def ino(1) using gas_clear_inode_disk(1) [OF lay] by simp
qed

end

section \<open>The free counts\<close>

lemma popcount_get_le16: "16 - popcount16 (get_le16 b p) = card {i. 8 * p \<le> i \<and> i < 8 * p + 16 \<and> \<not> blk_bit b i}"
proof -
  have b: "bit (get_le16 b p) j \<longleftrightarrow> blk_bit b (8 * p + j)" if "j < 16" for j
  proof (cases "j < 8")
    case True
    then have "(8 * p + j) div 8 = p" "(8 * p + j) mod 8 = j" by simp_all
    with True show ?thesis
      by (simp add: get_le16_def blk_bit_def bit_or_iff bit_push_bit_iff bit_unsigned_iff)
  next
    case False
    define k where "k = j - 8"
    have j: "j = 8 + k" "k < 8" using False that by (simp_all add: k_def)
    then have "(8 * p + j) div 8 = p + 1" "(8 * p + j) mod 8 = k" by simp_all
    with j show ?thesis
      by (auto simp: get_le16_def blk_bit_def bit_or_iff bit_push_bit_iff bit_unsigned_iff byte_bit_beyond)
  qed
  have "popcount16 (get_le16 b p) = card {j. j < 16 \<and> bit (get_le16 b p) j}"
    unfolding popcount16_def by (subst distinct_card [symmetric]) (auto intro: arg_cong [where f = card])
  then have "16 - popcount16 (get_le16 b p) = card ({..<16} - {j. j < 16 \<and> bit (get_le16 b p) j})"
    by (subst card_Diff_subset) auto
  also have "{..<16} - {j. j < 16 \<and> bit (get_le16 b p) j} = {j. j < 16 \<and> \<not> blk_bit b (8 * p + j)}"
    using b by blast
  also have "card \<dots> = card ((\<lambda>j. 8 * p + j) ` {j. j < 16 \<and> \<not> blk_bit b (8 * p + j)})"
    by (rule card_image [symmetric]) simp
  also have "(\<lambda>j. 8 * p + j) ` {j. j < 16 \<and> \<not> blk_bit b (8 * p + j)} = {i. 8 * p \<le> i \<and> i < 8 * p + 16 \<and> \<not> blk_bit b i}"
    by (auto simp: image_iff) (metis add_less_cancel_left le_Suc_ex)
  finally show ?thesis .
qed

context kernel_bitops
begin

lemma count_free_words_eq:
  "count_free_words K b p w acc = acc + word_of_nat (card {i. 8 * p \<le> i \<and> i < 8 * p + 16 * w \<and> \<not> blk_bit b i})"
proof (induction w arbitrary: p acc)
  case 0
  have "{i. 8 * p \<le> i \<and> i < 8 * p + 16 * 0 \<and> \<not> blk_bit b i} = {}" by auto
  then show ?case by (simp only: count_free_words.simps card.empty) simp
next
  case (Suc w)
  define A B where "A = {i. 8 * p \<le> i \<and> i < 8 * p + 16 \<and> \<not> blk_bit b i}"
    and "B = {i. 8 * (p + 2) \<le> i \<and> i < 8 * (p + 2) + 16 * w \<and> \<not> blk_bit b i}"
  have "{i. 8 * p \<le> i \<and> i < 8 * p + 16 * Suc w \<and> \<not> blk_bit b i} = A \<union> B" by (auto simp: A_def B_def)
  moreover have "finite A" "finite B" "A \<inter> B = {}" by (auto simp: A_def B_def)
  moreover have "card A = 16 - popcount16 (get_le16 b p)" by (simp add: popcount_get_le16 A_def)
  ultimately have "card {i. 8 * p \<le> i \<and> i < 8 * p + 16 * Suc w \<and> \<not> blk_bit b i} =
      (16 - popcount16 (get_le16 b p)) + card {i. 8 * (p + 2) \<le> i \<and> i < 8 * (p + 2) + 16 * w \<and> \<not> blk_bit b i}"
    unfolding B_def [symmetric] by (simp only: card_Un_disjoint)
  then show ?case by (simp only: count_free_words.simps Suc.IH hweight of_nat_add ac_simps)
qed

lemma count_free_maps_eq:
  "n \<le> length mp \<Longrightarrow> count_free_maps K bf 4096 mp n acc =
     Some (acc + word_of_nat (\<Sum>m\<leftarrow>take n mp. card {i. i < BITS_PER_BLOCK \<and> \<not> blk_bit (bf m) i}))"
proof (induction n arbitrary: mp acc)
  case (Suc n)
  then obtain m mp' where mp: "mp = m # mp'" "n \<le> length mp'" by (cases mp) auto
  then show ?case using Suc.IH [OF mp(2)] by (simp add: count_free_words_eq)
qed simp

lemma count_free_maps_beyond: "length mp < n \<Longrightarrow> count_free_maps K bf bsize mp n acc = None"
proof (induction mp arbitrary: n acc)
  case Nil
  then show ?case by (cases n) auto
next
  case (Cons m mp)
  then show ?case by (cases n) auto
qed

end

lemma sum_list_free_bits:
  "(\<Sum>m\<leftarrow>mp. card {i. i < BITS_PER_BLOCK \<and> \<not> blk_bit (bf m) i}) = card ({..<BITS_PER_BLOCK * length mp} - map_bits bf mp)"
proof (induction mp rule: rev_induct)
  case Nil
  then show ?case by simp
next
  case (snoc m mp)
  define N where "N = BITS_PER_BLOCK * length mp"
  have div: "n div BITS_PER_BLOCK = length mp" "n mod BITS_PER_BLOCK = n - N"
    if "N \<le> n" "n < BITS_PER_BLOCK * length (mp @ [m])" for n
  proof -
    define k where "k = n - N"
    have "n = k + BITS_PER_BLOCK * length mp" "k < BITS_PER_BLOCK" using that by (simp_all add: k_def N_def)
    then show "n div BITS_PER_BLOCK = length mp" "n mod BITS_PER_BLOCK = n - N" by (simp_all add: N_def)
  qed
  have low: "(mp @ [m]) ! (n div BITS_PER_BLOCK) = mp ! (n div BITS_PER_BLOCK)" if "n < N" for n
    using that by (simp add: nth_append N_def less_mult_imp_div_less mult.commute)
  have "{..<BITS_PER_BLOCK * length (mp @ [m])} - map_bits bf (mp @ [m]) =
      ({..<N} - map_bits bf mp) \<union> (\<lambda>i. N + i) ` {i. i < BITS_PER_BLOCK \<and> \<not> blk_bit (bf m) i}"
    (is "?L = ?A \<union> ?B")
  proof (rule set_eqI)
    fix n
    show "n \<in> ?L \<longleftrightarrow> n \<in> ?A \<union> ?B"
    proof (cases "n < N")
      case True
      then show ?thesis using low [OF True] by (auto simp: map_bits_def N_def)
    next
      case False
      have "n \<in> ?B \<longleftrightarrow> n < BITS_PER_BLOCK * length (mp @ [m]) \<and> \<not> blk_bit (bf m) (n - N)"
        using False by (auto simp: image_iff N_def intro!: exI [of _ "n - N"])
      moreover have "n \<in> ?L \<longleftrightarrow> n < BITS_PER_BLOCK * length (mp @ [m]) \<and> \<not> blk_bit (bf m) (n - N)"
        using False div [of n] by (auto simp: map_bits_def nth_append)
      ultimately show ?thesis using False by auto
    qed
  qed
  moreover have "card (?A \<union> ?B) = card ?A + card {i. i < BITS_PER_BLOCK \<and> \<not> blk_bit (bf m) i}"
    by (subst card_Un_disjoint) (auto simp: card_image)
  ultimately show ?case using snoc.IH by (simp add: N_def)
qed

lemma map_blocks_of_bits:
  assumes "unat (numbits :: u32) + BITS_PER_BLOCK \<le> 2 ^ 32"
  shows "unat ((numbits + word_of_nat (4096 * 8) - 1) div word_of_nat (4096 * 8)) = (unat numbits + 32767) div BITS_PER_BLOCK"
proof -
  have "(word_of_nat (4096 * 8) :: u32) = 32768" "numbits + 32768 - 1 = numbits + 32767" by simp_all
  moreover have "unat (numbits + 32767) = unat numbits + 32767"
    using assms by (subst unat_add_lem [THEN iffD1]) simp_all
  moreover have "unat (32768 :: u32) = 32768" by simp
  ultimately show ?thesis by (simp only: unat_div)
qed

context kernel_bitops
begin

lemma count_free_eq:
  assumes "(unat numbits + 32767) div BITS_PER_BLOCK = n" and "n \<le> length mp" and "unat numbits + BITS_PER_BLOCK \<le> 2 ^ 32"
    and "BITS_PER_BLOCK * n < 2 ^ 32"
  shows "map_option unat (count_free K bf mp 4096 numbits) = Some (card ({..<BITS_PER_BLOCK * n} - map_bits bf (take n mp)))"
proof -
  have "card ({..<BITS_PER_BLOCK * n} - map_bits bf (take n mp)) \<le> card {..<BITS_PER_BLOCK * n}" by (intro card_mono) auto
  then have "card ({..<BITS_PER_BLOCK * n} - map_bits bf (take n mp)) < 2 ^ 32" using assms(4) by simp
  with assms(1,2) show ?thesis
    unfolding count_free_def Let_def map_blocks_of_bits [OF assms(3)]
    by (simp add: count_free_maps_eq sum_list_free_bits unat_word_of_nat)
qed

end

context kernel_bitops
begin

lemma allocator_spec: "block_allocator (gas_new_block K) (gas_free_block K) used_blocks data_zone alloc_inv"
  by (rule allocator.block_allocator_axioms)

end

section \<open>Properties of allocation\<close>

definition ref_alloc_services :: alloc_services where
  "ref_alloc_services = inode_services.extend ref_inode_services
     (alloc_services.fields (\<lambda>_. Some (ref_fresh_inode 0)) (\<lambda>i d m. i\<lparr>i_mode := m, i_uid := i_uid d, i_gid := i_gid d\<rparr>)
        \<lparr>tv_sec = 1686900000, tv_nsec = 0\<rparr>)"

lemma ref_alloc_services_simps [simp]:
  "find_first_zero_bit ref_alloc_services = find_first_zero_bit makefs_bitops"
  "bit_set ref_alloc_services = bit_set makefs_bitops"
  "test_and_clear_bit ref_alloc_services = test_and_clear_bit makefs_bitops"
  "hweight16 ref_alloc_services = hweight16 makefs_bitops"
  "sb_bread ref_alloc_services bf n = Some (bf n)"
  "new_decode_dev ref_alloc_services = ref_decode_dev" "new_encode_dev ref_alloc_services = ref_encode_dev"
  "init_special_inode ref_alloc_services = ref_special_inode"
  "new_inode ref_alloc_services s = Some (ref_fresh_inode 0)"
  "inode_init_owner ref_alloc_services = (\<lambda>i d m. i\<lparr>i_mode := m, i_uid := i_uid d, i_gid := i_gid d\<rparr>)"
  by (simp_all add: ref_alloc_services_def ref_inode_services_def bitops.extend_def inode_services.extend_def
      inode_services.fields_def alloc_services.fields_def)

interpretation ref_alloc: inode_alloc ref_alloc_services
  by unfold_locales
    (auto simp: makefs.ffzb makefs.bit_set makefs.test_and_clear_old makefs.test_and_clear_new makefs.hweight
      ref_decode_encode ref_special_inode_def ref_fresh_inode_def)

text \<open>
  A mounted 4 MB volume as the file system maker lays it out: 1024 blocks, block map in block 1
  (blocks 0 to 6 and everything from 1024 on busy), inode map in block 2 (inode 0 busy).
\<close>

definition example_bam :: block where
  "example_bam p = (if p = 0 then 0x7f else if p < 128 then 0 else 0xff)"

definition example_iam :: block where
  "example_iam p = (if p = 0 then 1 else if p < 32 then 0 else 0xff)"

definition example_volume :: fs where
  "example_volume = example_fs\<lparr>bufs := (\<lambda>n. if n = 1 then example_bam else if n = 2 then example_iam else (\<lambda>_. 0))\<rparr>"

lemma blk_bit_example_bam: "blk_bit example_bam n \<longleftrightarrow> n < 7 \<or> 1024 \<le> n"
proof -
  have m: "(0x7f::byte) = mask 7" "(0xff::byte) = mask 8" by (simp_all add: mask_eq_exp_minus_1)
  have "n < 8 \<Longrightarrow> n mod 8 = n" by simp
  moreover have "n div 8 = 0 \<longleftrightarrow> n < 8" "n div 8 < 128 \<longleftrightarrow> n < 1024" by auto
  ultimately show ?thesis
    by (auto simp: blk_bit_def example_bam_def m bit_mask_iff simp del: div_eq_0_iff)
qed

lemma example_volume_simps [simp]:
  "sbi example_volume = example_sb" "sb_blocksize_bits example_volume = 12" "sb_blocksize example_volume = 4096"
  "bufs example_volume (Suc 0) = example_bam" "bufs example_volume 1 = example_bam" "bufs example_volume 2 = example_iam"
  by (simp_all add: example_volume_def example_fs_def)

lemma example_volume_used: "used_blocks example_volume = {..<7} \<union> {1024..<BITS_PER_BLOCK}"
  by (auto simp: used_blocks_def map_bits_def example_sb_def blk_bit_example_bam)

lemma example_volume_free: "7 \<in> data_zone example_volume - used_blocks example_volume"
  by (simp add: example_volume_used data_zone_def example_sb_def)

lemma example_volume_alloc_inv: "alloc_inv example_volume"
  unfolding alloc_inv_def example_volume_used
  by (auto simp: bam_wf_def bam_bits_def data_zone_def example_sb_def)

text \<open>
  C29. \<^verbatim>\<open>gas_new_block\<close> always returns. It hands out a block of the data zone that was free, marks
  it busy and changes nothing else; or, exactly when no block of the zone is free, it reports
  \<open>ENOSPC\<close> and changes nothing. The invariant that keeps metadata and padding bits set survives.
\<close>

theorem gas_new_block_correct:
  assumes "kernel_bitops K" and "alloc_inv s"
  shows "\<exists>n e s'. gas_new_block K s = Some (n, e, s') \<and>
    (if data_zone s \<subseteq> used_blocks s then n = 0 \<and> e = Some ENOSPC \<and> s' = s
     else e = None \<and> n \<in> data_zone s - used_blocks s \<and> used_blocks s' = insert n (used_blocks s) \<and>
       alloc_inv s' \<and> icache s' = icache s \<and> pages s' = pages s \<and>
       (\<forall>m. m \<notin> set (s_bam_bh (sbi s)) \<longrightarrow> bufs s' m = bufs s m))"
proof -
  note spec = kernel_bitops.allocator_spec [OF assms(1)]
  note ba = block_allocator.alloc_ok [OF spec assms(2)] block_allocator.alloc_fail [OF spec assms(2)]
  have wf: "bam_wf s" using assms(2) by (simp add: alloc_inv_def)
  obtain n e s' where r: "gas_new_block K s = Some (n, e, s')"
    using block_allocator.alloc_total [OF spec assms(2)] by (metis prod_cases3)
  show ?thesis
  proof (cases e)
    case None
    with r ba(1) kernel_bitops.gas_new_block_found(5-7) [OF assms(1) wf] show ?thesis by auto
  next
    case (Some e')
    with r ba(2) show ?thesis by auto
  qed
qed

theorem gas_new_block_correct_witness:
  "\<exists>n s'. gas_new_block makefs_bitops example_volume = Some (n, None, s') \<and> 7 \<le> n \<and> n < 1024"
proof -
  have "\<not> data_zone example_volume \<subseteq> used_blocks example_volume"
    using example_volume_free by blast
  with gas_new_block_correct [OF makefs.kernel_bitops_axioms example_volume_alloc_inv] show ?thesis
    by (auto simp: data_zone_def example_sb_def)
qed

text \<open>
  C30. \<^verbatim>\<open>gas_free_block\<close> clears exactly the bit of a block of the data zone, ignores any other
  number, keeps the allocation invariant, and undoes an allocation.
\<close>

theorem gas_free_block_correct:
  assumes "kernel_bitops K" and "alloc_inv s"
  shows "used_blocks (gas_free_block K s n) = used_blocks s - (data_zone s \<inter> {n}) \<and>
    alloc_inv (gas_free_block K s n) \<and>
    (gas_new_block K s = Some (n, None, s') \<longrightarrow> used_blocks (gas_free_block K s' n) = used_blocks s)"
proof -
  note spec = kernel_bitops.allocator_spec [OF assms(1)]
  have "used_blocks (gas_free_block K s n) = used_blocks s - (data_zone s \<inter> {n})"
    using block_allocator.release_used [OF spec assms(2), of n] by auto
  then show ?thesis
    using block_allocator.release_inv [OF spec assms(2)] block_allocator.release_alloc [OF spec assms(2)] by blast
qed

theorem gas_free_block_correct_witness:
  "used_blocks (gas_free_block makefs_bitops example_volume 3) = used_blocks example_volume \<and>
   (\<exists>n s'. gas_new_block makefs_bitops example_volume = Some (n, None, s') \<and>
      used_blocks (gas_free_block makefs_bitops s' n) = used_blocks example_volume)"
proof -
  note c = gas_free_block_correct [OF makefs.kernel_bitops_axioms example_volume_alloc_inv]
  have "\<not> data_zone example_volume \<subseteq> used_blocks example_volume"
    using example_volume_free by blast
  from makefs.allocator.alloc_succeeds [OF example_volume_alloc_inv this] c [of 3] c show ?thesis
    by (auto simp: data_zone_def example_sb_def)
qed

lemma blk_bit_example_iam: "blk_bit example_iam n \<longleftrightarrow> n = 0 \<or> 256 \<le> n"
proof -
  have m: "(0xff::byte) = mask 8" by (simp add: mask_eq_exp_minus_1)
  have "n < 8 \<Longrightarrow> n mod 8 = n" by simp
  moreover have "n div 8 = 0 \<longleftrightarrow> n < 8" "n div 8 < 32 \<longleftrightarrow> n < 256" by auto
  ultimately show ?thesis
    by (auto simp: blk_bit_def example_iam_def m bit_mask_iff bit_1_iff simp del: div_eq_0_iff)
qed

lemma example_volume_used_inodes: "used_inodes example_volume = {0} \<union> {256..<BITS_PER_BLOCK}"
  by (auto simp: used_inodes_def map_bits_def example_sb_def blk_bit_example_iam)

lemma example_volume_wf: "iam_wf example_volume" "layout_wf example_volume"
  by (auto simp: iam_wf_def layout_wf_def itable_wf_def example_sb_def)

text \<open>
  C31. \<^verbatim>\<open>gas_new_inode\<close> always returns. When the VFS gives an inode and a bit of the inode map is
  clear, the new inode gets a number that was free, now busy; it starts with one link, size 0, no
  blocks, the requested file type and a dirty mark; other in-core inodes, the block map and all
  pages are untouched. Otherwise it fails with \<open>ENOMEM\<close> or \<open>ENOSPC\<close> and changes nothing.
\<close>

theorem gas_new_inode_correct:
  assumes "inode_alloc K" and "iam_wf s" and "layout_wf s"
  shows "\<exists>r e s'. gas_new_inode K s dir mode = Some (r, e, s') \<and>
    (case r of
       None \<Rightarrow> s' = s \<and> (e = Some ENOMEM \<and> new_inode K s = None \<or>
         e = Some ENOSPC \<and> used_inodes s = {..<BITS_PER_BLOCK * unat (s_iam_blocks (sbi s))})
     | Some ino \<Rightarrow> e = None \<and> ino \<notin> used_inodes s \<and> used_inodes s' = insert ino (used_inodes s) \<and>
         used_blocks s' = used_blocks s \<and> iam_wf s' \<and> pages s' = pages s \<and>
         (let i = icache s' ino in i_ino i = ino \<and> i_nlink i = 1 \<and> i_size i = 0 \<and> i_dirty i \<and>
            i_mode i AND S_IFMT = mode AND S_IFMT \<and> (\<forall>n<9. blkaddr i n = 0)) \<and>
         (\<forall>n. n \<noteq> ino \<longrightarrow> icache s' n = icache s n))"
proof -
  have lay: "set (s_bam_bh (sbi s)) \<inter> set (s_iam_bh (sbi s)) = {}" using assms(3) by (simp add: layout_wf_def)
  obtain r e s' where r: "gas_new_inode K s dir mode = Some (r, e, s')"
    by (cases rule: inode_alloc.gas_new_inode_cases [OF assms(1,2), of dir mode]) auto
  show ?thesis
  proof (cases r)
    case None
    with r show ?thesis
      by (cases rule: inode_alloc.gas_new_inode_cases [OF assms(1,2), of dir mode]) auto
  next
    case (Some ino)
    note f = inode_alloc.gas_new_inode_found [OF assms(1,2) lay r [unfolded Some]]
    show ?thesis
      using Some r f by (auto simp: Let_def)
  qed
qed

theorem gas_new_inode_correct_witness:
  "\<exists>ino s'. gas_new_inode ref_alloc_services example_volume 1 0x41ED = Some (Some ino, None, s') \<and>
     0 < ino \<and> i_nlink (icache s' ino) = 1"
proof -
  have "used_inodes example_volume \<noteq> {..<BITS_PER_BLOCK * unat (s_iam_blocks (sbi example_volume))}"
    unfolding example_volume_used_inodes by (auto simp: example_sb_def set_eq_iff intro!: exI [of _ 1])
  moreover have "0 \<in> used_inodes example_volume" by (simp add: example_volume_used_inodes)
  ultimately show ?thesis
    using gas_new_inode_correct [OF ref_alloc.inode_alloc_axioms example_volume_wf, of 1 "0x41ED"]
    by (auto simp: Let_def split: option.splits)
qed

text \<open>
  C36. \<^verbatim>\<open>gas_free_inode\<close> releases exactly its own number in the inode map and clears mode and link
  count of exactly its own slot of the inode list; no block is released.
\<close>

theorem gas_free_inode_correct:
  assumes "buffer_cache K" and "iam_wf s" and "layout_wf s"
    and "ino = i_ino (icache s n)" and "1 \<le> ino" and "ino < unat (s_ninodes (sbi s))"
    and "gas_get_inode K s ino \<noteq> None"
  shows "used_inodes (gas_free_inode K s n) = used_inodes s - {ino} \<and>
    used_blocks (gas_free_inode K s n) = used_blocks s \<and>
    disk_inode (gas_free_inode K s n) m =
      (if m = ino then (disk_inode s m)\<lparr>gi_nlink := 0, gi_mode := 0\<rparr> else disk_inode s m)"
  using buffer_cache.gas_free_inode_used [OF assms(1-6)] assms(7) by blast

theorem gas_free_inode_correct_witness:
  "used_inodes (gas_free_inode ref_inode_services example_volume 9) = used_inodes example_volume - {9} \<and>
   gi_nlink (disk_inode (gas_free_inode ref_inode_services example_volume 9) 9) = 0"
proof -
  have ino: "9 = i_ino (icache example_volume 9)" by (simp add: example_volume_def example_fs_def ref_fresh_inode_def)
  have "gas_get_inode ref_inode_services example_volume 9 \<noteq> None" by (simp add: gas_get_inode_def Let_def)
  from gas_free_inode_correct [OF ref_buffers.buffer_cache_axioms example_volume_wf ino _ _ this, of 9] show ?thesis
    by (simp add: example_sb_def)
qed

lemma count_free_blocks_general:
  assumes "kernel_bitops K" and "alloc_inv s" and "sb_blocksize s = 4096"
    and "unat (s_data_block_start (sbi s)) \<le> unat (s_nblocks (sbi s))"
    and "BITS_PER_BLOCK * (unat (s_bam_blocks (sbi s)) + 1) \<le> 2 ^ 32"
    and "n = (unat (s_nblocks (sbi s)) - unat (s_data_block_start (sbi s)) + 32768) div BITS_PER_BLOCK"
  shows "map_option unat (gas_count_free_blocks K s) =
      Some (card ({k \<in> data_zone s. k < BITS_PER_BLOCK * n} - used_blocks s)) \<and>
    (n = unat (s_bam_blocks (sbi s)) \<longrightarrow>
      map_option unat (gas_count_free_blocks K s) = Some (card (data_zone s - used_blocks s)))"
proof -
  let ?sb = "sbi s"
  have wf: "bam_wf s" and meta: "{..<bam_bits s} - data_zone s \<subseteq> used_blocks s" and pos: "0 < unat (s_data_block_start ?sb)"
    using assms(2) by (simp_all add: alloc_inv_def)
  have len: "length (s_bam_bh ?sb) = unat (s_bam_blocks ?sb)" and nb: "unat (s_nblocks ?sb) \<le> BITS_PER_BLOCK * unat (s_bam_blocks ?sb)"
    using wf by (simp_all add: bam_wf_def)
  have d: "unat (s_nblocks ?sb - s_data_block_start ?sb) = unat (s_nblocks ?sb) - unat (s_data_block_start ?sb)"
    using assms(4) by (simp add: unat_sub word_le_nat_alt)
  have bits: "unat (s_nblocks ?sb - s_data_block_start ?sb + 1) = unat (s_nblocks ?sb) - unat (s_data_block_start ?sb) + 1"
    using nb assms(5) pos by (subst unat_add_lem [THEN iffD1]) (simp_all add: d)
  have n: "n \<le> unat (s_bam_blocks ?sb)"
  proof -
    have "unat (s_nblocks ?sb) - unat (s_data_block_start ?sb) < unat (s_bam_blocks ?sb) * BITS_PER_BLOCK"
      using nb pos assms(4) by linarith
    then have "(unat (s_nblocks ?sb) - unat (s_data_block_start ?sb)) div BITS_PER_BLOCK < unat (s_bam_blocks ?sb)"
      by (rule less_mult_imp_div_less)
    then show ?thesis by (simp add: assms(6))
  qed
  have "map_option unat (gas_count_free_blocks K s) =
      Some (card ({..<BITS_PER_BLOCK * n} - map_bits (bufs s) (take n (s_bam_bh ?sb @ s_iam_bh ?sb))))"
    unfolding gas_count_free_blocks_def Let_def assms(3)
    by (rule kernel_bitops.count_free_eq [OF assms(1)]) (use n nb assms(5) pos in \<open>simp_all add: bits assms(6) len\<close>)
  also have "{..<BITS_PER_BLOCK * n} - map_bits (bufs s) (take n (s_bam_bh ?sb @ s_iam_bh ?sb)) =
      {k \<in> data_zone s. k < BITS_PER_BLOCK * n} - used_blocks s"
  proof -
    have "k div BITS_PER_BLOCK < n" if "k < BITS_PER_BLOCK * n" for k
      using that by (simp add: less_mult_imp_div_less mult.commute)
    then have "map_bits (bufs s) (take n (s_bam_bh ?sb @ s_iam_bh ?sb)) = {k \<in> used_blocks s. k < BITS_PER_BLOCK * n}"
      using n by (auto simp: used_blocks_def map_bits_def len)
    moreover have "k < bam_bits s" if "k < BITS_PER_BLOCK * n" for k using that n by (simp add: bam_bits_def)
    ultimately show ?thesis using meta by blast
  qed
  finally have r: "map_option unat (gas_count_free_blocks K s) =
      Some (card ({k \<in> data_zone s. k < BITS_PER_BLOCK * n} - used_blocks s))" .
  moreover have "n = unat (s_bam_blocks ?sb) \<Longrightarrow> {k \<in> data_zone s. k < BITS_PER_BLOCK * n} = data_zone s"
    using nb by (auto simp: data_zone_def)
  ultimately show ?thesis by metis
qed

text \<open>
  What \<open>statfs\<close> reports as free blocks (\<^verbatim>\<open>gas_count_free_blocks\<close>): the number of free blocks of
  the data zone among the first \<open>n\<close> map blocks, \<open>n\<close> being the number of map blocks needed for
  \<open>s_nblocks - s_data_block_start + 1\<close> bits. It is the true number of free blocks whenever that \<open>n\<close>
  is the number of map blocks there are.
\<close>

theorem gas_count_free_blocks_value:
  assumes "kernel_bitops K" and "alloc_inv s" and "sb_blocksize s = 4096"
    and "unat (s_data_block_start (sbi s)) \<le> unat (s_nblocks (sbi s))"
    and "BITS_PER_BLOCK * (unat (s_bam_blocks (sbi s)) + 1) \<le> 2 ^ 32"
    and "n = (unat (s_nblocks (sbi s)) - unat (s_data_block_start (sbi s)) + 32768) div BITS_PER_BLOCK"
  shows "map_option unat (gas_count_free_blocks K s) =
      Some (card ({k \<in> data_zone s. k < BITS_PER_BLOCK * n} - used_blocks s)) \<and>
    (n = unat (s_bam_blocks (sbi s)) \<longrightarrow>
      map_option unat (gas_count_free_blocks K s) = Some (card (data_zone s - used_blocks s)))"
  using count_free_blocks_general [OF assms] .

theorem gas_count_free_blocks_value_witness:
  "map_option unat (gas_count_free_blocks makefs_bitops example_volume) = Some 1017"
proof -
  have "data_zone example_volume - used_blocks example_volume = {7..<1024}"
    by (auto simp: example_volume_used data_zone_def example_sb_def)
  with gas_count_free_blocks_value [OF makefs.kernel_bitops_axioms example_volume_alloc_inv, of 1] show ?thesis
    by (simp add: example_sb_def)
qed

lemma card_split_at:
  assumes "finite (z :: nat set)"
  shows "card {k \<in> z. k < c} + card {k \<in> z. c \<le> k} = card z" "(\<exists>k\<in>z. c \<le> k) \<longleftrightarrow> 0 < card {k \<in> z. c \<le> k}"
proof -
  have "card ({k \<in> z. k < c} \<union> {k \<in> z. c \<le> k}) = card {k \<in> z. k < c} + card {k \<in> z. c \<le> k}"
    by (rule card_Un_disjoint) (use assms in auto)
  moreover have "{k \<in> z. k < c} \<union> {k \<in> z. c \<le> k} = z" by auto
  ultimately show "card {k \<in> z. k < c} + card {k \<in> z. c \<le> k} = card z" by simp
  have "finite {k \<in> z. c \<le> k}" using assms by simp
  then show "(\<exists>k\<in>z. c \<le> k) \<longleftrightarrow> 0 < card {k \<in> z. c \<le> k}" unfolding card_gt_0_iff by blast
qed

text \<open>The example: 32800 blocks under two map blocks, all busy but the last 32.\<close>

definition undercount_volume :: fs where
  "undercount_volume = example_fs\<lparr>
     sbi := example_sb\<lparr>s_bam_blocks := 2, s_inode_blocks := 128, s_nblocks := 32800, s_ninodes := 8192,
       s_bam_bh := [1, 2], s_iam_bh := [3], s_inode_list_start := 4, s_data_block_start := 132\<rparr>,
     bufs := (\<lambda>n. if n = 1 then (\<lambda>_. 0xff) else if n = 2 then (\<lambda>p. if p < 4 then 0 else 0xff) else (\<lambda>_. 0))\<rparr>"

lemma undercount_used: "used_blocks undercount_volume = {..<32768} \<union> {32800..<65536}"
proof -
  have ff: "bit (0xff::byte) (k mod 8)" for k
    using bit_mask_iff [of 8 "k mod 8", where 'a = byte] by (simp add: mask_eq_exp_minus_1)
  have "blk_bit (bufs undercount_volume ([1, 2] ! (n div 32768))) (n mod 32768) \<longleftrightarrow> n < 32768 \<or> 32800 \<le> n"
    if "n < 65536" for n
  proof (cases "n < 32768")
    case True
    then show ?thesis using ff [of n] by (simp add: blk_bit_def undercount_volume_def)
  next
    case False
    with that have n: "n div 32768 = 1" "n mod 32768 = n - 32768" by (simp_all add: div_nat_eqI mod_nat_eqI)
    have "(n - 32768) div 8 < 4 \<longleftrightarrow> n < 32800" using False by auto
    then show ?thesis using False ff [of "n - 32768"] by (simp add: n blk_bit_def undercount_volume_def)
  qed
  then have "{n. n < 65536 \<and> blk_bit (bufs undercount_volume ([1, 2] ! (n div 32768))) (n mod 32768)} =
      {n. n < 65536 \<and> (n < 32768 \<or> 32800 \<le> n)}" by blast
  also have "\<dots> = {..<32768} \<union> {32800..<65536}" by auto
  finally show ?thesis by (simp add: used_blocks_def map_bits_def) (simp add: undercount_volume_def)
qed

lemma undercount_alloc_inv: "alloc_inv undercount_volume"
  unfolding alloc_inv_def undercount_used
  by (auto simp: bam_wf_def bam_bits_def data_zone_def undercount_volume_def example_fs_def example_sb_def)

text \<open>
  C39. \<^verbatim>\<open>gas_count_free_blocks\<close> counts too few blocks. It looks at the \<open>n\<close> map blocks that hold
  \<open>s_nblocks - s_data_block_start + 1\<close> bits, but the map covers the metadata blocks too: what it reports is
  the number of free blocks of the data zone less those the remaining map blocks describe. So it is below the true
  number exactly when one of these is free.
\<close>

theorem gas_count_free_blocks_undercounts:
  assumes "kernel_bitops K" and "alloc_inv s" and "sb_blocksize s = 4096"
    and "unat (s_data_block_start (sbi s)) \<le> unat (s_nblocks (sbi s))"
    and "BITS_PER_BLOCK * (unat (s_bam_blocks (sbi s)) + 1) \<le> 2 ^ 32"
    and "n = (unat (s_nblocks (sbi s)) - unat (s_data_block_start (sbi s)) + 32768) div BITS_PER_BLOCK"
  shows "\<exists>r. gas_count_free_blocks K s = Some r \<and>
    unat r + card {k \<in> data_zone s - used_blocks s. BITS_PER_BLOCK * n \<le> k} = card (data_zone s - used_blocks s) \<and>
    (unat r < card (data_zone s - used_blocks s) \<longleftrightarrow> (\<exists>k\<in>data_zone s - used_blocks s. BITS_PER_BLOCK * n \<le> k))"
proof -
  let ?z = "data_zone s - used_blocks s"
  have fin: "finite ?z" by (simp add: data_zone_def)
  obtain r where r: "gas_count_free_blocks K s = Some r" "unat r = card ({k \<in> data_zone s. k < BITS_PER_BLOCK * n} - used_blocks s)"
    using conjunct1 [OF count_free_blocks_general [OF assms]] by (cases "gas_count_free_blocks K s") auto
  have "{k \<in> data_zone s. k < BITS_PER_BLOCK * n} - used_blocks s = {k \<in> ?z. k < BITS_PER_BLOCK * n}" by blast
  then have u: "unat r = card {k \<in> ?z. k < BITS_PER_BLOCK * n}" using r(2) by (simp only:)
  note c = card_split_at [OF fin, of "BITS_PER_BLOCK * n"]
  have "unat r + card {k \<in> ?z. BITS_PER_BLOCK * n \<le> k} = card ?z" using c(1) u by linarith
  moreover have "unat r < card ?z \<longleftrightarrow> (\<exists>k\<in>?z. BITS_PER_BLOCK * n \<le> k)" using c u by linarith
  ultimately show ?thesis using r(1) by blast
qed

theorem gas_count_free_blocks_undercounts_witness:
  "gas_count_free_blocks makefs_bitops undercount_volume = Some 0 \<and>
   card (data_zone undercount_volume - used_blocks undercount_volume) = 32"
proof -
  have dz: "data_zone undercount_volume = {132..<32800}" by (simp add: data_zone_def undercount_volume_def)
  have z: "data_zone undercount_volume - used_blocks undercount_volume = {32768..<32800}"
    unfolding dz undercount_used by (intro set_eqI) (simp only: Diff_iff Un_iff atLeastLessThan_iff lessThan_iff, linarith)
  have "\<exists>r. gas_count_free_blocks makefs_bitops undercount_volume = Some r \<and>
    unat r + card {k \<in> data_zone undercount_volume - used_blocks undercount_volume. BITS_PER_BLOCK * 1 \<le> k} =
      card (data_zone undercount_volume - used_blocks undercount_volume) \<and>
    (unat r < card (data_zone undercount_volume - used_blocks undercount_volume) \<longleftrightarrow>
      (\<exists>k\<in>data_zone undercount_volume - used_blocks undercount_volume. BITS_PER_BLOCK * 1 \<le> k))"
    by (rule gas_count_free_blocks_undercounts [OF makefs.kernel_bitops_axioms undercount_alloc_inv])
      (simp_all add: undercount_volume_def example_fs_def)
  then obtain r where r: "gas_count_free_blocks makefs_bitops undercount_volume = Some r"
    "unat r + card {k \<in> {32768..<32800}. BITS_PER_BLOCK * 1 \<le> k} = card {32768..<32800 :: nat}" unfolding z by blast
  have e: "{k \<in> {32768..<32800}. BITS_PER_BLOCK * 1 \<le> k} = {32768..<32800 :: nat}" by auto
  have "unat r = 0" using r(2) unfolding e by linarith
  then have "r = 0" by (simp add: unat_eq_0)
  then show ?thesis using r(1) z by (simp only: card_atLeastLessThan) simp
qed

text \<open>
  C40. When \<open>s_ninodes\<close> fills the inode map exactly (a 512 MB volume: 32768 inodes, one map block),
  \<^verbatim>\<open>gas_count_free_inodes\<close> counts \<open>s_ninodes + 1\<close> bits and so reads one buffer head past the end
  of the array: \<open>statfs\<close> has no defined result.
\<close>

theorem gas_count_free_inodes_overrun:
  assumes "kernel_bitops K" and "iam_wf s" and "sb_blocksize s = 4096"
    and "unat (s_ninodes (sbi s)) = BITS_PER_BLOCK * unat (s_iam_blocks (sbi s))"
    and "BITS_PER_BLOCK * (unat (s_iam_blocks (sbi s)) + 2) \<le> 2 ^ 32"
  shows "gas_count_free_inodes K s = None"
proof -
  let ?sb = "sbi s"
  have len: "length (s_iam_bh ?sb) = unat (s_iam_blocks ?sb)" using assms(2) by (simp add: iam_wf_def)
  have bits: "unat (s_ninodes ?sb + 1) = BITS_PER_BLOCK * unat (s_iam_blocks ?sb) + 1"
    using assms(5) by (subst unat_add_lem [THEN iffD1]) (simp_all add: assms(4))
  have "unat ((s_ninodes ?sb + 1 + word_of_nat (4096 * 8) - 1) div word_of_nat (4096 * 8)) = unat (s_iam_blocks ?sb) + 1"
    by (subst map_blocks_of_bits) (use assms(5) in \<open>simp_all only: bits\<close>, simp_all)
  then show ?thesis
    unfolding gas_count_free_inodes_def count_free_def Let_def assms(3)
    by (simp add: kernel_bitops.count_free_maps_beyond [OF assms(1)] len)
qed

theorem gas_count_free_inodes_overrun_witness:
  "gas_count_free_inodes makefs_bitops
     (example_volume\<lparr>sbi := example_sb\<lparr>s_inode_blocks := 512, s_ninodes := 32768, s_nblocks := 131072\<rparr>\<rparr>) = None"
  by (rule gas_count_free_inodes_overrun [OF makefs.kernel_bitops_axioms])
    (simp_all add: iam_wf_def example_sb_def example_volume_def example_fs_def)

end
