(* ===== verification/Gas_Itree.thy ===== *)
theory Gas_Itree
  imports Kern_Bitmap
begin

text \<open>
  The block tree of a file (\<^verbatim>\<open>src/kern/gas_itree.c\<close>, \<^verbatim>\<open>gas_itree.h\<close>): six direct addresses and
  a single, a double and a triple indirect block. Finding the disk block of a file block, growing
  the tree on demand, and freeing the part of it beyond the end of the file.

  A pointer \<open>block_t *\<close> into the tree is a \<open>slot\<close>: an entry of the inode's own array, an entry
  of a buffer, or a local variable of the caller (whose later contents nobody reads).
  The lock \<open>pointers_lock\<close> is not modelled: each function runs without interference. The checks
  that detect interference (\<open>verify_chain\<close>, \<open>EAGAIN\<close>, reread) are kept.
\<close>

section \<open>Kernel services\<close>

text \<open>
  \<open>block_truncate_page s ino from\<close> zeroes the rest of the page that holds the end of the file.
\<close>

record itree_services = alloc_services +
  block_truncate_page :: "fs \<Rightarrow> nat \<Rightarrow> nat \<Rightarrow> fs"

abbreviation (input) DIRCOUNT :: nat where "DIRCOUNT \<equiv> 6"
abbreviation (input) DIRECT :: nat where "DIRECT \<equiv> 6"
abbreviation (input) DEPTH :: nat where "DEPTH \<equiv> 4"

definition INDIRCOUNT :: "fs \<Rightarrow> nat" where
  "INDIRCOUNT s = push_bit (sb_blocksize_bits s - 2) 1"

section \<open>Pointers into the tree\<close>

datatype slot = Inode_slot nat nat | Block_slot nat nat | Local_slot u32

fun get_slot :: "fs \<Rightarrow> slot \<Rightarrow> u32" where
  "get_slot s (Inode_slot ino i) = blkaddr (icache s ino) i"
| "get_slot s (Block_slot b i) = get_le32 (bufs s b) (4 * i)"
| "get_slot s (Local_slot v) = v"

fun put_slot :: "slot \<Rightarrow> u32 \<Rightarrow> fs \<Rightarrow> fs" where
  "put_slot (Inode_slot ino i) v s = upd_inode ino (\<lambda>n. n\<lparr>blkaddr := (blkaddr n)(i := v)\<rparr>) s"
| "put_slot (Block_slot b i) v s = set_buf b (put_le32 (bufs s b) (4 * i) v) s"
| "put_slot (Local_slot _) v s = s"

record Indirect =
  ind_p :: slot
  ind_key :: u32
  ind_bh :: "nat option"

text \<open>\<open>block_end\<close>: one past the last entry of a buffer; \<open>block_slots b i\<close> are the entries from
  index \<open>i\<close> up to it.\<close>

definition block_end :: "fs \<Rightarrow> nat" where
  "block_end s = sb_blocksize s div 4"

definition block_slots :: "fs \<Rightarrow> nat \<Rightarrow> nat \<Rightarrow> slot list" where
  "block_slots s b i = map (Block_slot b) [i..<block_end s]"

text \<open>\<open>p->p--\<close>\<close>

fun slot_pred :: "slot \<Rightarrow> slot" where
  "slot_pred (Inode_slot ino i) = Inode_slot ino (i - 1)"
| "slot_pred (Block_slot b i) = Block_slot b (i - 1)"
| "slot_pred (Local_slot v) = Local_slot v"

text \<open>The entries of the buffer before and after the one pointed to.\<close>

fun slots_before :: "slot \<Rightarrow> slot list" where
  "slots_before (Block_slot b i) = map (Block_slot b) [0..<i]"
| "slots_before _ = []"

fun slots_after :: "fs \<Rightarrow> slot \<Rightarrow> slot list" where
  "slots_after s (Block_slot b i) = block_slots s b (i + 1)"
| "slots_after s _ = []"

section \<open>Paths and branches\<close>

text \<open>The offsets written by \<^verbatim>\<open>block_to_path\<close>; their number is its result.\<close>

definition block_to_path :: "fs \<Rightarrow> int \<Rightarrow> nat list" where
  "block_to_path s blk =
     (if blk < 0 then []
      else if int (unat (s_nblocks (sbi s))) \<le> blk then []
      else let blk = nat blk; n = INDIRCOUNT s
           in if blk < DIRCOUNT then [blk]
              else let blk = blk - DIRCOUNT
                   in if blk < n then [DIRCOUNT, blk]
                      else let blk = blk - n
                           in if blk < n * n then [DIRCOUNT + 1, blk div n, blk mod n]
                              else let blk = blk - n * n
                                   in [DIRCOUNT + 2, (blk div n) div n, (blk div n) mod n, blk mod n])"

definition add_chain :: "fs \<Rightarrow> nat option \<Rightarrow> slot \<Rightarrow> Indirect" where
  "add_chain s b v = \<lparr>ind_p = v, ind_key = get_slot s v, ind_bh = b\<rparr>"

definition verify_chain :: "fs \<Rightarrow> Indirect list \<Rightarrow> bool" where
  "verify_chain s chain \<longleftrightarrow> (\<forall>q\<in>set chain. ind_key q = get_slot s (ind_p q))"

text \<open>
  \<^verbatim>\<open>get_branch\<close> returns whether the branch is complete (a null pointer in C), the chain filled in so
  far, whose last element is the result \<open>partial\<close>, and the error.
\<close>

fun get_branch_loop :: "'k itree_services_scheme \<Rightarrow> fs \<Rightarrow> Indirect list \<Rightarrow> nat list \<Rightarrow> bool \<times> Indirect list \<times> err" where
  "get_branch_loop K s chain [] = (True, chain, None)"
| "get_branch_loop K s chain (off # offsets) =
     (let b = unat (ind_key (last chain))
      in case sb_bread K (bufs s) b of
           None \<Rightarrow> (False, chain, Some EIO)
         | Some _ \<Rightarrow>
             if \<not> verify_chain s chain then (False, chain, Some EAGAIN)
             else let q = add_chain s (Some b) (Block_slot b off)
                  in if ind_key q = 0 then (False, chain @ [q], None)
                     else get_branch_loop K s (chain @ [q]) offsets)"

definition get_branch :: "'k itree_services_scheme \<Rightarrow> fs \<Rightarrow> nat \<Rightarrow> nat \<Rightarrow> nat list \<Rightarrow> bool \<times> Indirect list \<times> err" where
  "get_branch K s ino depth offsets =
     (let q = add_chain s None (Inode_slot ino (hd offsets))
      in if ind_key q = 0 then (False, [q], None)
         else get_branch_loop K s [q] (take (depth - 1) (tl offsets)))"

section \<open>Growing the tree\<close>

text \<open>An \<open>int\<close> holding a block number, passed to \<open>sb_getblk\<close> as a 64-bit \<open>sector_t\<close>.\<close>

definition int_to_sector :: "u32 \<Rightarrow> nat" where
  "int_to_sector n = unat (scast n :: u64)"

text \<open>
  The loop of \<^verbatim>\<open>alloc_branch\<close>: \<open>parent\<close> is the block allocated last, \<open>branch\<close> the elements completed.
  The outcome says whether all \<open>num\<close> blocks were allocated.
\<close>

fun alloc_branch_loop :: "'k itree_services_scheme \<Rightarrow> fs \<Rightarrow> u32 \<Rightarrow> nat list \<Rightarrow> Indirect list \<Rightarrow> (bool \<times> Indirect list \<times> fs) option" where
  "alloc_branch_loop K s parent [] branch = Some (True, branch, s)"
| "alloc_branch_loop K s parent (off # offsets) branch =
     (case gas_new_block K s of
        None \<Rightarrow> None
      | Some (blk, _, s) \<Rightarrow>
          let nr = word_of_nat blk
          in if nr = 0 then Some (False, branch, s)
             else let b = int_to_sector parent;
                      s = set_buf b (memset (bufs s b) 0 (sb_blocksize s)) s;
                      q = \<lparr>ind_p = Block_slot b off, ind_key = nr, ind_bh = Some b\<rparr>;
                      s = put_slot (ind_p q) (ind_key q) s;
                      s = mark_buffer_dirty b s
                  in alloc_branch_loop K s nr offsets (branch @ [q]))"

fun bforget_all :: "Indirect list \<Rightarrow> fs \<Rightarrow> fs" where
  "bforget_all [] s = s"
| "bforget_all (q # qs) s = bforget_all qs (case ind_bh q of None \<Rightarrow> s | Some b \<Rightarrow> bforget b s)"

fun free_keys :: "'k bitops_scheme \<Rightarrow> Indirect list \<Rightarrow> fs \<Rightarrow> fs" where
  "free_keys K [] s = s"
| "free_keys K (q # qs) s = free_keys K qs (gas_free_block K s (unat (ind_key q)))"

definition alloc_branch :: "'k itree_services_scheme \<Rightarrow> fs \<Rightarrow> nat list \<Rightarrow> Indirect \<Rightarrow> (err \<times> Indirect list \<times> fs) option" where
  "alloc_branch K s offsets partial =
     (case gas_new_block K s of
        None \<Rightarrow> None
      | Some (blk, _, s) \<Rightarrow>
          let parent = word_of_nat blk; first = partial\<lparr>ind_key := parent\<rparr>
          in if parent = 0 then Some (Some ENOSPC, [first], s)
             else (case alloc_branch_loop K s parent (tl offsets) [first] of
                     None \<Rightarrow> None
                   | Some (ok, branch, s) \<Rightarrow>
                       if ok then Some (None, branch, s)
                       else Some (Some ENOSPC, branch, free_keys K branch (bforget_all (tl branch) s))))"

definition splice_branch :: "'k itree_services_scheme \<Rightarrow> fs \<Rightarrow> nat \<Rightarrow> Indirect list \<Rightarrow> Indirect list \<Rightarrow> err \<times> fs" where
  "splice_branch K s ino before branch =
     (let whr = hd branch
      in if \<not> verify_chain s before \<or> get_slot s (ind_p whr) \<noteq> 0
         then (Some EAGAIN, free_keys K branch (bforget_all (tl branch) s))
         else let s = put_slot (ind_p whr) (ind_key whr) s;
                  s = upd_inode ino (\<lambda>n. n\<lparr>i_ctime := current_time_sec K\<rparr>) s;
                  s = (case ind_bh whr of None \<Rightarrow> s | Some b \<Rightarrow> mark_buffer_dirty b s)
              in (None, mark_inode_dirty ino s))"

text \<open>
  \<^verbatim>\<open>gas_get_block\<close>: the error, the buffer mapping (the disk block if mapped, and whether it is new),
  and the state. \<open>goto reread\<close> is the recursive call; a run that rereads for ever has result \<open>None\<close>.
\<close>

partial_function (option) get_block_reread ::
  "'k itree_services_scheme \<Rightarrow> nat \<Rightarrow> nat list \<Rightarrow> bool \<Rightarrow> fs \<Rightarrow> (err \<times> (nat \<times> bool) option \<times> fs) option" where
  "get_block_reread K ino offsets create s =
     (case get_branch K s ino (length offsets) offsets of
        (found, chain, e) \<Rightarrow>
          if found then Some (e, Some (unat (ind_key (last chain)), False), s)
          else if \<not> create \<or> e = Some EIO then Some (e, None, s)
          else if e = Some EAGAIN then get_block_reread K ino offsets create s
          else let before = butlast chain
               in case alloc_branch K s (drop (length before) offsets) (last chain) of
                    None \<Rightarrow> None
                  | Some (e, branch, s) \<Rightarrow>
                      if e \<noteq> None then Some (e, None, s)
                      else (case splice_branch K s ino before branch of
                              (e', s) \<Rightarrow>
                                if e' \<noteq> None then get_block_reread K ino offsets create s
                                else Some (e, Some (unat (ind_key (last branch)), True), s)))"

definition gas_get_block :: "'k itree_services_scheme \<Rightarrow> fs \<Rightarrow> nat \<Rightarrow> u64 \<Rightarrow> bool \<Rightarrow> (err \<times> (nat \<times> bool) option \<times> fs) option" where
  "gas_get_block K s ino blk create =
     (let offsets = block_to_path s (sint blk)
      in if offsets = [] then Some (Some EIO, None, s)
         else get_block_reread K ino offsets create s)"

section \<open>Shrinking the tree\<close>

definition all_zeroes :: "fs \<Rightarrow> slot list \<Rightarrow> bool" where
  "all_zeroes s slots \<longleftrightarrow> (\<forall>q\<in>set slots. get_slot s q = 0)"

text \<open>\<open>for (k = depth; k > 1 && !offsets[k - 1]; k--)\<close>\<close>

fun shared_depth :: "nat list \<Rightarrow> nat \<Rightarrow> nat" where
  "shared_depth offsets k = (if 1 < k \<and> offsets ! (k - 1) = 0 then shared_depth offsets (k - 1) else k)"

text \<open>\<open>while (p > chain && all_zeroes((block_t *)p->bh->b_data, p->p)) p--\<close>, on the chain reversed.\<close>

fun shared_up :: "fs \<Rightarrow> Indirect list \<Rightarrow> Indirect list" where
  "shared_up s (q # q' # qs) = (if all_zeroes s (slots_before (ind_p q)) then shared_up s (q' # qs) else q # q' # qs)"
| "shared_up s qs = qs"

text \<open>\<^verbatim>\<open>find_shared\<close>: the chain up to the result \<open>partial\<close>, the detached subtree \<open>top\<close> and the state.\<close>

definition find_shared :: "'k itree_services_scheme \<Rightarrow> fs \<Rightarrow> nat \<Rightarrow> nat list \<Rightarrow> Indirect list \<times> u32 \<times> fs" where
  "find_shared K s ino offsets =
     (let k = shared_depth offsets (length offsets);
          (_, chain, _) = get_branch K s ino k offsets;
          partial = last chain
      in if ind_key partial = 0 \<and> get_slot s (ind_p partial) \<noteq> 0 then (chain, 0, s)
         else let up = shared_up s (rev chain); q = hd up
              in if length up = k \<and> 1 < length up
                 then (rev (q\<lparr>ind_p := slot_pred (ind_p q)\<rparr> # tl up), 0, s)
                 else (rev up, get_slot s (ind_p q), put_slot (ind_p q) 0 s))"

fun free_data :: "'k bitops_scheme \<Rightarrow> slot list \<Rightarrow> fs \<Rightarrow> fs" where
  "free_data K [] s = s"
| "free_data K (q # qs) s =
     (let nr = get_slot s q
      in if nr \<noteq> 0 then free_data K qs (gas_free_block K (put_slot q 0 s) (unat nr)) else free_data K qs s)"

fun free_branches :: "'k itree_services_scheme \<Rightarrow> nat \<Rightarrow> nat \<Rightarrow> slot list \<Rightarrow> fs \<Rightarrow> fs" where
  "free_branches K ino 0 qs s = free_data K qs s"
| "free_branches K ino (Suc depth) [] s = s"
| "free_branches K ino (Suc depth) (q # qs) s =
     (let nr = get_slot s q
      in if nr = 0 then free_branches K ino (Suc depth) qs s
         else let s = put_slot q 0 s
              in case sb_bread K (bufs s) (unat nr) of
                   None \<Rightarrow> free_branches K ino (Suc depth) qs s
                 | Some _ \<Rightarrow>
                     let s = free_branches K ino depth (block_slots s (unat nr) 0) s;
                         s = bforget (unat nr) s;
                         s = gas_free_block K s (unat nr)
                     in free_branches K ino (Suc depth) qs (mark_inode_dirty ino s))"

text \<open>\<open>while (--i && blocks > direct)\<close> with \<open>i\<close> already decremented.\<close>

fun gas_blocks_loop :: "fs \<Rightarrow> nat \<Rightarrow> u32 \<Rightarrow> u32 \<Rightarrow> u32 \<Rightarrow> u32" where
  "gas_blocks_loop s 0 blocks direct res = res"
| "gas_blocks_loop s (Suc i) blocks direct res =
     (if direct < blocks
      then let n = word_of_nat (sb_blocksize s div 4);
               blocks = (blocks - direct + (n - 1)) div n
           in gas_blocks_loop s i blocks 1 (res + blocks)
      else res)"

definition gas_blocks :: "nat \<Rightarrow> fs \<Rightarrow> u32" where
  "gas_blocks sz s =
     (let k = sb_blocksize_bits s - 10;
          blocks = word_of_nat (drop_bit (10 + k) (sz + sb_blocksize s - 1))
      in gas_blocks_loop s (DEPTH - 1) blocks 6 blocks)"

text \<open>\<open>while (partial > chain)\<close>: the ends of the indirect blocks on the shared branch, deepest first
  (the chain is reversed); \<open>n\<close> is the depth of the path.\<close>

fun clear_ends :: "'k itree_services_scheme \<Rightarrow> nat \<Rightarrow> nat \<Rightarrow> Indirect list \<Rightarrow> fs \<Rightarrow> fs" where
  "clear_ends K ino n (q # q' # qs) s =
     (let s = free_branches K ino (n - length (q # q' # qs)) (slots_after s (ind_p q)) s;
          s = (case ind_bh q of None \<Rightarrow> s | Some b \<Rightarrow> mark_buffer_dirty b s)
      in clear_ends K ino n (q' # qs) s)"
| "clear_ends K ino n _ s = s"

text \<open>\<open>do_indirects\<close>: the whole subtrees from \<open>first_whole\<close> on.\<close>

fun do_indirects :: "'k itree_services_scheme \<Rightarrow> nat \<Rightarrow> nat list \<Rightarrow> fs \<Rightarrow> fs" where
  "do_indirects K ino [] s = s"
| "do_indirects K ino (w # ws) s =
     (let nr = blkaddr (icache s ino) (DIRECT + w)
      in if nr \<noteq> 0
         then let s = put_slot (Inode_slot ino (DIRECT + w)) 0 s;
                  s = mark_inode_dirty ino s;
                  s = free_branches K ino (w + 1) [Local_slot nr] s
              in do_indirects K ino ws s
         else do_indirects K ino ws s)"

definition gas_truncate_inode :: "'k itree_services_scheme \<Rightarrow> fs \<Rightarrow> nat \<Rightarrow> fs" where
  "gas_truncate_inode K s ino =
     (let sz = i_size (icache s ino);
          iblock = drop_bit (sb_blocksize_bits s) (sz + sb_blocksize s - 1);
          s = block_truncate_page K s ino sz;
          offsets = block_to_path s (int iblock); n = length offsets
      in if n = 0 then s
         else let (first_whole, s) =
                    (if n = 1 then (0, free_data K (map (Inode_slot ino) [hd offsets..<DIRECT]) s)
                     else let (chain, nr, s) = find_shared K s ino offsets;
                              s = (if nr \<noteq> 0
                                   then let s = (if length chain = 1 then mark_inode_dirty ino s
                                                 else case ind_bh (last chain) of None \<Rightarrow> s | Some b \<Rightarrow> mark_buffer_dirty b s)
                                        in free_branches K ino (n - length chain) [Local_slot nr] s
                                   else s)
                          in (hd offsets + 1 - DIRECT, clear_ends K ino n (rev chain) s));
                  s = do_indirects K ino [first_whole..<DEPTH - 1] s;
                  now = current_time_sec K
              in mark_inode_dirty ino (upd_inode ino (\<lambda>i. i\<lparr>i_mtime := now, i_ctime := now\<rparr>) s))"

declare shared_depth.simps [simp del]

section \<open>The shape of paths\<close>

text \<open>The path of file block \<open>n\<close>: \<open>l\<close> numbers the lowest indirect blocks, \<open>m\<close> those above.\<close>

definition file_path :: "nat \<Rightarrow> nat list" where
  "file_path n =
     (if n < 6 then [n]
      else let l = (n - 6) div 1024; i = (n - 6) mod 1024
           in if l = 0 then [6, i]
              else let m = (l - 1) div 1024; j = (l - 1) mod 1024
                   in if m = 0 then [7, j, i] else [8, m - 1, j, i])"

abbreviation (input) max_blocks :: nat where "max_blocks \<equiv> 1074791430"

text \<open>A node of the tree is named by the path that leads to it; a data block by a path of full
  length.\<close>

fun node_path :: "nat list \<Rightarrow> bool" where
  "node_path [] = False"
| "node_path (r # os) \<longleftrightarrow> r < 9 \<and> length os \<le> r - 5 \<and> (\<forall>i\<in>set os. i < 1024)"

fun data_path :: "nat list \<Rightarrow> bool" where
  "data_path [] = False"
| "data_path (r # os) \<longleftrightarrow> r < 9 \<and> length os = r - 5 \<and> (\<forall>i\<in>set os. i < 1024)"

fun path_block :: "nat list \<Rightarrow> nat" where
  "path_block [n] = n"
| "path_block [_, i] = 6 + i"
| "path_block [_, j, i] = 6 + 1024 + 1024 * j + i"
| "path_block [_, k, j, i] = 6 + 1024 + 1024 * 1024 + 1024 * 1024 * k + 1024 * j + i"
| "path_block _ = 0"

lemma INDIRCOUNT_4096: "sb_blocksize_bits s = 12 \<Longrightarrow> INDIRCOUNT s = 1024"
  by (simp add: INDIRCOUNT_def push_bit_eq_mult)

lemma div_mod_minus:
  assumes "(k::nat) * d \<le> n" and "0 < d"
  shows "(n - k * d) div d = n div d - k" and "(n - k * d) mod d = n mod d"
proof -
  obtain j where "n = k * d + j" using assms(1) le_Suc_ex by blast
  with assms(2) show "(n - k * d) div d = n div d - k" "(n - k * d) mod d = n mod d" by simp_all
qed

lemma div_mod_split: "i < d \<Longrightarrow> (k * d + i) div d = k \<and> (k * d + i) mod d = (i::nat)"
  by simp

lemma block_to_path_eq:
  assumes "sb_blocksize_bits s = 12"
  shows "block_to_path s (int n) = (if n < unat (s_nblocks (sbi s)) then file_path n else [])"
proof (cases "n < 6")
  case True
  moreover have "\<not> int n < 0" "int (unat (s_nblocks (sbi s))) \<le> int n \<longleftrightarrow> \<not> n < unat (s_nblocks (sbi s))"
    by (simp_all only: of_nat_le_iff of_nat_less_0_iff not_less simp_thms)
  ultimately show ?thesis
    unfolding block_to_path_def file_path_def Let_def nat_int by (auto simp only: if_True if_False simp_thms split: if_split)
next
  case False
  define a where "a = n - 6"
  define l where "l = a div 1024"
  define i where "i = a mod 1024"
  have a: "a = 1024 * l + i" "i < 1024" by (simp_all add: l_def i_def)
  have l0: "a < 1024 \<longleftrightarrow> l = 0" using a by auto
  have m0: "a - 1024 < 1024 * 1024 \<longleftrightarrow> (l - 1) div 1024 = 0"
  proof -
    have "(l - 1) div 1024 = 0 \<longleftrightarrow> l - 1 < 1024" by auto
    moreover have "a - 1024 < 1024 * 1024 \<longleftrightarrow> l - 1 < 1024"
    proof (cases l)
      case 0
      then show ?thesis using a by simp
    next
      case (Suc k)
      then have e: "a - 1024 = k * 1024 + i" "l - 1 = k" using a(1) by simp_all
      show ?thesis
      proof
        assume "a - 1024 < 1024 * 1024"
        then have "(k * 1024 + i) div 1024 < 1024" unfolding e by (rule less_mult_imp_div_less)
        then show "l - 1 < 1024" by (simp only: e div_mod_split [OF a(2)])
      next
        assume "l - 1 < 1024"
        then have "(k + 1) * 1024 \<le> 1024 * 1024" unfolding e by (intro mult_le_mono1) simp
        then show "a - 1024 < 1024 * 1024" using a(2) by (simp add: e)
      qed
    qed
    ultimately show ?thesis by blast
  qed
  have d1: "(a - 1024) div 1024 = l - 1" "(a - 1024) mod 1024 = i" if "l \<noteq> 0"
  proof -
    have "1 * 1024 \<le> a" using that l0 by linarith
    from div_mod_minus [OF this] show "(a - 1024) div 1024 = l - 1" "(a - 1024) mod 1024 = i"
      by (simp_all add: l_def i_def)
  qed
  have d2: "(a - 1024 - 1024 * 1024) div 1024 = l - 1 - 1024" "(a - 1024 - 1024 * 1024) mod 1024 = i"
    if "(l - 1) div 1024 \<noteq> 0"
  proof -
    have "1024 \<le> l - 1" using that by (metis div_less not_le)
    then have "1025 * 1024 \<le> a" using a by linarith
    from div_mod_minus [OF this] show "(a - 1024 - 1024 * 1024) div 1024 = l - 1 - 1024"
      "(a - 1024 - 1024 * 1024) mod 1024 = i" by (simp_all add: l_def i_def)
  qed
  have d3: "(l - 1 - 1024) div 1024 = (l - 1) div 1024 - 1" "(l - 1 - 1024) mod 1024 = (l - 1) mod 1024"
    if "(l - 1) div 1024 \<noteq> 0"
  proof -
    have "1 * 1024 \<le> l - 1" using that by (metis div_less mult_1 not_le)
    from div_mod_minus [OF this] show "(l - 1 - 1024) div 1024 = (l - 1) div 1024 - 1"
      "(l - 1 - 1024) mod 1024 = (l - 1) mod 1024" by simp_all
  qed
  have nb: "\<not> int n < 0" "int (unat (s_nblocks (sbi s))) \<le> int n \<longleftrightarrow> \<not> n < unat (s_nblocks (sbi s))"
    by (simp_all only: of_nat_le_iff of_nat_less_0_iff not_less simp_thms)
  have t: "block_to_path s (int n) = (if n < unat (s_nblocks (sbi s))
      then if a < 1024 then [6, a]
        else if a - 1024 < 1024 * 1024 then [6 + 1, (a - 1024) div 1024, (a - 1024) mod 1024]
        else [6 + 2, (a - 1024 - 1024 * 1024) div 1024 div 1024, (a - 1024 - 1024 * 1024) div 1024 mod 1024,
          (a - 1024 - 1024 * 1024) mod 1024] else [])"
    unfolding block_to_path_def Let_def nat_int INDIRCOUNT_4096 [OF assms]
    by (cases "n < unat (s_nblocks (sbi s))")
      (simp_all only: nb False a_def [symmetric] if_False if_True simp_thms)
  have e: "file_path n = (if l = 0 then [6, i] else if (l - 1) div 1024 = 0 then [7, (l - 1) mod 1024, i]
      else [8, (l - 1) div 1024 - 1, (l - 1) mod 1024, i])"
    using False by (simp only: file_path_def Let_def a_def [symmetric] l_def [symmetric] i_def [symmetric] if_False)
  consider "l = 0" | "l \<noteq> 0" "(l - 1) div 1024 = 0" | "l \<noteq> 0" "(l - 1) div 1024 \<noteq> 0" by blast
  then show ?thesis
  proof cases
    case 1
    moreover from 1 have "a = i" using a by simp
    ultimately show ?thesis using a(2) by (simp only: t e simp_thms if_True)
  next
    case 2
    then have "(l - 1) mod 1024 = l - 1" by (metis div_less_dividend mod_less div_eq_0_iff zero_neq_numeral)
    with 2 show ?thesis by (simp only: t e l0 m0 d1 simp_thms if_True if_False) simp
  next
    case 3
    then show ?thesis by (simp only: t e l0 m0 d2 d3 simp_thms if_True if_False) simp
  qed
qed

lemma file_path_valid: "n < max_blocks \<Longrightarrow> data_path (file_path n)"
proof -
  assume n: "n < max_blocks"
  have "(n - 6) div 1024 \<le> 1024 + 1024 * 1024" using n by (simp add: div_le_mono [of "n - 6" "1074791423" 1024, simplified])
  then have "((n - 6) div 1024 - 1) div 1024 \<le> 1024"
    using div_le_mono [of "(n - 6) div 1024 - 1" "1024 + 1024 * 1024 - 1" 1024] by simp
  then have "((n - 6) div 1024 - 1) div 1024 - 1 < 1024" by linarith
  then show ?thesis by (auto simp: file_path_def Let_def simp del: div_eq_0_iff)
qed

lemma path_block_file_path: "path_block (file_path n) = n"
proof (cases "n < 6")
  case False
  define l where "l = (n - 6) div 1024"
  define m where "m = (l - Suc 0) div 1024"
  have n: "n = 6 + 1024 * l + (n - 6) mod 1024" using False by (simp add: l_def)
  have l: "l \<noteq> 0 \<Longrightarrow> l = 1 + 1024 * m + (l - Suc 0) mod 1024" by (simp add: m_def)
  consider "l = 0" | "l \<noteq> 0" "m = 0" | "l \<noteq> 0" "m \<noteq> 0" by blast
  then show ?thesis
  proof cases
    case 1
    then show ?thesis using False n by (simp add: file_path_def Let_def flip: l_def del: div_eq_0_iff)
  next
    case 2
    then show ?thesis using False n l by (simp add: file_path_def Let_def flip: l_def m_def del: div_eq_0_iff)
  next
    case 3
    then show ?thesis using False n l by (simp add: file_path_def Let_def flip: l_def m_def del: div_eq_0_iff)
  qed
qed (simp add: file_path_def)

lemma file_path_inj: "file_path m = file_path n \<Longrightarrow> m = n"
  by (metis path_block_file_path)

lemma file_path_single: "i < 1024 \<Longrightarrow> file_path (6 + i) = [6, i]"
  by (simp add: file_path_def)

lemma file_path_lower:
  assumes "i < 1024"
  shows "file_path (6 + (l * 1024 + i)) =
    (if l = 0 then [6, i] else let m = (l - 1) div 1024; j = (l - 1) mod 1024
     in if m = 0 then [7, j, i] else [8, m - 1, j, i])"
proof -
  have "6 + (l * 1024 + i) - 6 = l * 1024 + i" "\<not> 6 + (l * 1024 + i) < 6" by simp_all
  then show ?thesis
    unfolding file_path_def Let_def by (simp only: div_mod_split [OF assms] if_False)
qed

lemma file_path_double: "i < 1024 \<Longrightarrow> j < 1024 \<Longrightarrow> file_path (6 + ((1 + j) * 1024 + i)) = [7, j, i]"
  by (simp only: file_path_lower) (simp add: Let_def)

lemma file_path_triple:
  assumes "i < 1024" and "j < 1024"
  shows "file_path (6 + ((1 + ((1 + k) * 1024 + j)) * 1024 + i)) = [8, k, j, i]"
proof -
  have "1 + ((1 + k) * 1024 + j) - 1 = (1 + k) * 1024 + j" by simp
  then show ?thesis
    unfolding file_path_lower [OF assms(1)] Let_def by (simp only: div_mod_split [OF assms(2)]) simp
qed

lemma file_path_path_block: "data_path q \<Longrightarrow> file_path (path_block q) = q \<and> path_block q < max_blocks"
proof (induction q rule: path_block.induct)
  case (2 r i)
  then show ?case using file_path_single [of i] by auto
next
  case (3 r j i)
  then have b: "r = 7" "j < 1024" "i < 1024" by auto
  have "path_block [r, j, i] = 6 + ((1 + j) * 1024 + i)" by simp
  then have "file_path (path_block [r, j, i]) = [7, j, i]" using file_path_double [OF b(3,2)] by (simp only:)
  then show ?case using b by simp
next
  case (4 r k j i)
  then have b: "r = 8" "k < 1024" "j < 1024" "i < 1024" by auto
  have "path_block [r, k, j, i] = 6 + ((1 + ((1 + k) * 1024 + j)) * 1024 + i)" by simp
  then have "file_path (path_block [r, k, j, i]) = [8, k, j, i]" using file_path_triple [OF b(4,3)] by (simp only:)
  then show ?case using b by simp
qed (auto simp: file_path_def)

section \<open>The mapping a tree represents\<close>

text \<open>
  \<open>bmap s ino q\<close> is the block number stored at the end of path \<open>q\<close>, 0 if some pointer on the way is
  0. A node of the tree of \<open>ino\<close> is a path with a non-zero \<open>bmap\<close>.
\<close>

fun walk :: "(nat \<Rightarrow> block) \<Rightarrow> u32 \<Rightarrow> nat list \<Rightarrow> u32" where
  "walk bf v [] = v"
| "walk bf v (i # os) = (if v = 0 then 0 else walk bf (get_le32 (bf (unat v)) (4 * i)) os)"

definition bmap :: "fs \<Rightarrow> nat \<Rightarrow> nat list \<Rightarrow> u32" where
  "bmap s ino q = (case q of [] \<Rightarrow> 0 | r # os \<Rightarrow> walk (bufs s) (blkaddr (icache s ino) r) os)"

lemma walk_0 [simp]: "walk bf 0 os = 0"
  by (cases os) auto

lemma walk_snoc: "walk bf v (os @ [i]) = (let w = walk bf v os in if w = 0 then 0 else get_le32 (bf (unat w)) (4 * i))"
  by (induction os arbitrary: v) (auto simp: Let_def)

lemma bmap_single [simp]: "bmap s ino [r] = blkaddr (icache s ino) r"
  by (simp add: bmap_def)

lemma bmap_snoc:
  "q \<noteq> [] \<Longrightarrow> bmap s ino (q @ [i]) =
     (if bmap s ino q = 0 then 0 else get_le32 (bufs s (unat (bmap s ino q))) (4 * i))"
  by (cases q) (simp_all add: bmap_def walk_snoc Let_def)

lemma bmap_prefix: "bmap s ino (q @ r) \<noteq> 0 \<Longrightarrow> q \<noteq> [] \<Longrightarrow> bmap s ino q \<noteq> 0"
proof (induction r rule: rev_induct)
  case (snoc i r)
  then have "bmap s ino ((q @ r) @ [i]) \<noteq> 0" by simp
  with snoc show ?case by (metis append_is_Nil_conv bmap_snoc)
qed simp

lemma data_path_node: "data_path q \<Longrightarrow> node_path q"
  by (cases q) auto

lemma node_path_prefix: "node_path (q @ r) \<Longrightarrow> q \<noteq> [] \<Longrightarrow> node_path q"
  by (cases q) auto

lemma node_path_take: "node_path q \<Longrightarrow> 0 < n \<Longrightarrow> node_path (take n q)"
  by (metis append_take_drop_id node_path.simps(1) node_path_prefix take_eq_Nil not_gr_zero)

text \<open>
  Ownership: over the inodes \<open>I\<close>, every node is a busy block of the data zone, and no block is a node
  twice.
\<close>

definition tree_wf :: "nat set \<Rightarrow> fs \<Rightarrow> bool" where
  "tree_wf I s \<longleftrightarrow>
     (\<forall>ino\<in>I. \<forall>q. node_path q \<longrightarrow> bmap s ino q \<noteq> 0 \<longrightarrow> unat (bmap s ino q) \<in> data_zone s \<inter> used_blocks s) \<and>
     (\<forall>ino\<in>I. \<forall>ino'\<in>I. \<forall>q q'. node_path q \<longrightarrow> node_path q' \<longrightarrow> bmap s ino q \<noteq> 0 \<longrightarrow>
        bmap s ino q = bmap s ino' q' \<longrightarrow> ino = ino' \<and> q = q')"

definition tree_blocks :: "fs \<Rightarrow> nat \<Rightarrow> nat set" where
  "tree_blocks s ino = {unat (bmap s ino q) |q. node_path q \<and> bmap s ino q \<noteq> 0}"

text \<open>Block size 4096, and block numbers that fit the \<open>int\<close> variables of \<^verbatim>\<open>alloc_branch\<close>.\<close>

definition tree_geom :: "fs \<Rightarrow> bool" where
  "tree_geom s \<longleftrightarrow> sb_blocksize s = 4096 \<and> sb_blocksize_bits s = 12 \<and> unat (s_nblocks (sbi s)) \<le> 2 ^ 31"

lemma tree_wf_node:
  "tree_wf I s \<Longrightarrow> ino \<in> I \<Longrightarrow> node_path q \<Longrightarrow> bmap s ino q \<noteq> 0 \<Longrightarrow>
     unat (bmap s ino q) \<in> data_zone s \<and> unat (bmap s ino q) \<in> used_blocks s"
  unfolding tree_wf_def by blast

lemma tree_wf_inj:
  "tree_wf I s \<Longrightarrow> ino \<in> I \<Longrightarrow> ino' \<in> I \<Longrightarrow> node_path q \<Longrightarrow> node_path q' \<Longrightarrow> bmap s ino q \<noteq> 0 \<Longrightarrow>
     bmap s ino q = bmap s ino' q' \<Longrightarrow> ino = ino' \<and> q = q'"
  unfolding tree_wf_def by blast

lemma tree_blocksI: "node_path q \<Longrightarrow> bmap s ino q \<noteq> 0 \<Longrightarrow> unat (bmap s ino q) \<in> tree_blocks s ino"
  unfolding tree_blocks_def by blast

lemma tree_wf_zone: "tree_wf I s \<Longrightarrow> ino \<in> I \<Longrightarrow> tree_blocks s ino \<subseteq> data_zone s \<inter> used_blocks s"
  unfolding tree_blocks_def using tree_wf_node by blast

lemma word_unat_eq: "unat (v :: 'a::len word) = unat w \<Longrightarrow> v = w"
  by (rule unsigned_word_eqI)

lemma tree_wf_disjoint: "tree_wf I s \<Longrightarrow> i \<in> I \<Longrightarrow> j \<in> I \<Longrightarrow> i \<noteq> j \<Longrightarrow> tree_blocks s i \<inter> tree_blocks s j = {}"
  unfolding tree_blocks_def using tree_wf_inj word_unat_eq by blast

lemma layout_zone:
  assumes "layout_wf s" and "m \<in> set (s_bam_bh (sbi s)) \<union> set (s_iam_bh (sbi s))"
  shows "m \<notin> data_zone s"
proof -
  have "m < unat (s_inode_list_start (sbi s))" using assms unfolding layout_wf_def by blast
  moreover have "unat (s_inode_list_start (sbi s)) \<le> unat (s_data_block_start (sbi s))"
    using assms(1) by (simp add: layout_wf_def)
  ultimately show ?thesis by (simp add: data_zone_def)
qed

text \<open>The mapping depends only on the inode's addresses and on the entries of its own nodes.\<close>

lemma bmap_cong:
  assumes "\<And>r. r < 9 \<Longrightarrow> blkaddr (icache s' ino) r = blkaddr (icache s ino) r"
    and "\<And>b i. b \<in> tree_blocks s ino \<Longrightarrow> i < 1024 \<Longrightarrow> get_le32 (bufs s' b) (4 * i) = get_le32 (bufs s b) (4 * i)"
    and "node_path q"
  shows "bmap s' ino q = bmap s ino q"
  using assms(3)
proof (induction q rule: rev_induct)
  case (snoc i q)
  show ?case
  proof (cases "q = []")
    case True
    then show ?thesis using snoc.prems assms(1) by simp
  next
    case False
    then have q: "node_path q" using snoc.prems node_path_prefix by blast
    have "i < 1024" using snoc.prems False by (cases q) auto
    then show ?thesis
      using snoc.IH [OF q] False assms(2) [of "unat (bmap s ino q)" i] q
      by (auto simp: bmap_snoc tree_blocks_def)
  qed
qed simp

lemma tree_blocks_cong:
  assumes "\<And>q. node_path q \<Longrightarrow> bmap s' ino q = bmap s ino q"
  shows "tree_blocks s' ino = tree_blocks s ino"
  unfolding tree_blocks_def by (rule Collect_cong) (metis assms)

text \<open>What an allocation leaves alone, apart from buffers.\<close>

definition alloc_frame :: "fs \<Rightarrow> fs \<Rightarrow> bool" where
  "alloc_frame s s' \<longleftrightarrow> (\<exists>l. sbi s' = (sbi s)\<lparr>s_bam_last := l\<rparr>) \<and> pages s' = pages s \<and>
     sb_blocksize s' = sb_blocksize s \<and> sb_blocksize_bits s' = sb_blocksize_bits s"

lemma alloc_frame_refl [simp]: "alloc_frame s s"
  by (auto simp: alloc_frame_def intro: exI [of _ "s_bam_last (sbi s)"])

lemma alloc_frame_trans [trans]: "alloc_frame s s' \<Longrightarrow> alloc_frame s' s'' \<Longrightarrow> alloc_frame s s''"
  by (auto simp: alloc_frame_def)

lemma alloc_frame_simps:
  assumes "alloc_frame s s'"
  shows "data_zone s' = data_zone s" "s_bam_bh (sbi s') = s_bam_bh (sbi s)" "s_nblocks (sbi s') = s_nblocks (sbi s)"
    "tree_geom s' = tree_geom s" "layout_wf s' = layout_wf s" "s_iam_bh (sbi s') = s_iam_bh (sbi s)"
    "block_to_path s' = block_to_path s" "INDIRCOUNT s' = INDIRCOUNT s" "block_end s' = block_end s"
    "sb_blocksize s' = sb_blocksize s"
proof -
  obtain l where l: "sbi s' = (sbi s)\<lparr>s_bam_last := l\<rparr>" and b: "sb_blocksize s' = sb_blocksize s"
    "sb_blocksize_bits s' = sb_blocksize_bits s" using assms by (auto simp: alloc_frame_def)
  show "data_zone s' = data_zone s" "s_bam_bh (sbi s') = s_bam_bh (sbi s)" "s_nblocks (sbi s') = s_nblocks (sbi s)"
    "tree_geom s' = tree_geom s" "layout_wf s' = layout_wf s" "s_iam_bh (sbi s') = s_iam_bh (sbi s)"
    "INDIRCOUNT s' = INDIRCOUNT s" "block_end s' = block_end s" "sb_blocksize s' = sb_blocksize s"
    by (simp_all add: data_zone_def tree_geom_def layout_wf_def itable_wf_def INDIRCOUNT_def block_end_def l b)
  then show "block_to_path s' = block_to_path s" by (simp add: fun_eq_iff block_to_path_def)
qed

section \<open>Finding a branch\<close>

text \<open>Element \<open>j\<close> of the chain along path \<open>q\<close>.\<close>

definition chain_at :: "fs \<Rightarrow> nat \<Rightarrow> nat list \<Rightarrow> nat \<Rightarrow> Indirect" where
  "chain_at s ino q j =
     \<lparr>ind_p = (if j = 0 then Inode_slot ino (hd q) else Block_slot (unat (bmap s ino (take j q))) (q ! j)),
      ind_key = bmap s ino (take (Suc j) q),
      ind_bh = (if j = 0 then None else Some (unat (bmap s ino (take j q))))\<rparr>"

lemma ind_bh_chain_at [simp]: "ind_key (chain_at s ino q j) = bmap s ino (take (Suc j) q)"
  by (simp add: chain_at_def)

lemma bmap_take_Suc:
  "0 < j \<Longrightarrow> j < length q \<Longrightarrow> bmap s ino (take (Suc j) q) =
     (if bmap s ino (take j q) = 0 then 0 else get_le32 (bufs s (unat (bmap s ino (take j q)))) (4 * q ! j))"
proof -
  assume "0 < j" "j < length q"
  then have "take j q \<noteq> []" by auto
  with bmap_snoc [OF this, of s ino "q ! j"] show ?thesis
    using \<open>j < length q\<close> by (simp only: take_Suc_conv_app_nth)
qed

lemma get_slot_chain_at:
  assumes "j < length q" and "j = 0 \<or> bmap s ino (take j q) \<noteq> 0"
  shows "get_slot s (ind_p (chain_at s ino q j)) = bmap s ino (take (Suc j) q)"
  using assms by (cases "j = 0") (auto simp: chain_at_def bmap_take_Suc take_Suc hd_conv_nth)

lemma bmap_take_mono: "bmap s ino (take k q) \<noteq> 0 \<Longrightarrow> 0 < j \<Longrightarrow> j \<le> k \<Longrightarrow> bmap s ino (take j q) \<noteq> 0"
proof -
  assume a: "bmap s ino (take k q) \<noteq> 0" "0 < j" "j \<le> k"
  have "q \<noteq> []" using a(1) by (auto simp: bmap_def)
  then have "take j q \<noteq> []" using a(2) by simp
  moreover have "take k q = take j q @ drop j (take k q)"
    using a(3) append_take_drop_id [of j "take k q"] by (simp add: min_absorb1)
  ultimately show ?thesis using a(1) bmap_prefix by metis
qed

lemma verify_chain_at:
  assumes "m \<le> length q" and "m = 0 \<or> m = 1 \<or> bmap s ino (take (m - 1) q) \<noteq> 0"
  shows "verify_chain s (map (chain_at s ino q) [0..<m])"
  unfolding verify_chain_def
proof
  fix x
  assume "x \<in> set (map (chain_at s ino q) [0..<m])"
  then obtain j where j: "x = chain_at s ino q j" "j < m" by auto
  have "j = 0 \<or> bmap s ino (take j q) \<noteq> 0"
    using assms(2) j(2) bmap_take_mono [of s ino "m - 1" q j] by (cases "j = 0") auto
  then show "ind_key x = get_slot s (ind_p x)" using get_slot_chain_at [of j q s ino] j assms(1) by simp
qed

text \<open>
  The chain runs along the path up to the first missing node, or to the first buffer that cannot be
  read. Without interference \<open>EAGAIN\<close> does not occur.
\<close>

definition branch_end ::
  "'k itree_services_scheme \<Rightarrow> fs \<Rightarrow> nat \<Rightarrow> nat list \<Rightarrow> nat \<Rightarrow> bool \<Rightarrow> Indirect list \<Rightarrow> err \<Rightarrow> nat \<Rightarrow> bool" where
  "branch_end K s ino q d found chain e n \<longleftrightarrow>
    n \<le> d \<and> chain = map (chain_at s ino q) [0..<n] \<and> (n = 1 \<or> bmap s ino (take (n - 1) q) \<noteq> 0) \<and>
    (if found then n = d \<and> e = None \<and> bmap s ino (take d q) \<noteq> 0
     else e = None \<and> bmap s ino (take n q) = 0 \<or>
       e = Some EIO \<and> bmap s ino (take n q) \<noteq> 0 \<and> sb_bread K (bufs s) (unat (bmap s ino (take n q))) = None)"

lemma get_branch_loop_chain:
  assumes "get_branch_loop K s (map (chain_at s ino q) [0..<m]) (drop m (take d q)) = (found, chain, e)"
    and "0 < m" and "m \<le> d" and "d \<le> length q" and "bmap s ino (take m q) \<noteq> 0"
  shows "\<exists>n\<ge>m. branch_end K s ino q d found chain e n"
  using assms
proof (induction "d - m" arbitrary: m)
  case 0
  then show ?case
    using bmap_take_mono [of s ino m q "m - 1"] by (intro exI [of _ m]) (auto simp: branch_end_def)
next
  case (Suc k)
  then have m: "m < d" "m < length q" by auto
  have os: "drop m (take d q) = q ! m # drop (Suc m) (take d q)"
    using m Suc.prems by (simp add: Cons_nth_drop_Suc [symmetric])
  have lst: "last (map (chain_at s ino q) [0..<m]) = chain_at s ino q (m - 1)" using Suc.prems(2) by (simp add: last_map)
  have key: "ind_key (chain_at s ino q (m - 1)) = bmap s ino (take m q)" using Suc.prems(2) by simp
  have pre: "m = 1 \<or> bmap s ino (take (m - 1) q) \<noteq> 0"
    using bmap_take_mono [OF Suc.prems(5), of "m - 1"] Suc.prems(2) by (cases "m = 1") auto
  show ?case
  proof (cases "sb_bread K (bufs s) (unat (bmap s ino (take m q)))")
    case None
    then have "found = False" "chain = map (chain_at s ino q) [0..<m]" "e = Some EIO"
      using Suc.prems(1) unfolding os get_branch_loop.simps lst key Let_def by auto
    with None pre Suc.prems show ?thesis by (intro exI [of _ m]) (simp add: branch_end_def)
  next
    case (Some d0)
    have ver: "verify_chain s (map (chain_at s ino q) [0..<m])"
      by (rule verify_chain_at) (use m pre in auto)
    have next_q: "add_chain s (Some (unat (bmap s ino (take m q)))) (Block_slot (unat (bmap s ino (take m q))) (q ! m)) =
        chain_at s ino q m"
      using m(2) Suc.prems(2,5) by (simp add: add_chain_def chain_at_def bmap_take_Suc)
    have app: "map (chain_at s ino q) [0..<m] @ [chain_at s ino q m] = map (chain_at s ino q) [0..<Suc m]" by simp
    show ?thesis
    proof (cases "bmap s ino (take (Suc m) q) = 0")
      case True
      then have "found = False" "chain = map (chain_at s ino q) [0..<Suc m]" "e = None"
        using Suc.prems(1) Some ver unfolding os get_branch_loop.simps lst key next_q Let_def by auto
      with True m Suc.prems show ?thesis by (intro exI [of _ "Suc m"]) (simp add: branch_end_def)
    next
      case False
      have "get_branch_loop K s (map (chain_at s ino q) [0..<Suc m]) (drop (Suc m) (take d q)) = (found, chain, e)"
        using Suc.prems(1) Some ver False unfolding os get_branch_loop.simps lst key next_q Let_def app by simp
      moreover have "k = d - Suc m" "0 < Suc m" "Suc m \<le> d" using Suc.hyps(2) m by simp_all
      ultimately show ?thesis using Suc.hyps(1) [of "Suc m"] Suc.prems(4) False by (meson Suc_leD)
    qed
  qed
qed

lemma get_branch_chain:
  assumes "get_branch K s ino d q = (found, chain, e)" and "0 < d" and "d \<le> length q"
  shows "\<exists>n\<ge>1. branch_end K s ino q d found chain e n"
proof -
  have q: "q \<noteq> []" using assms by auto
  have c: "add_chain s None (Inode_slot ino (hd q)) = chain_at s ino q 0"
    using q by (cases q) (simp_all add: add_chain_def chain_at_def)
  have t: "take (d - 1) (tl q) = drop 1 (take d q)" using assms(2) q by (cases q; cases d) auto
  show ?thesis
  proof (cases "bmap s ino (take 1 q) = 0")
    case True
    then have "found = False" "chain = [chain_at s ino q 0]" "e = None"
      using assms(1) by (simp_all add: get_branch_def c)
    with True assms show ?thesis by (intro exI [of _ 1]) (simp add: branch_end_def)
  next
    case False
    then have "get_branch_loop K s (map (chain_at s ino q) [0..<1]) (drop 1 (take d q)) = (found, chain, e)"
      using assms(1) unfolding get_branch_def c t by simp
    from get_branch_loop_chain [OF this _ _ assms(3) False] assms(2) show ?thesis by simp
  qed
qed

section \<open>The services the tree relies on\<close>

text \<open>\<open>block_truncate_page\<close> touches nothing but pages of the file it is called for.\<close>

locale block_tree = inode_alloc K for K :: "'k itree_services_scheme" +
  assumes truncate_page: "block_truncate_page K s ino n = s\<lparr>pages := pages (block_truncate_page K s ino n)\<rparr>"
    and truncate_page_other: "i \<noteq> ino \<Longrightarrow> pages (block_truncate_page K s ino n) i = pages s i"

lemma used_blocks_cong:
  "s_bam_bh (sbi s') = s_bam_bh (sbi s) \<Longrightarrow> (\<And>m. m \<in> set (s_bam_bh (sbi s)) \<Longrightarrow> bufs s' m = bufs s m) \<Longrightarrow>
     used_blocks s' = used_blocks s"
  unfolding used_blocks_def by (simp, rule map_bits_cong, simp)

lemma alloc_inv_cong:
  assumes "sbi s' = sbi s" and "sb_blocksize_bits s' = sb_blocksize_bits s"
    and "\<And>m. m \<in> set (s_bam_bh (sbi s)) \<Longrightarrow> bufs s' m = bufs s m"
  shows "used_blocks s' = used_blocks s" and "alloc_inv s' = alloc_inv s" and "data_zone s' = data_zone s"
proof -
  show u: "used_blocks s' = used_blocks s" by (rule used_blocks_cong) (simp_all add: assms)
  show z: "data_zone s' = data_zone s" by (simp add: data_zone_def assms)
  show "alloc_inv s' = alloc_inv s" unfolding alloc_inv_def u z by (simp add: bam_wf_def bam_bits_def assms)
qed

lemma int_to_sector_small: "unat v < 2 ^ 31 \<Longrightarrow> int_to_sector v = unat v"
proof -
  assume v: "unat v < 2 ^ 31"
  have "\<not> bit (unat v) 31" using v by (simp add: bit_iff_odd)
  then have nb: "\<not> bit v 31" by (simp add: bit_unsigned_iff)
  have "(scast v :: u64) = ucast v"
  proof (rule bit_word_eqI)
    fix n
    show "n < LENGTH(64) \<Longrightarrow> bit (scast v :: u64) n \<longleftrightarrow> bit (ucast v :: u64) n"
      using nb by (cases "n < 31") (auto simp: bit_signed_iff bit_unsigned_iff min_def le_less dest: bit_imp_le_length)
  qed
  then show ?thesis by (simp add: int_to_sector_def unat_ucast_widen)
qed

lemma get_le32_memset: "i < 1024 \<Longrightarrow> get_le32 (memset b 0 4096) (4 * i) = 0"
  by (simp add: get_le32_def memset_def)

lemma get_le32_put_slot:
  "get_le32 (put_le32 b (4 * i) v) (4 * j) = (if i = j then v else get_le32 b (4 * j))"
  using le32.load_store_slot [where x = v and b = b and base = 0 and i = i and j = j] by simp

text \<open>A chain of blocks \<open>ks\<close> below block \<open>v\<close> along the offsets \<open>os\<close>: every block but the last has
  exactly one entry, the next block.\<close>

fun fresh_chain :: "(nat \<Rightarrow> block) \<Rightarrow> u32 \<Rightarrow> nat list \<Rightarrow> u32 list \<Rightarrow> bool" where
  "fresh_chain bf v os [] = True"
| "fresh_chain bf v [] (k # ks) = False"
| "fresh_chain bf v (i # os) (k # ks) \<longleftrightarrow>
     (\<forall>j<1024. get_le32 (bf (unat v)) (4 * j) = (if j = i then k else 0)) \<and> fresh_chain bf k os ks"

fun new_inds :: "u32 \<Rightarrow> nat list \<Rightarrow> u32 list \<Rightarrow> Indirect list" where
  "new_inds v (i # os) (k # ks) = \<lparr>ind_p = Block_slot (unat v) i, ind_key = k, ind_bh = Some (unat v)\<rparr> # new_inds k os ks"
| "new_inds v _ _ = []"

lemma fresh_chain_cong:
  "(\<And>m. m \<in> unat ` set (v # ks) \<Longrightarrow> bf' m = bf m) \<Longrightarrow> fresh_chain bf v os ks \<Longrightarrow> fresh_chain bf' v os ks"
  by (induction bf v os ks rule: fresh_chain.induct) auto

lemma map_ind_key_new_inds: "length ks \<le> length os \<Longrightarrow> map ind_key (new_inds v os ks) = ks"
  by (induction v os ks rule: new_inds.induct) auto

context block_tree
begin

lemma gas_new_block_step:
  assumes inv: "alloc_inv s" and lay: "layout_wf s" and geom: "tree_geom s"
    and r: "gas_new_block K s = Some (blk, e, s')"
  shows "alloc_frame s s'" "icache s' = icache s" "alloc_inv s'" "layout_wf s'" "tree_geom s'"
    "(word_of_nat blk :: u32) = 0 \<Longrightarrow> s' = s \<and> data_zone s \<subseteq> used_blocks s"
    "(word_of_nat blk :: u32) \<noteq> 0 \<Longrightarrow> unat (word_of_nat blk :: u32) = blk \<and> blk \<in> data_zone s - used_blocks s \<and>
       used_blocks s' = insert blk (used_blocks s) \<and> blk < 2 ^ 31"
    "\<And>m. m \<notin> set (s_bam_bh (sbi s)) \<Longrightarrow> bufs s' m = bufs s m"
proof -
  have wf: "bam_wf s" using inv by (simp add: alloc_inv_def)
  have all: "alloc_frame s s' \<and> icache s' = icache s \<and> alloc_inv s' \<and>
    ((word_of_nat blk :: u32) = 0 \<longrightarrow> s' = s \<and> data_zone s \<subseteq> used_blocks s) \<and>
    ((word_of_nat blk :: u32) \<noteq> 0 \<longrightarrow> unat (word_of_nat blk :: u32) = blk \<and> blk \<in> data_zone s - used_blocks s \<and>
       used_blocks s' = insert blk (used_blocks s) \<and> blk < 2 ^ 31) \<and>
    (\<forall>m. m \<notin> set (s_bam_bh (sbi s)) \<longrightarrow> bufs s' m = bufs s m)"
  proof (cases e)
    case None
    note f = gas_new_block_found [OF wf r [unfolded None]]
    note a = allocator.alloc_ok [OF inv r [unfolded None]]
    have z: "blk \<in> data_zone s" using a by blast
    then have b: "blk < 2 ^ 31" using geom by (simp add: data_zone_def tree_geom_def)
    then have "unat (word_of_nat blk :: u32) = blk" by (simp add: unat_word_of_nat)
    moreover have "blk \<noteq> 0" by (rule allocator.zone_pos [OF inv z])
    ultimately have "(word_of_nat blk :: u32) \<noteq> 0" by (metis unat_0)
    with a b f \<open>unat (word_of_nat blk :: u32) = blk\<close> show ?thesis
      by (auto simp: alloc_frame_def)
  next
    case (Some x)
    from allocator.alloc_fail [OF inv r [unfolded Some]] show ?thesis using inv by simp
  qed
  then show "alloc_frame s s'" "icache s' = icache s" "alloc_inv s'"
    "(word_of_nat blk :: u32) = 0 \<Longrightarrow> s' = s \<and> data_zone s \<subseteq> used_blocks s"
    "(word_of_nat blk :: u32) \<noteq> 0 \<Longrightarrow> unat (word_of_nat blk :: u32) = blk \<and> blk \<in> data_zone s - used_blocks s \<and>
       used_blocks s' = insert blk (used_blocks s) \<and> blk < 2 ^ 31"
    "\<And>m. m \<notin> set (s_bam_bh (sbi s)) \<Longrightarrow> bufs s' m = bufs s m" by blast+
  then show "layout_wf s'" "tree_geom s'" using alloc_frame_simps [of s s'] lay geom by simp_all
qed

end

lemma zone_not_bam: "layout_wf s \<Longrightarrow> b \<in> data_zone s \<Longrightarrow> b \<notin> set (s_bam_bh (sbi s))"
  using layout_zone by (metis UnI1)

text \<open>What allocating the chain \<open>ks\<close> below \<open>v\<close> does to the state.\<close>

definition grown :: "fs \<Rightarrow> fs \<Rightarrow> u32 \<Rightarrow> nat list \<Rightarrow> u32 list \<Rightarrow> bool" where
  "grown s s' v os ks \<longleftrightarrow> alloc_frame s s' \<and> icache s' = icache s \<and> alloc_inv s' \<and>
     used_blocks s' = used_blocks s \<union> unat ` set ks \<and> distinct ks \<and>
     unat ` set ks \<subseteq> data_zone s - used_blocks s \<and>
     (\<forall>m. m \<notin> set (s_bam_bh (sbi s)) \<longrightarrow> m \<notin> unat ` set (butlast (v # ks)) \<longrightarrow> bufs s' m = bufs s m) \<and>
     fresh_chain (bufs s') v os ks"

lemma grown_refl: "alloc_inv s \<Longrightarrow> grown s s v os []"
  by (simp add: grown_def)

lemma grown_step:
  assumes g: "grown s2 s' k os ks" and k: "unat k \<in> data_zone s - used_blocks s"
    and f: "alloc_frame s s1" "icache s1 = icache s" "used_blocks s1 = insert (unat k) (used_blocks s)"
      "\<And>m. m \<notin> set (s_bam_bh (sbi s)) \<Longrightarrow> bufs s1 m = bufs s m"
    and s2: "sbi s2 = sbi s1" "icache s2 = icache s1" "pages s2 = pages s1" "sb_blocksize s2 = sb_blocksize s1"
      "sb_blocksize_bits s2 = sb_blocksize_bits s1" "\<And>m. m \<noteq> unat v \<Longrightarrow> bufs s2 m = bufs s1 m"
    and v: "unat v \<in> data_zone s \<inter> used_blocks s"
    and zero: "\<And>j. j < 1024 \<Longrightarrow> get_le32 (bufs s2 (unat v)) (4 * j) = (if j = i then k else 0)"
    and lay: "layout_wf s"
  shows "grown s s' v (i # os) (k # ks)"
proof -
  have bam: "unat v \<notin> set (s_bam_bh (sbi s))" using zone_not_bam [OF lay] v by simp
  have af: "alloc_frame s s2" using f(1) s2 by (simp add: alloc_frame_def)
  note fs = alloc_frame_simps [OF f(1)] alloc_frame_simps [OF af]
  have u2: "used_blocks s2 = insert (unat k) (used_blocks s)"
    unfolding f(3) [symmetric]
  proof (rule used_blocks_cong)
    show "bufs s2 m = bufs s1 m" if "m \<in> set (s_bam_bh (sbi s1))" for m
      using that bam s2(6) [of m] fs(2) by auto
  qed (simp add: s2(1))
  from g have gs: "alloc_frame s2 s'" "icache s' = icache s2" "alloc_inv s'"
    "used_blocks s' = used_blocks s2 \<union> unat ` set ks" "distinct ks" "unat ` set ks \<subseteq> data_zone s2 - used_blocks s2"
    "\<And>m. m \<notin> set (s_bam_bh (sbi s2)) \<Longrightarrow> m \<notin> unat ` set (butlast (k # ks)) \<Longrightarrow> bufs s' m = bufs s2 m"
    "fresh_chain (bufs s') k os ks" by (simp_all add: grown_def)
  have kk: "unat ` set (k # ks) \<subseteq> data_zone s - used_blocks s" using gs(6) k u2 fs(11) by auto
  have frame: "bufs s' m = bufs s m" if "m \<notin> set (s_bam_bh (sbi s))" "m \<notin> unat ` set (butlast (v # k # ks))" for m
    using that gs(7) [of m] f(4) [of m] s2(6) [of m] fs(12) by simp
  have vk: "unat v \<notin> unat ` set (butlast (k # ks))"
  proof -
    have "set (butlast (k # ks)) \<subseteq> set (k # ks)" by (rule subsetI) (rule in_set_butlastD)
    then have "unat ` set (butlast (k # ks)) \<subseteq> data_zone s - used_blocks s"
      using kk image_mono by (metis (no_types) subset_trans)
    then show ?thesis using v by blast
  qed
  have "bufs s' (unat v) = bufs s2 (unat v)"
    by (rule gs(7)) (use bam fs(12) vk in simp_all)
  then have chain: "fresh_chain (bufs s') v (i # os) (k # ks)" using zero gs(8) by simp
  have used: "used_blocks s' = used_blocks s \<union> unat ` set (k # ks)" unfolding gs(4) u2 by auto
  have "unat k \<notin> unat ` set ks" using gs(6) u2 by blast
  then have dist: "distinct (k # ks)" using gs(5) by auto
  show ?thesis
    unfolding grown_def
    by (intro conjI allI impI alloc_frame_trans [OF af gs(1)] gs(3) used dist kk chain frame)
      (assumption | simp only: gs(2) s2(2) f(2))+
qed

context block_tree
begin

lemma alloc_branch_loop_grown:
  assumes "alloc_inv s" and "layout_wf s" and "tree_geom s"
    and "unat v \<in> data_zone s \<inter> used_blocks s" and "\<forall>i\<in>set os. i < 1024"
  shows "\<exists>ok ks s'. alloc_branch_loop K s v os branch = Some (ok, branch @ new_inds v os ks, s') \<and>
    length ks \<le> length os \<and> (ok \<longleftrightarrow> length ks = length os) \<and> grown s s' v os ks \<and>
    (\<not> ok \<longrightarrow> data_zone s' \<subseteq> used_blocks s')"
  using assms
proof (induction os arbitrary: s v branch)
  case Nil
  then show ?case by (intro exI [of _ True] exI [of _ "[]"] exI [of _ s]) (simp add: grown_refl)
next
  case (Cons i os)
  note inv = Cons.prems(1,2,3)
  obtain blk e s1 where r: "gas_new_block K s = Some (blk, e, s1)"
    using allocator.alloc_total [OF inv(1)] by (metis prod_cases3)
  note st = gas_new_block_step [OF inv r]
  define k :: u32 where "k = word_of_nat blk"
  show ?case
  proof (cases "k = 0")
    case True
    then have "s1 = s" "data_zone s \<subseteq> used_blocks s" using st(6) by (simp_all add: k_def)
    then show ?thesis using True r inv(1) unfolding k_def
      by (intro exI [of _ False] exI [of _ "[]"] exI [of _ s]) (simp add: grown_refl)
  next
    case False
    then have k: "unat k = blk" "unat k \<in> data_zone s - used_blocks s" "used_blocks s1 = insert (unat k) (used_blocks s)"
      using st(7) by (simp_all add: k_def)
    have v: "unat v < 2 ^ 31" using Cons.prems(3,4) by (simp add: data_zone_def tree_geom_def)
    define s2 where "s2 = mark_buffer_dirty (unat v) (put_slot (Block_slot (unat v) i) k
      (set_buf (unat v) (memset (bufs s1 (unat v)) 0 (sb_blocksize s1)) s1))"
    have s2: "sbi s2 = sbi s1" "icache s2 = icache s1" "pages s2 = pages s1" "sb_blocksize s2 = sb_blocksize s1"
      "sb_blocksize_bits s2 = sb_blocksize_bits s1" "\<And>m. m \<noteq> unat v \<Longrightarrow> bufs s2 m = bufs s1 m"
      by (simp_all add: s2_def)
    have fs: "data_zone s1 = data_zone s" "s_bam_bh (sbi s1) = s_bam_bh (sbi s)"
      using alloc_frame_simps [OF st(1)] by simp_all
    have "unat v \<notin> set (s_bam_bh (sbi s1))" using zone_not_bam [OF inv(2)] Cons.prems(4) fs by simp
    then have bam: "\<And>m. m \<in> set (s_bam_bh (sbi s1)) \<Longrightarrow> bufs s2 m = bufs s1 m" using s2(6) by metis
    note ac = alloc_inv_cong [of s2 s1, OF s2(1,5) bam]
    have inv2: "alloc_inv s2" "layout_wf s2" "tree_geom s2" "unat k \<in> data_zone s2 \<inter> used_blocks s2"
      using ac st(3-5) k fs(1) s2 by (auto simp: layout_wf_def itable_wf_def tree_geom_def)
    have bs: "sb_blocksize s1 = 4096" using st(5) by (simp add: tree_geom_def)
    have zero: "get_le32 (bufs s2 (unat v)) (4 * j) = (if j = i then k else 0)" if "j < 1024" for j
      using that by (simp add: s2_def get_le32_put_slot get_le32_memset bs)
    define q where "q = \<lparr>ind_p = Block_slot (unat v) i, ind_key = k, ind_bh = Some (unat v)\<rparr>"
    have e: "alloc_branch_loop K s v (i # os) branch = alloc_branch_loop K s2 k os (branch @ [q])"
      using r False by (simp add: k_def [symmetric] int_to_sector_small [OF v] s2_def q_def Let_def)
    have "\<forall>i\<in>set os. i < 1024" using Cons.prems(5) by simp
    from Cons.IH [OF inv2 this, of "branch @ [q]"] obtain ok ks s' where
      l: "alloc_branch_loop K s2 k os (branch @ [q]) = Some (ok, (branch @ [q]) @ new_inds k os ks, s')"
      and len: "length ks \<le> length os" "ok \<longleftrightarrow> length ks = length os" and g: "grown s2 s' k os ks"
      and full: "\<not> ok \<longrightarrow> data_zone s' \<subseteq> used_blocks s'"
      by blast
    note gs = grown_step [OF g k(2) st(1,2) k(3) st(8) s2 Cons.prems(4) zero inv(2)]
    have "alloc_branch_loop K s v (i # os) branch = Some (ok, branch @ new_inds v (i # os) (k # ks), s')"
      unfolding e l by (simp add: q_def)
    moreover have "length (k # ks) \<le> length (i # os)" "ok \<longleftrightarrow> length (k # ks) = length (i # os)"
      using len by simp_all
    ultimately show ?thesis using gs full by blast
  qed
qed

end

text \<open>The outcomes of \<^verbatim>\<open>alloc_branch\<close>: the chain \<open>ks\<close> is there but not yet linked, or everything is
  as before but for the contents of free blocks.\<close>

definition planted :: "fs \<Rightarrow> fs \<Rightarrow> nat list \<Rightarrow> u32 list \<Rightarrow> bool" where
  "planted s s' os ks \<longleftrightarrow> alloc_frame s s' \<and> icache s' = icache s \<and> alloc_inv s' \<and>
     used_blocks s' = used_blocks s \<union> unat ` set ks \<and> distinct ks \<and>
     unat ` set ks \<subseteq> data_zone s - used_blocks s \<and> length ks = Suc (length os) \<and>
     (\<forall>m. m \<notin> set (s_bam_bh (sbi s)) \<longrightarrow> m \<notin> unat ` set (butlast ks) \<longrightarrow> bufs s' m = bufs s m) \<and>
     fresh_chain (bufs s') (hd ks) os (tl ks)"

definition rolled_back :: "fs \<Rightarrow> fs \<Rightarrow> bool" where
  "rolled_back s s' \<longleftrightarrow> alloc_frame s s' \<and> icache s' = icache s \<and> alloc_inv s' \<and>
     used_blocks s' = used_blocks s \<and>
     (\<forall>m. m \<notin> set (s_bam_bh (sbi s)) \<longrightarrow> m \<notin> data_zone s - used_blocks s \<longrightarrow> bufs s' m = bufs s m)"

lemma bforget_all_simps [simp]:
  "bufs (bforget_all qs s) = bufs s" "sbi (bforget_all qs s) = sbi s" "icache (bforget_all qs s) = icache s"
  "pages (bforget_all qs s) = pages s" "sb_blocksize (bforget_all qs s) = sb_blocksize s"
  "sb_blocksize_bits (bforget_all qs s) = sb_blocksize_bits s"
  by (induction qs arbitrary: s) (auto split: option.splits)

lemma free_keys_foldl: "free_keys K qs s = foldl (gas_free_block K) s (map (\<lambda>q. unat (ind_key q)) qs)"
  by (induction qs arbitrary: s) auto

lemma rolled_back_refl: "alloc_inv s \<Longrightarrow> rolled_back s s"
  by (simp add: rolled_back_def)

context block_tree
begin

lemma free_list_frame:
  assumes "alloc_inv s"
  shows "alloc_frame s (foldl (gas_free_block K) s ns) \<and> icache (foldl (gas_free_block K) s ns) = icache s \<and>
    (\<forall>m. m \<notin> set (s_bam_bh (sbi s)) \<longrightarrow> bufs (foldl (gas_free_block K) s ns) m = bufs s m)"
  using assms
proof (induction ns arbitrary: s)
  case (Cons n ns)
  have "alloc_inv (gas_free_block K s n)" using Cons.prems by (rule allocator.release_inv)
  moreover have "bam_wf s" using Cons.prems by (simp add: alloc_inv_def)
  moreover have "alloc_frame s (gas_free_block K s n)"
    by (auto simp: alloc_frame_def gas_free_block_frame intro: exI [of _ "s_bam_last (sbi s)"])
  ultimately show ?case
    using Cons.IH [of "gas_free_block K s n"] by (auto simp: gas_free_block_frame intro: alloc_frame_trans)
qed simp

lemma roll_back:
  assumes "planted s s1 os ks" and "map ind_key qs = ks" and "layout_wf s"
  shows "rolled_back s (free_keys K qs (bforget_all rs s1))"
proof -
  define s2 where "s2 = bforget_all rs s1"
  have pl: "alloc_frame s s1" "icache s1 = icache s" "alloc_inv s1" "used_blocks s1 = used_blocks s \<union> unat ` set ks"
    "unat ` set ks \<subseteq> data_zone s - used_blocks s"
    "\<And>m. m \<notin> set (s_bam_bh (sbi s)) \<Longrightarrow> m \<notin> unat ` set (butlast ks) \<Longrightarrow> bufs s1 m = bufs s m"
    using assms(1) by (simp_all add: planted_def)
  have c: "used_blocks s2 = used_blocks s1" "alloc_inv s2 = alloc_inv s1" "data_zone s2 = data_zone s1"
    by (rule alloc_inv_cong; simp add: s2_def)+
  have z: "data_zone s1 = data_zone s" "s_bam_bh (sbi s1) = s_bam_bh (sbi s)"
    using alloc_frame_simps [OF pl(1)] by simp_all
  define ns where "ns = map (\<lambda>q. unat (ind_key q)) qs"
  have ns: "set ns = unat ` set ks" using assms(2) by (auto simp: ns_def)
  then have sub: "set ns \<subseteq> data_zone s2" using pl(5) z c(3) by auto
  have inv2: "alloc_inv s2" using c(2) pl(3) by simp
  note rl = allocator.release_list [OF inv2 sub] and fl = free_list_frame [OF inv2, of ns]
  have af: "alloc_frame s s2" using pl(1) by (simp add: alloc_frame_def s2_def)
  have "used_blocks (foldl (gas_free_block K) s2 ns) = used_blocks s"
    using rl ns c(1) pl(4,5) by auto
  moreover have "bufs (foldl (gas_free_block K) s2 ns) m = bufs s m"
    if "m \<notin> set (s_bam_bh (sbi s))" "m \<notin> data_zone s - used_blocks s" for m
  proof -
    have "m \<notin> unat ` set (butlast ks)" using that(2) pl(5) by (auto dest: in_set_butlastD)
    then show ?thesis using fl that pl(6) z by (simp add: s2_def)
  qed
  ultimately show ?thesis
    unfolding rolled_back_def free_keys_foldl s2_def [symmetric] ns_def [symmetric]
    using rl fl alloc_frame_trans [OF af] pl(2) by (auto simp: s2_def)
qed

lemma alloc_branch_outcome:
  assumes inv: "alloc_inv s" "layout_wf s" "tree_geom s" and off: "\<forall>i\<in>set (tl offsets). i < 1024"
  shows "(\<exists>ks s'. alloc_branch K s offsets partial =
        Some (None, partial\<lparr>ind_key := hd ks\<rparr> # new_inds (hd ks) (tl offsets) (tl ks), s') \<and> planted s s' (tl offsets) ks) \<or>
    (\<exists>branch s'. alloc_branch K s offsets partial = Some (Some ENOSPC, branch, s') \<and> rolled_back s s' \<and>
       card (data_zone s - used_blocks s) \<le> length (tl offsets))"
proof -
  obtain blk e s1 where r: "gas_new_block K s = Some (blk, e, s1)"
    using allocator.alloc_total [OF inv(1)] by (metis prod_cases3)
  note st = gas_new_block_step [OF inv r]
  define k :: u32 where "k = word_of_nat blk"
  show ?thesis
  proof (cases "k = 0")
    case True
    then have "s1 = s" "card (data_zone s - used_blocks s) = 0"
      using st(6) by (simp_all add: k_def Diff_eq_empty_iff [THEN iffD2])
    then show ?thesis using r True rolled_back_refl [OF inv(1)]
      by (simp add: alloc_branch_def Let_def flip: k_def)
  next
    case False
    then have k: "unat k = blk" "unat k \<in> data_zone s - used_blocks s" "used_blocks s1 = insert (unat k) (used_blocks s)"
      using st(7) by (simp_all add: k_def)
    have k1: "unat k \<in> data_zone s1 \<inter> used_blocks s1" using k alloc_frame_simps(1) [OF st(1)] by simp
    from alloc_branch_loop_grown [OF st(3,4,5) k1 off, of "[partial\<lparr>ind_key := k\<rparr>]"] obtain ok ks s2 where
      l: "alloc_branch_loop K s1 k (tl offsets) [partial\<lparr>ind_key := k\<rparr>] =
        Some (ok, [partial\<lparr>ind_key := k\<rparr>] @ new_inds k (tl offsets) ks, s2)"
      and len: "length ks \<le> length (tl offsets)" "ok \<longleftrightarrow> length ks = length (tl offsets)"
      and g: "grown s1 s2 k (tl offsets) ks" and full: "\<not> ok \<longrightarrow> data_zone s2 \<subseteq> used_blocks s2" by blast
    define os where "os = take (length ks) (tl offsets)"
    have fc: "fresh_chain bf v xs ks \<Longrightarrow> fresh_chain bf v (take (length ks) xs) ks" for bf v xs
      by (induction bf v xs ks rule: fresh_chain.induct) auto
    have pl: "planted s s2 os (k # ks)"
    proof -
      have fs: "data_zone s1 = data_zone s" "s_bam_bh (sbi s1) = s_bam_bh (sbi s)"
        using alloc_frame_simps [OF st(1)] by simp_all
      have gs: "alloc_frame s1 s2" "icache s2 = icache s1" "alloc_inv s2" "used_blocks s2 = used_blocks s1 \<union> unat ` set ks"
        "distinct ks" "unat ` set ks \<subseteq> data_zone s1 - used_blocks s1" "fresh_chain (bufs s2) k (tl offsets) ks"
        "\<And>m. m \<notin> set (s_bam_bh (sbi s)) \<Longrightarrow> m \<notin> unat ` set (butlast (k # ks)) \<Longrightarrow> bufs s2 m = bufs s m"
        using g fs(2) st(8) by (simp_all add: grown_def)
      have "used_blocks s2 = used_blocks s \<union> unat ` set (k # ks)" using gs(4) k(3) by auto
      moreover have "unat ` set (k # ks) \<subseteq> data_zone s - used_blocks s" using gs(6) k fs(1) by auto
      moreover have "unat k \<notin> unat ` set ks" using gs(6) k(3) by blast
      then have "distinct (k # ks)" using gs(5) by auto
      moreover have "length (k # ks) = Suc (length os)" using len(1) by (simp add: os_def)
      ultimately show ?thesis
        unfolding planted_def
        using alloc_frame_trans [OF st(1) gs(1)] gs(2,3,8) st(2) fc [OF gs(7)] by (simp add: os_def)
    qed
    show ?thesis
    proof (cases ok)
      case True
      then have "os = tl offsets" using len by (simp add: os_def)
      then show ?thesis using r l pl True False
        by (intro disjI1 exI [of _ "k # ks"] exI [of _ s2]) (simp add: alloc_branch_def Let_def flip: k_def)
    next
      case notok: False
      define qs where "qs = partial\<lparr>ind_key := k\<rparr> # new_inds k (tl offsets) ks"
      have "alloc_branch K s offsets partial = Some (Some ENOSPC, qs, free_keys K qs (bforget_all (tl qs) s2))"
        using r l notok False by (simp add: alloc_branch_def Let_def qs_def flip: k_def)
      moreover have mk: "map ind_key qs = k # ks" using len(1) by (simp add: qs_def map_ind_key_new_inds)
      moreover from roll_back [OF pl mk inv(2), of "tl qs"]
      have "rolled_back s (free_keys K qs (bforget_all (tl qs) s2))" .
      moreover have "card (data_zone s - used_blocks s) \<le> length (tl offsets)"
      proof -
        have "data_zone s - used_blocks s \<subseteq> unat ` set (k # ks)"
          using full notok pl alloc_frame_simps(1) [of s s2] by (auto simp: planted_def)
        then have "card (data_zone s - used_blocks s) \<le> card (unat ` set (k # ks))" by (rule card_mono [rotated]) simp
        also have "\<dots> \<le> length (k # ks)" by (metis card_length image_set length_map)
        also have "\<dots> \<le> length (tl offsets)" using len notok by simp
        finally show ?thesis .
      qed
      ultimately show ?thesis by blast
    qed
  qed
qed

end

section \<open>Linking the new chain\<close>

lemma fresh_chain_nth:
  "fresh_chain bf v os ks \<Longrightarrow> i < length ks \<Longrightarrow> j < 1024 \<Longrightarrow>
     get_le32 (bf (unat ((v # ks) ! i))) (4 * j) = (if j = os ! i then ks ! i else 0)"
proof (induction bf v os ks arbitrary: i rule: fresh_chain.induct)
  case (3 bf v i' os k ks)
  then show ?case by (cases i) auto
qed auto

lemma bmap_eqI:
  assumes "bufs s' = bufs s" and "blkaddr (icache s' ino) = blkaddr (icache s ino)"
  shows "bmap s' ino q = bmap s ino q"
  by (cases q) (simp_all add: bmap_def assms)

lemma node_path_length: "node_path q' \<Longrightarrow> data_path q \<Longrightarrow> hd q' = hd q \<Longrightarrow> length q' \<le> length q"
  by (cases q'; cases q) auto

text \<open>Paths on the way to \<open>q\<close>, from length \<open>n\<close> on: the nodes that linking adds.\<close>

definition on_way :: "nat list \<Rightarrow> nat \<Rightarrow> nat list \<Rightarrow> bool" where
  "on_way q n r \<longleftrightarrow> n \<le> length r \<and> r = take (length r) q"

lemma on_way_snoc:
  assumes "length r < length q"
  shows "on_way q n (r @ [i]) \<longleftrightarrow> n \<le> Suc (length r) \<and> r = take (length r) q \<and> i = q ! length r"
  using assms by (auto simp: on_way_def take_Suc_conv_app_nth)

lemma linked_bmap:
  assumes wf: "tree_wf I s" and ino: "ino \<in> I" and q: "data_path q" and n: "1 \<le> n" "n \<le> length q"
    and hole: "bmap s ino (take n q) = 0" and above: "n = 1 \<or> bmap s ino (take (n - 1) q) \<noteq> 0"
    and pl: "planted s s1 (drop n q) ks" and lay: "layout_wf s"
    and s2: "s2 = put_slot (ind_p (chain_at s ino q (n - 1))) (hd ks) s1"
    and ino': "ino' \<in> I" and r: "node_path r"
  shows "bmap s2 ino' r = (if ino' = ino \<and> on_way q n r then ks ! (length r - n) else bmap s ino' r)"
proof -
  have ks: "unat ` set ks \<subseteq> data_zone s - used_blocks s" "length ks = Suc (length q - n)"
    "fresh_chain (bufs s1) (hd ks) (drop n q) (tl ks)" "icache s1 = icache s"
    "\<And>m. m \<notin> set (s_bam_bh (sbi s)) \<Longrightarrow> m \<notin> unat ` set (butlast ks) \<Longrightarrow> bufs s1 m = bufs s m"
    using pl by (simp_all add: planted_def)
  have hd_ks: "hd ks = ks ! 0" "(hd ks # tl ks) = ks" using ks(2) by (cases ks, simp_all)+
  have zinv: "\<And>b. b \<in> data_zone s \<Longrightarrow> b \<notin> set (s_bam_bh (sbi s))" using zone_not_bam [OF lay] .
  have old: "bufs s1 b = bufs s b" if "b \<in> data_zone s" "b \<in> used_blocks s" for b
    using ks(1,5) zinv that by (blast dest: in_set_butlastD)
  have qne: "q \<noteq> []" using q by auto
  define B where "B = unat (bmap s ino (take (n - 1) q))"
  have B: "B \<in> data_zone s" "B \<in> used_blocks s" if "n \<noteq> 1"
  proof -
    have "node_path (take (n - 1) q)" using node_path_take [OF data_path_node [OF q]] that n(1) by simp
    then show "B \<in> data_zone s" "B \<in> used_blocks s"
      using tree_wf_node [OF wf ino] above that by (auto simp: B_def)
  qed
  have slot: "s2 = (if n = 1 then put_slot (Inode_slot ino (hd q)) (hd ks) s1
      else put_slot (Block_slot B (q ! (n - 1))) (hd ks) s1)"
    using n(1) by (simp add: s2 chain_at_def B_def)
  have bufs_ks: "bufs s2 (unat (ks ! i)) = bufs s1 (unat (ks ! i))" if "i < length ks" for i
  proof (cases "n = 1")
    case False
    have "unat (ks ! i) \<notin> used_blocks s" using ks(1) that nth_mem by blast
    then show ?thesis using B [OF False] by (auto simp: slot)
  qed (simp add: slot)
  have nz: "ks ! i \<noteq> 0" if "i < length ks" for i
  proof
    assume "ks ! i = 0"
    moreover have "unat (ks ! i) \<in> data_zone s" using ks(1) nth_mem [OF that] by blast
    moreover have "data_zone s1 = data_zone s" "alloc_inv s1"
      using pl alloc_frame_simps(1) [of s s1] by (simp_all add: planted_def)
    ultimately show False using alloc_inv_zone_pos [of s1 "unat (ks ! i)"] by simp
  qed
  show ?thesis
    using r
  proof (induction r rule: rev_induct)
    case (snoc i r)
    show ?case
    proof (cases "r = []")
      case True
      have "on_way q n ([] @ [i]) \<longleftrightarrow> n = 1 \<and> i = hd q"
        using qne n on_way_snoc [of "[]" q n i] by (auto simp: hd_conv_nth)
      then show ?thesis using True hd_ks by (auto simp: slot ks(4))
    next
      case False
      then have node: "node_path r" using snoc.prems node_path_prefix by blast
      have i: "i < 1024" using snoc.prems False by (cases r) auto
      note IH = snoc.IH [OF node]
      show ?thesis
      proof (cases "ino' = ino \<and> on_way q n r")
        case True
        then have len: "length r < length q"
          using node_path_length [OF snoc.prems q] False by (cases r; cases q) (auto simp: on_way_def)
        have idx: "length r - n < length ks" "length r - n < length (tl ks)" "Suc (length r) - n = Suc (length r - n)"
          using len ks(2) True by (auto simp: on_way_def)
        have "bmap s ino r = 0"
          using True hole bmap_take_mono [of s ino "length r" q n] n(1) by (auto simp: on_way_def)
        moreover have "get_le32 (bufs s2 (unat (ks ! (length r - n)))) (4 * i) =
            (if i = drop n q ! (length r - n) then tl ks ! (length r - n) else 0)"
          unfolding bufs_ks [OF idx(1)]
          using fresh_chain_nth [OF ks(3) idx(2) i] hd_ks(2) by simp
        moreover have "drop n q ! (length r - n) = q ! length r" "tl ks ! (length r - n) = ks ! Suc (length r - n)"
          using True n(2) idx by (auto simp: on_way_def nth_tl)
        ultimately show ?thesis
          using IH True False nz [OF idx(1)] on_way_snoc [OF len, of n i] idx(3)
          by (auto simp: bmap_snoc on_way_def)
      next
        case noext: False
        then have eq: "bmap s2 ino' r = bmap s ino' r" using IH by (simp only: if_False)
        have link: "r = take (n - 1) q \<and> n \<noteq> 1" if "ino' = ino" "on_way q n (r @ [i])"
        proof -
          have "length r < length q"
            using that(2) by (metis Suc_le_lessD length_append_singleton length_take min.bounded_iff on_way_def order_refl)
          then have "n \<le> Suc (length r)" "r = take (length r) q" using that(2) by (simp_all add: on_way_snoc)
          moreover from this noext that(1) have "length r = n - 1" by (auto simp: on_way_def)
          ultimately show ?thesis using False by auto
        qed
        show ?thesis
        proof (cases "bmap s ino' r = 0")
          case True
          then show ?thesis using eq False link above by (auto simp: bmap_snoc)
        next
          case nonzero: False
          note b = tree_wf_node [OF wf ino' node nonzero]
          show ?thesis
          proof (cases "n \<noteq> 1 \<and> unat (bmap s ino' r) = B")
            case True
            then have "bmap s ino' r = bmap s ino (take (n - 1) q)" using word_unat_eq by (auto simp: B_def)
            moreover have "node_path (take (n - 1) q)" using node_path_take [OF data_path_node [OF q]] True n(1) by simp
            ultimately have same: "ino' = ino" "r = take (n - 1) q"
              using tree_wf_inj [OF wf ino' ino node _ nonzero] by blast+
            then have lr: "length r = n - 1" "length r < length q" using n by auto
            have "get_le32 (bufs s2 B) (4 * i) = (if i = q ! (n - 1) then hd ks else get_le32 (bufs s B) (4 * i))"
              using True old [OF B] by (auto simp: slot get_le32_put_slot)
            moreover have "on_way q n (r @ [i]) \<longleftrightarrow> i = q ! (n - 1)"
              using on_way_snoc [OF lr(2)] lr same n by auto
            ultimately show ?thesis
              using eq False nonzero True same lr n hd_ks(1) by (auto simp: bmap_snoc)
          next
            case other: False
            then have "\<not> (ino' = ino \<and> on_way q n (r @ [i]))" using link by (auto simp: B_def)
            moreover have "bufs s2 (unat (bmap s ino' r)) = bufs s (unat (bmap s ino' r))"
              using other old b by (auto simp: slot)
            ultimately show ?thesis using eq False nonzero by (auto simp: bmap_snoc)
          qed
        qed
      qed
    qed
  qed simp
qed

lemma planted_simps:
  assumes "planted s s1 os ks" and "layout_wf s" and "tree_geom s"
  shows "alloc_inv s1" "layout_wf s1" "tree_geom s1" "icache s1 = icache s" "data_zone s1 = data_zone s"
    "used_blocks s1 = used_blocks s \<union> unat ` set ks" "s_bam_bh (sbi s1) = s_bam_bh (sbi s)"
    "distinct ks" "unat ` set ks \<subseteq> data_zone s - used_blocks s" "length ks = Suc (length os)"
  using assms alloc_frame_simps [of s s1] by (auto simp: planted_def)

text \<open>Linking at a slot inside a node keeps the bitmaps.\<close>

lemma linked_alloc:
  assumes "tree_wf I s" and "ino \<in> I" and "data_path q" and "1 \<le> n" "n \<le> length q"
    and "n = 1 \<or> bmap s ino (take (n - 1) q) \<noteq> 0"
    and pl: "planted s s1 os ks" and lay: "layout_wf s" and geom: "tree_geom s"
    and s2: "s2 = put_slot (ind_p (chain_at s ino q (n - 1))) v s1"
  shows "alloc_inv s2" "used_blocks s2 = used_blocks s \<union> unat ` set ks" "data_zone s2 = data_zone s"
    "sbi s2 = sbi s1" "sb_blocksize s2 = sb_blocksize s1" "sb_blocksize_bits s2 = sb_blocksize_bits s1"
proof -
  note p = planted_simps [OF pl lay geom]
  have f: "sbi s2 = sbi s1" "sb_blocksize s2 = sb_blocksize s1" "sb_blocksize_bits s2 = sb_blocksize_bits s1"
    by (simp_all add: s2 chain_at_def)
  have "bufs s2 m = bufs s1 m" if m: "m \<in> set (s_bam_bh (sbi s1))" for m
  proof (cases "n = 1")
    case False
    have "node_path (take (n - 1) q)" using node_path_take [OF data_path_node] assms(3,4) False by simp
    then have "unat (bmap s ino (take (n - 1) q)) \<in> data_zone s"
      using tree_wf_node [OF assms(1,2)] assms(6) False by blast
    then have "m \<noteq> unat (bmap s ino (take (n - 1) q))" using zone_not_bam [OF lay] m p(7) by metis
    then show ?thesis using False assms(4) by (simp add: s2 chain_at_def)
  qed (simp add: s2 chain_at_def)
  from alloc_inv_cong [OF f(1,3) this] show "alloc_inv s2" "used_blocks s2 = used_blocks s \<union> unat ` set ks"
    "data_zone s2 = data_zone s" using p by simp_all
qed (simp_all add: s2 chain_at_def)

lemma linked_tree_wf:
  assumes wf: "tree_wf I s" and ino: "ino \<in> I" and q: "data_path q" and n: "1 \<le> n" "n \<le> length q"
    and hole: "bmap s ino (take n q) = 0" and above: "n = 1 \<or> bmap s ino (take (n - 1) q) \<noteq> 0"
    and pl: "planted s s1 (drop n q) ks" and lay: "layout_wf s" and geom: "tree_geom s"
    and s2: "s2 = put_slot (ind_p (chain_at s ino q (n - 1))) (hd ks) s1"
  shows "tree_wf I s2"
proof -
  note p = planted_simps [OF pl lay geom]
  note al = linked_alloc [OF wf ino q n above pl lay geom s2]
  note bm = linked_bmap [OF wf ino q n hole above pl lay s2]
  have idx: "length r - n < length ks" if "node_path r" "on_way q n r" for r
  proof -
    have "length r \<le> length q" using that(2) by (metis length_take min.cobounded1 on_way_def)
    then show ?thesis using p(10) that(2) by (simp add: on_way_def)
  qed
  have new: "unat (ks ! (length r - n)) \<in> data_zone s" "unat (ks ! (length r - n)) \<notin> used_blocks s"
    "unat (ks ! (length r - n)) \<in> unat ` set ks"
    if "node_path r" "on_way q n r" for r
    using p(9) nth_mem [OF idx [OF that]] by blast+
  show ?thesis
    unfolding tree_wf_def
  proof (intro conjI ballI allI impI)
    fix i r
    assume i: "i \<in> I" and r: "node_path r" and nz: "bmap s2 i r \<noteq> 0"
    show "unat (bmap s2 i r) \<in> data_zone s2 \<inter> used_blocks s2"
    proof (cases "i = ino \<and> on_way q n r")
      case True
      then show ?thesis using bm [OF i r] new [OF r] al by simp
    next
      case False
      then have "bmap s2 i r = bmap s i r" using bm [OF i r] by (simp only: if_False)
      then show ?thesis using tree_wf_node [OF wf i r] nz al by simp
    qed
  next
    have clash: False if "i \<in> I" "j \<in> I" "node_path r" "node_path r'" "bmap s2 i r = bmap s2 j r'" "bmap s2 i r \<noteq> 0"
      "i = ino \<and> on_way q n r" "\<not> (j = ino \<and> on_way q n r')" for i j r r'
    proof -
      have "bmap s2 j r' = bmap s j r'" using bm [OF that(2,4)] that(8) by (simp only: if_False)
      then have "unat (bmap s2 i r) \<in> used_blocks s" using tree_wf_node [OF wf that(2,4)] that(5,6) by simp
      then show False using bm [OF that(1,3)] that(3,7) new(2) [of r] by simp
    qed
    fix i j r r'
    assume a: "i \<in> I" "j \<in> I" "node_path r" "node_path r'" "bmap s2 i r \<noteq> 0" "bmap s2 i r = bmap s2 j r'"
    have b: "bmap s2 j r' \<noteq> 0" "bmap s2 j r' = bmap s2 i r" using a(5,6) by simp_all
    show "i = j" and "r = r'"
    proof -
      have "i = j \<and> r = r'"
      proof (cases "i = ino \<and> on_way q n r")
        case True
        then have True': "j = ino \<and> on_way q n r'" using clash [OF a(1,2,3,4,6,5)] by blast
        then have "ks ! (length r - n) = ks ! (length r' - n)" using bm [OF a(1,3)] bm [OF a(2,4)] True a(6) by simp
        then have "length r - n = length r' - n"
          using p(8) idx True True' a(3,4) by (simp add: nth_eq_iff_index_eq)
        then have "length r = length r'" using True True' by (auto simp: on_way_def)
        then show ?thesis using True True' unfolding on_way_def by metis
      next
        case False
        then have F': "\<not> (j = ino \<and> on_way q n r')" using clash [OF a(2,1,4,3) b(2,1)] by blast
        have "bmap s2 i r = bmap s i r" "bmap s2 j r' = bmap s j r'"
          using bm [OF a(1,3)] bm [OF a(2,4)] False F' by (simp_all only: if_False)
        with a(5,6) have "bmap s i r \<noteq> 0" "bmap s i r = bmap s j r'" by metis+
        from tree_wf_inj [OF wf a(1-4) this] show ?thesis .
      qed
      then show "i = j" "r = r'" by blast+
    qed
  qed
qed

lemma rolled_back_bmap:
  assumes "rolled_back s s'" and "tree_wf I s" and "ino \<in> I" and "node_path q" and "layout_wf s"
  shows "bmap s' ino q = bmap s ino q"
proof (rule bmap_cong [OF _ _ assms(4)])
  fix b i
  assume "b \<in> tree_blocks s ino"
  then have b: "b \<in> data_zone s" "b \<in> used_blocks s" using tree_wf_zone [OF assms(2,3)] by blast+
  then have "bufs s' b = bufs s b" using assms(1) zone_not_bam [OF assms(5)] by (simp add: rolled_back_def)
  then show "get_le32 (bufs s' b) (4 * i) = get_le32 (bufs s b) (4 * i)" by simp
qed (use assms(1) in \<open>simp add: rolled_back_def\<close>)

lemma tree_wf_cong:
  assumes wf: "tree_wf I s" and eq: "\<And>ino q. ino \<in> I \<Longrightarrow> node_path q \<Longrightarrow> bmap s' ino q = bmap s ino q"
    and "data_zone s' = data_zone s" and "used_blocks s \<subseteq> used_blocks s'"
  shows "tree_wf I s'"
  unfolding tree_wf_def
proof (intro conjI ballI allI impI)
  fix i q
  assume "i \<in> I" "node_path q" "bmap s' i q \<noteq> 0"
  then show "unat (bmap s' i q) \<in> data_zone s' \<inter> used_blocks s'"
    using tree_wf_node [OF wf, of i q] eq [of i q] assms(3,4) by auto
next
  fix i j q r
  assume a: "i \<in> I" "j \<in> I" "node_path q" "node_path r" "bmap s' i q \<noteq> 0" "bmap s' i q = bmap s' j r"
  then have "bmap s i q \<noteq> 0" "bmap s i q = bmap s j r" using eq [of i q] eq [of j r] by simp_all
  with tree_wf_inj [OF wf a(1-4)] show "i = j" "q = r" by blast+
qed

lemma hd_node_path: "node_path q \<Longrightarrow> hd q < 9"
  by (cases q) auto

section \<open>Correctness of \<^verbatim>\<open>gas_get_block\<close>\<close>

text \<open>No in-core inode changes but \<open>ino\<close>, and of that one only the addresses, the change time and
  the dirty mark.\<close>

definition only_tree :: "nat \<Rightarrow> fs \<Rightarrow> fs \<Rightarrow> bool" where
  "only_tree ino s s' \<longleftrightarrow> (\<forall>i. i \<noteq> ino \<longrightarrow> icache s' i = icache s i) \<and>
     icache s' ino = (icache s ino)\<lparr>i_ctime := i_ctime (icache s' ino), i_dirty := i_dirty (icache s' ino),
       blkaddr := blkaddr (icache s' ino)\<rparr>"

lemma only_tree_eq: "icache s' = icache s \<Longrightarrow> only_tree ino s s'"
  by (simp add: only_tree_def)

text \<open>
  The contract of looking up the block at path \<open>q\<close>, with or without \<open>create\<close>: error, mapping and new
  state.
\<close>

definition get_block_spec ::
  "'k itree_services_scheme \<Rightarrow> nat set \<Rightarrow> fs \<Rightarrow> nat \<Rightarrow> nat list \<Rightarrow> bool \<Rightarrow> err \<Rightarrow> (nat \<times> bool) option \<Rightarrow> fs \<Rightarrow> bool" where
  "get_block_spec K I s ino q create e m s' \<longleftrightarrow>
     alloc_inv s' \<and> layout_wf s' \<and> tree_geom s' \<and> tree_wf I s' \<and> alloc_frame s s' \<and> only_tree ino s s' \<and>
     (\<forall>n. n \<notin> data_zone s \<longrightarrow> n \<notin> set (s_bam_bh (sbi s)) \<longrightarrow> bufs s' n = bufs s n) \<and>
     (case m of
        None \<Rightarrow> (e = None \<and> \<not> create \<and> bmap s ino q = 0 \<or>
             e = Some EIO \<and> (\<exists>b\<in>used_blocks s. sb_bread K (bufs s) b = None) \<or>
             e = Some ENOSPC \<and> create \<and> card (data_zone s - used_blocks s) < length q) \<and>
          used_blocks s' = used_blocks s \<and> (\<forall>i\<in>I. \<forall>r. node_path r \<longrightarrow> bmap s' i r = bmap s i r)
      | Some (b, new) \<Rightarrow> e = None \<and> b = unat (bmap s' ino q) \<and> b \<in> data_zone s \<and>
          (\<forall>i\<in>I. \<forall>r. data_path r \<longrightarrow> (i, r) \<noteq> (ino, q) \<longrightarrow> bmap s' i r = bmap s i r) \<and>
          (if new then create \<and> bmap s ino q = 0 \<and> b \<notin> used_blocks s \<and>
             used_blocks s' = used_blocks s \<union> tree_blocks s' ino \<and>
             (tree_blocks s' ino - tree_blocks s ino) \<inter> used_blocks s = {} \<and>
             (\<forall>i\<in>I. \<forall>r. node_path r \<longrightarrow> bmap s i r \<noteq> 0 \<or> i \<noteq> ino \<longrightarrow> bmap s' i r = bmap s i r)
           else s' = s))"

lemma planted_bmap:
  assumes "planted s s1 os ks" and "tree_wf I s" and "ino \<in> I" and "node_path q" and "layout_wf s"
  shows "bmap s1 ino q = bmap s ino q"
proof (rule bmap_cong [OF _ _ assms(4)])
  fix b i
  assume "b \<in> tree_blocks s ino"
  then have b: "b \<in> data_zone s" "b \<in> used_blocks s" using tree_wf_zone [OF assms(2,3)] by blast+
  have "b \<notin> unat ` set (butlast ks)"
    using b(2) assms(1) unfolding planted_def by (blast dest: in_set_butlastD)
  then have "bufs s1 b = bufs s b" using assms(1) zone_not_bam [OF assms(5) b(1)] by (simp add: planted_def)
  then show "get_le32 (bufs s1 b) (4 * i) = get_le32 (bufs s b) (4 * i)" by simp
qed (use assms(1) in \<open>simp add: planted_def\<close>)

lemma data_path_on_way: "data_path r \<Longrightarrow> data_path q \<Longrightarrow> on_way q n r \<Longrightarrow> 1 \<le> n \<Longrightarrow> r = q"
  by (cases r; cases q) (auto simp: on_way_def)

lemma last_new_inds:
  assumes "length ks = Suc (length os)"
  shows "ind_key (last (w\<lparr>ind_key := hd ks\<rparr> # new_inds (hd ks) os (tl ks))) = last ks"
proof -
  have "map ind_key (w\<lparr>ind_key := hd ks\<rparr> # new_inds (hd ks) os (tl ks)) = hd ks # tl ks"
    using assms by (simp add: map_ind_key_new_inds)
  then show ?thesis
    using assms by (metis hd_Cons_tl last_map length_0_conv list.distinct(1) nat.distinct(1))
qed

context block_tree
begin

lemma splice_branch_links:
  assumes wf: "tree_wf I s" and ino: "ino \<in> I" and q: "data_path q" and n: "1 \<le> n" "n \<le> length q"
    and hole: "bmap s ino (take n q) = 0" and above: "n = 1 \<or> bmap s ino (take (n - 1) q) \<noteq> 0"
    and pl: "planted s s1 (drop n q) ks" and lay: "layout_wf s"
    and whr: "whr = (chain_at s ino q (n - 1))\<lparr>ind_key := hd ks\<rparr>"
  shows "\<exists>s3. splice_branch K s1 ino (map (chain_at s ino q) [0..<n - 1]) (whr # rest) = (None, s3) \<and>
    (let s2 = put_slot (ind_p (chain_at s ino q (n - 1))) (hd ks) s1
     in bufs s3 = bufs s2 \<and> sbi s3 = sbi s2 \<and> sb_blocksize s3 = sb_blocksize s2 \<and>
        sb_blocksize_bits s3 = sb_blocksize_bits s2 \<and> (\<forall>i. blkaddr (icache s3 i) = blkaddr (icache s2 i)) \<and>
        pages s3 = pages s1 \<and> only_tree ino s s3)"
proof -
  have same: "bmap s1 ino (take j q) = bmap s ino (take j q)" for j
  proof (cases "j = 0")
    case False
    then show ?thesis using planted_bmap [OF pl wf ino node_path_take [OF data_path_node [OF q]] lay] by simp
  qed (simp add: bmap_def)
  then have chain: "chain_at s1 ino q = chain_at s ino q" by (simp add: chain_at_def fun_eq_iff)
  have "verify_chain s1 (map (chain_at s1 ino q) [0..<n - 1])"
  proof (rule verify_chain_at)
    have "bmap s ino (take (n - 1 - 1) q) \<noteq> 0" if "n - 1 \<noteq> 0" "n - 1 \<noteq> 1"
      using above that bmap_take_mono [of s ino "n - 1" q "n - 1 - 1"] by linarith
    then show "n - 1 = 0 \<or> n - 1 = 1 \<or> bmap s1 ino (take (n - 1 - 1) q) \<noteq> 0" using same by auto
  qed (use n in simp)
  moreover have "get_slot s1 (ind_p (chain_at s ino q (n - 1))) = 0"
    using get_slot_chain_at [of "n - 1" q s1 ino] n above hole same by (simp add: chain)
  ultimately show ?thesis
    using n pl
    unfolding splice_branch_def chain Let_def
    by (auto simp: whr planted_def only_tree_def chain_at_def split: option.split)
qed

lemma get_block_reread_spec:
  assumes inv: "alloc_inv s" "layout_wf s" "tree_geom s" and wf: "tree_wf I s" and ino: "ino \<in> I" and q: "data_path q"
  shows "\<exists>e m s'. get_block_reread K ino q create s = Some (e, m, s') \<and> get_block_spec K I s ino q create e m s'"
proof -
  obtain found chain e where gb: "get_branch K s ino (length q) q = (found, chain, e)" by (metis prod_cases3)
  have lq: "0 < length q" using q by (cases q) auto
  obtain n where n: "1 \<le> n" and be: "branch_end K s ino q (length q) found chain e n"
    using get_branch_chain [OF gb lq order_refl] by blast
  have n': "n \<le> length q" and chain: "chain = map (chain_at s ino q) [0..<n]"
    and above: "n = 1 \<or> bmap s ino (take (n - 1) q) \<noteq> 0" using be by (simp_all add: branch_end_def)
  have lst: "last chain = chain_at s ino q (n - 1)" and bl: "butlast chain = map (chain_at s ino q) [0..<n - 1]"
    using n by (cases n; simp add: chain)+
  consider (found) "found" | (eio) "\<not> found" "e = Some EIO" | (plain) "\<not> found" "e = None" "\<not> create"
    | (create) "\<not> found" "e = None" "create"
    using be by (auto simp: branch_end_def split: if_splits)
  then show ?thesis
  proof cases
    case found
    then have b: "e = None" "n = length q" "bmap s ino q \<noteq> 0" using be by (simp_all add: branch_end_def)
    have "get_block_reread K ino q create s = Some (None, Some (unat (bmap s ino q), False), s)"
      by (subst get_block_reread.simps) (use n b found in \<open>simp add: gb lst\<close>)
    moreover have "get_block_spec K I s ino q create None (Some (unat (bmap s ino q), False)) s"
      using inv wf tree_wf_node [OF wf ino data_path_node [OF q] b(3)] by (simp add: get_block_spec_def only_tree_eq)
    ultimately show ?thesis by blast
  next
    case eio
    have "get_block_reread K ino q create s = Some (Some EIO, None, s)"
      by (subst get_block_reread.simps) (use eio in \<open>simp add: gb\<close>)
    moreover have "unat (bmap s ino (take n q)) \<in> used_blocks s" "sb_bread K (bufs s) (unat (bmap s ino (take n q))) = None"
    proof -
      have nz: "bmap s ino (take n q) \<noteq> 0" "sb_bread K (bufs s) (unat (bmap s ino (take n q))) = None"
        using be eio by (auto simp: branch_end_def)
      moreover have "node_path (take n q)" using node_path_take [OF data_path_node [OF q]] n by simp
      ultimately show "unat (bmap s ino (take n q)) \<in> used_blocks s"
        "sb_bread K (bufs s) (unat (bmap s ino (take n q))) = None" using tree_wf_node [OF wf ino] by blast+
    qed
    ultimately show ?thesis using inv wf by (auto simp: get_block_spec_def only_tree_eq)
  next
    case plain
    then have "bmap s ino (take n q) = 0" using be by (simp add: branch_end_def)
    then have "bmap s ino q = 0" using bmap_take_mono [of s ino "length q" q n] n n' by auto
    moreover have "get_block_reread K ino q create s = Some (None, None, s)"
      by (subst get_block_reread.simps) (use plain in \<open>simp add: gb\<close>)
    ultimately show ?thesis using inv wf plain by (auto simp: get_block_spec_def only_tree_eq)
  next
    case create
    then have hole: "bmap s ino (take n q) = 0" using be by (simp add: branch_end_def)
    have off: "tl (drop (n - 1) q) = drop n q" using n by (simp add: tl_drop drop_Suc [symmetric])
    have small: "\<forall>i\<in>set (drop n q). i < 1024"
    proof -
      have "set (drop n q) \<subseteq> set (tl q)" using n by (cases n) (simp_all add: drop_Suc set_drop_subset)
      then show ?thesis using q by (cases q) auto
    qed
    define before where "before = map (chain_at s ino q) [0..<n - 1]"
    have len_before: "length before = n - 1" by (simp add: before_def)
    have step: "get_block_reread K ino q create s =
      (case alloc_branch K s (drop (n - 1) q) (chain_at s ino q (n - 1)) of
         None \<Rightarrow> None
       | Some (e, branch, s) \<Rightarrow>
           if e \<noteq> None then Some (e, None, s)
           else (case splice_branch K s ino before branch of
                   (e', s) \<Rightarrow>
                     if e' \<noteq> None then get_block_reread K ino q create s
                     else Some (e, Some (unat (ind_key (last branch)), True), s)))"
      by (subst get_block_reread.simps) (use create in \<open>simp add: gb lst bl before_def [symmetric] len_before Let_def del: One_nat_def\<close>)
    from alloc_branch_outcome [OF inv, of "drop (n - 1) q" "chain_at s ino q (n - 1)"] small consider
      (ok) ks s1 where "alloc_branch K s (drop (n - 1) q) (chain_at s ino q (n - 1)) =
          Some (None, (chain_at s ino q (n - 1))\<lparr>ind_key := hd ks\<rparr> # new_inds (hd ks) (drop n q) (tl ks), s1)"
        "planted s s1 (drop n q) ks"
    | (full) branch s' where "alloc_branch K s (drop (n - 1) q) (chain_at s ino q (n - 1)) = Some (Some ENOSPC, branch, s')"
        "rolled_back s s'" "card (data_zone s - used_blocks s) \<le> length (drop n q)"
      unfolding off by blast
    then show ?thesis
    proof cases
      case full
      note same = rolled_back_bmap [OF full(2) wf _ _ inv(2)]
      have rb: "alloc_frame s s'" "alloc_inv s'" "used_blocks s' = used_blocks s" "icache s' = icache s"
        using full(2) by (simp_all add: rolled_back_def)
      have "tree_wf I s'" by (rule tree_wf_cong [OF wf same]) (use rb alloc_frame_simps [OF rb(1)] in simp_all)
      moreover have "card (data_zone s - used_blocks s) < length q" using full(3) n n' by simp
      ultimately have "get_block_spec K I s ino q create (Some ENOSPC) None s'"
        using same rb alloc_frame_simps [OF rb(1)] inv create full(2)
        by (simp add: get_block_spec_def only_tree_eq rolled_back_def)
      moreover have "get_block_reread K ino q create s = Some (Some ENOSPC, None, s')"
        unfolding step full(1) by simp
      ultimately show ?thesis by blast
    next
      case ok
      note pl = ok(2)
      note p = planted_simps [OF pl inv(2,3)]
      define s2 where "s2 = put_slot (ind_p (chain_at s ino q (n - 1))) (hd ks) s1"
      define rest where "rest = new_inds (hd ks) (drop n q) (tl ks)"
      obtain s3 where sp: "splice_branch K s1 ino (map (chain_at s ino q) [0..<n - 1])
          ((chain_at s ino q (n - 1))\<lparr>ind_key := hd ks\<rparr> # rest) = (None, s3)"
        and s3: "bufs s3 = bufs s2" "sbi s3 = sbi s2" "sb_blocksize s3 = sb_blocksize s2"
          "sb_blocksize_bits s3 = sb_blocksize_bits s2" "\<And>i. blkaddr (icache s3 i) = blkaddr (icache s2 i)"
          "pages s3 = pages s1" "only_tree ino s s3"
        using splice_branch_links [OF wf ino q n n' hole above pl inv(2) refl, of rest]
        unfolding s2_def Let_def by blast
      note bm3 = bmap_eqI [OF s3(1) s3(5)]
      note bm = linked_bmap [OF wf ino q n n' hole above pl inv(2) s2_def]
      note al = linked_alloc [OF wf ino q n n' above pl inv(2,3) s2_def]
      note al3 = alloc_inv_cong [of s3 s2, OF s3(2,4) fun_cong [OF s3(1)]]
      have wf3: "tree_wf I s3"
        by (rule tree_wf_cong [OF linked_tree_wf [OF wf ino q n n' hole above pl inv(2,3) s2_def] bm3]) (simp_all add: al3)
      have "alloc_frame s s3"
        using pl s3(2-4,6) al(4-6) by (simp add: planted_def alloc_frame_def)
      moreover have "layout_wf s3" "tree_geom s3"
        using p(2,3) s3 al(4-6) by (simp_all add: layout_wf_def itable_wf_def tree_geom_def)
      moreover have lk: "bmap s3 ino q = last ks"
      proof -
        have "on_way q n q" using n' by (simp add: on_way_def)
        then show ?thesis using bm [OF ino data_path_node [OF q]] p(10) n'
          by (simp add: bm3 last_conv_nth) (metis diff_Suc_1 last_conv_nth length_0_conv nat.distinct(1))
      qed
      moreover have "last ks \<in> set ks" using p(10) by (metis last_in_set length_0_conv nat.distinct(1))
      then have "unat (last ks) \<in> data_zone s" "unat (last ks) \<notin> used_blocks s" using p(9) by blast+
      moreover have "bmap s3 i r = bmap s i r" if "i \<in> I" "data_path r" "(i, r) \<noteq> (ino, q)" for i r
      proof -
        have "\<not> (i = ino \<and> on_way q n r)" using that data_path_on_way [OF that(2) q _ n] by blast
        then show ?thesis using bm [OF that(1) data_path_node [OF that(2)]] bm3 by (simp only: if_False)
      qed
      moreover have "bufs s3 m = bufs s m" if m: "m \<notin> data_zone s" "m \<notin> set (s_bam_bh (sbi s))" for m
      proof -
        have "unat ` set (butlast ks) \<subseteq> data_zone s" using p(9) by (blast dest: in_set_butlastD)
        then have b1: "bufs s1 m = bufs s m" using pl m unfolding planted_def by blast
        have "unat (bmap s ino (take (n - 1) q)) \<noteq> m" if "n \<noteq> 1"
          using tree_wf_node [OF wf ino node_path_take [OF data_path_node [OF q]], of "n - 1"] above n that m(1) by auto
        then show ?thesis using b1 n by (auto simp: s3(1) s2_def chain_at_def)
      qed
      moreover have "bmap s3 i r = bmap s i r" if "i \<in> I" "node_path r" "bmap s i r \<noteq> 0 \<or> i \<noteq> ino" for i r
      proof -
        have "\<not> (i = ino \<and> on_way q n r)"
          using that(3) bmap_take_mono [of s ino "length r" q n] n hole by (auto simp: on_way_def)
        then show ?thesis using bm [OF that(1,2)] bm3 by (simp only: if_False)
      qed
      moreover have "used_blocks s3 = used_blocks s \<union> tree_blocks s3 ino"
      proof -
        have "unat v \<in> tree_blocks s3 ino" if v: "v \<in> set ks" for v
        proof -
          obtain j where j: "j < length ks" "v = ks ! j" using v by (auto simp: in_set_conv_nth)
          have len: "n + j \<le> length q" using j(1) p(10) n' by simp
          then have np: "node_path (take (n + j) q)" using node_path_take [OF data_path_node [OF q]] n by simp
          have "on_way q n (take (n + j) q)" using len by (simp add: on_way_def min_absorb2)
          then have "bmap s3 ino (take (n + j) q) = v" using bm [OF ino np] len j by (simp add: bm3 min_absorb2)
          moreover have "unat v \<in> data_zone s" using v p(9) by blast
          then have "v \<noteq> 0" using alloc_inv_zone_pos [OF inv(1)] by (metis unat_0)
          ultimately show ?thesis using tree_blocksI [OF np, of s3 ino] by simp
        qed
        moreover have "tree_blocks s3 ino \<subseteq> used_blocks s3" using tree_wf_zone [OF wf3 ino] by blast
        ultimately show ?thesis using al(2) al3(1) by blast
      qed
      moreover have "(tree_blocks s3 ino - tree_blocks s ino) \<inter> used_blocks s = {}"
      proof -
        have "x \<in> tree_blocks s ino \<or> x \<notin> used_blocks s" if x: "x \<in> tree_blocks s3 ino" for x
        proof -
          obtain r where r: "x = unat (bmap s3 ino r)" "node_path r" "bmap s3 ino r \<noteq> 0" using x by (auto simp: tree_blocks_def)
          show ?thesis
          proof (cases "on_way q n r")
            case True
            have "r \<noteq> []" "q \<noteq> []" using r(2) q by auto
            then have "hd r = hd q" using True n by (cases r; cases q) (auto simp: on_way_def)
            then have "length r - n < length ks" using node_path_length [OF r(2) q] True p(10) n' by (auto simp: on_way_def)
            moreover have "bmap s3 ino r = ks ! (length r - n)" using bm [OF ino r(2)] bm3 True by simp
            ultimately have "bmap s3 ino r \<in> set ks" by simp
            then show ?thesis using p(9) r(1) by blast
          next
            case False
            then have "bmap s3 ino r = bmap s ino r" using bm [OF ino r(2)] bm3 by simp
            then show ?thesis using r tree_blocksI [OF r(2), of s ino] by simp
          qed
        qed
        then show ?thesis by blast
      qed
      moreover have "bmap s ino q = 0" using bmap_take_mono [of s ino "length q" q n] n n' hole by auto
      ultimately have "get_block_spec K I s ino q create None (Some (unat (last ks), True)) s3"
        using al al3 create s3(7) wf3 by (simp add: get_block_spec_def)
      moreover have "ind_key (last ((chain_at s ino q (n - 1))\<lparr>ind_key := hd ks\<rparr> # rest)) = last ks"
        unfolding rest_def by (rule last_new_inds) (simp add: p(10))
      then have "get_block_reread K ino q create s = Some (None, Some (unat (last ks), True), s3)"
        unfolding step ok(1) rest_def [symmetric] before_def by (simp add: sp del: One_nat_def)
      ultimately show ?thesis by blast
    qed
  qed
qed

end

context block_tree
begin

lemma get_block_reread_lookup:
  assumes "data_path q" and read: "\<And>n. sb_bread K (bufs s) n \<noteq> None"
  shows "get_block_reread K ino q False s =
    Some (None, if bmap s ino q = 0 then None else Some (unat (bmap s ino q), False), s)"
proof -
  obtain found chain e where gb: "get_branch K s ino (length q) q = (found, chain, e)" by (metis prod_cases3)
  have lq: "0 < length q" using assms(1) by (cases q) auto
  obtain n where n: "1 \<le> n" and be: "branch_end K s ino q (length q) found chain e n"
    using get_branch_chain [OF gb lq order_refl] by blast
  have e: "e = None"
    using be read [of "unat (bmap s ino (take n q))"] by (auto simp: branch_end_def split: if_splits)
  have lst: "ind_key (last chain) = bmap s ino (take n q)"
    using be n by (cases n) (simp_all add: branch_end_def)
  show ?thesis
  proof (cases found)
    case True
    then show ?thesis using be e lst by (subst get_block_reread.simps) (simp add: gb branch_end_def)
  next
    case False
    then have "bmap s ino (take n q) = 0" using be e by (auto simp: branch_end_def)
    moreover have "n \<le> length q" using be by (simp add: branch_end_def)
    ultimately have "bmap s ino q = 0" using bmap_take_mono [of s ino "length q" q n] n by auto
    then show ?thesis using False e by (subst get_block_reread.simps) (simp add: gb)
  qed
qed

end

lemma sint_small: "unat (b :: u64) < 2 ^ 63 \<Longrightarrow> sint b = int (unat b)"
proof -
  assume a: "unat b < 2 ^ 63"
  then have "\<not> bit (unat b) 63" by (simp add: bit_iff_odd)
  then have "\<not> bit b 63" by (simp add: bit_unsigned_iff)
  then have "\<not> bit (uint b) 63" by (simp add: bit_uint_iff)
  have "sint b = signed_take_bit 63 (uint b)" by (simp add: sint_uint)
  also have "\<dots> = take_bit 63 (uint b)" by (rule signed_take_bit_eq_if_positive) fact
  also have "\<dots> = uint b"
  proof (rule take_bit_int_eq_self)
    have "int (unat b) < int (2 ^ 63)" using a by (simp only: of_nat_less_iff)
    then show "uint b < 2 ^ 63" by simp
  qed simp
  finally have "sint b = uint b" .
  then show ?thesis by simp
qed

lemma gas_get_block_path:
  assumes "tree_geom s" and "unat blk < unat (s_nblocks (sbi s))"
  shows "gas_get_block K s ino blk create = get_block_reread K ino (file_path (unat blk)) create s"
proof -
  have "unat blk < 2 ^ 63" using assms by (simp add: tree_geom_def)
  then have "block_to_path s (sint blk) = file_path (unat blk)"
    using assms block_to_path_eq [of s "unat blk"] by (simp add: sint_small tree_geom_def)
  moreover have "file_path (unat blk) \<noteq> []" by (simp add: file_path_def Let_def)
  ultimately show ?thesis by (simp add: gas_get_block_def Let_def)
qed

section \<open>Reference services\<close>

definition ref_truncate_page :: "fs \<Rightarrow> nat \<Rightarrow> nat \<Rightarrow> fs" where
  "ref_truncate_page s ino from =
     (if from mod PAGE_CACHE_SIZE = 0 then s
      else set_page ino (from div PAGE_CACHE_SIZE)
        (\<lambda>p. if p < from mod PAGE_CACHE_SIZE then pages s ino (from div PAGE_CACHE_SIZE) p else 0) s)"

definition ref_tree_services :: itree_services where
  "ref_tree_services = alloc_services.extend ref_alloc_services (itree_services.fields ref_truncate_page)"

lemma ref_tree_services_simps [simp]:
  "find_first_zero_bit ref_tree_services = find_first_zero_bit makefs_bitops"
  "bit_set ref_tree_services = bit_set makefs_bitops"
  "test_and_clear_bit ref_tree_services = test_and_clear_bit makefs_bitops"
  "hweight16 ref_tree_services = hweight16 makefs_bitops"
  "sb_bread ref_tree_services bf n = Some (bf n)"
  "new_decode_dev ref_tree_services = ref_decode_dev" "new_encode_dev ref_tree_services = ref_encode_dev"
  "init_special_inode ref_tree_services = ref_special_inode"
  "new_inode ref_tree_services s = Some (ref_fresh_inode 0)"
  "inode_init_owner ref_tree_services = (\<lambda>i d m. i\<lparr>i_mode := m, i_uid := i_uid d, i_gid := i_gid d\<rparr>)"
  "block_truncate_page ref_tree_services = ref_truncate_page"
  by (simp_all add: ref_tree_services_def ref_alloc_services_def ref_inode_services_def bitops.extend_def
      inode_services.extend_def alloc_services.extend_def inode_services.fields_def alloc_services.fields_def
      itree_services.fields_def)

interpretation ref_tree: block_tree ref_tree_services
  by unfold_locales
    (auto simp: makefs.ffzb makefs.bit_set makefs.test_and_clear_old makefs.test_and_clear_new makefs.hweight
      ref_decode_encode ref_special_inode_def ref_fresh_inode_def ref_truncate_page_def set_page_def)

section \<open>Properties of the block tree\<close>

text \<open>
  C28. \<^verbatim>\<open>block_to_path\<close> gives every block below \<open>s_nblocks\<close> (and below the capacity of the tree,
  6 + 1024 + 1024^2 + 1024^3 blocks) a path of its own: the first offset selects an entry of the inode
  and so the depth, the other offsets lie inside an indirect block, and the path determines the block.
  Conversely every such path belongs to a block. Other block numbers are rejected.
\<close>

theorem block_to_path_bijective:
  assumes "sb_blocksize_bits s = 12" and "unat (s_nblocks (sbi s)) \<le> max_blocks"
  shows "(0 \<le> b \<and> b < int (unat (s_nblocks (sbi s))) \<longrightarrow>
      data_path (block_to_path s b) \<and> int (path_block (block_to_path s b)) = b) \<and>
    (\<not> (0 \<le> b \<and> b < int (unat (s_nblocks (sbi s)))) \<longrightarrow> block_to_path s b = []) \<and>
    (data_path q \<and> path_block q < unat (s_nblocks (sbi s)) \<longrightarrow> block_to_path s (int (path_block q)) = q)"
proof (intro conjI impI)
  assume b: "0 \<le> b \<and> b < int (unat (s_nblocks (sbi s)))"
  then obtain n where n: "b = int n" "n < unat (s_nblocks (sbi s))" by (metis nonneg_int_cases of_nat_less_iff)
  then show "data_path (block_to_path s b)" "int (path_block (block_to_path s b)) = b"
    using assms file_path_valid [of n] by (simp_all add: block_to_path_eq path_block_file_path)
next
  assume "\<not> (0 \<le> b \<and> b < int (unat (s_nblocks (sbi s))))"
  then show "block_to_path s b = []" by (auto simp: block_to_path_def)
next
  assume q: "data_path q \<and> path_block q < unat (s_nblocks (sbi s))"
  then have "file_path (path_block q) = q" using file_path_path_block by blast
  then show "block_to_path s (int (path_block q)) = q"
    using q by (simp add: block_to_path_eq [OF assms(1)])
qed

theorem block_to_path_bijective_witness:
  "block_to_path example_volume 1023 = [6, 1017] \<and> block_to_path example_volume 1024 = []"
  using block_to_path_bijective [of example_volume 1023 "[6, 1017]"]
    block_to_path_bijective [of example_volume 1024 "[]"] by (simp add: example_sb_def)

text \<open>
  C1. \<^verbatim>\<open>gas_get_block\<close> always returns, and meets its contract: it reports the disk block stored in
  the tree; with \<open>create\<close> and a hole it installs a free block of the data zone together with the
  indirect blocks on the way, after which the tree is still well formed, exactly the new blocks of the
  tree are newly busy, and every other block of every file is mapped as before; on failure (\<open>EIO\<close> for an unreadable indirect block, \<open>ENOSPC\<close> only when
  fewer free blocks are left than the path is long) bitmap and mappings are as before.
\<close>

theorem gas_get_block_correct:
  assumes "block_tree K" and "alloc_inv s" and "layout_wf s" and "tree_geom s" and "tree_wf I s" and "ino \<in> I"
    and "unat blk < unat (s_nblocks (sbi s))" and "unat blk < max_blocks"
  shows "\<exists>e m s'. gas_get_block K s ino blk create = Some (e, m, s') \<and>
    get_block_spec K I s ino (file_path (unat blk)) create e m s'"
  unfolding gas_get_block_path [OF assms(4,7)]
  using block_tree.get_block_reread_spec [OF assms(1-6) file_path_valid [OF assms(8)]] .

definition empty_file_volume :: fs where
  "empty_file_volume = example_volume\<lparr>icache := ref_fresh_inode\<rparr>"

lemma empty_file_bmap: "bmap empty_file_volume ino q = 0"
  by (cases q) (simp_all add: bmap_def empty_file_volume_def ref_fresh_inode_def)

lemma empty_file_volume_simps [simp]:
  "sbi empty_file_volume = example_sb" "bufs empty_file_volume = bufs example_volume"
  "sb_blocksize_bits empty_file_volume = 12" "sb_blocksize empty_file_volume = 4096"
  "icache empty_file_volume = ref_fresh_inode"
  by (simp_all add: empty_file_volume_def)

lemma empty_file_volume_wf:
  "alloc_inv empty_file_volume" "layout_wf empty_file_volume" "tree_geom empty_file_volume"
  "tree_wf I empty_file_volume" "data_zone empty_file_volume - used_blocks empty_file_volume = {7..<1024}"
proof -
  have z: "data_zone empty_file_volume = data_zone example_volume"
    "used_blocks empty_file_volume = used_blocks example_volume"
    by (simp_all add: data_zone_def used_blocks_def)
  then show "data_zone empty_file_volume - used_blocks empty_file_volume = {7..<1024}"
    by (auto simp: example_volume_used data_zone_def example_sb_def)
  show "alloc_inv empty_file_volume"
    using example_volume_alloc_inv z by (simp add: alloc_inv_def bam_wf_def bam_bits_def)
  show "layout_wf empty_file_volume" using example_volume_wf(2) by (simp add: layout_wf_def)
  show "tree_geom empty_file_volume" by (simp add: tree_geom_def example_sb_def)
  show "tree_wf I empty_file_volume" by (simp add: tree_wf_def empty_file_bmap)
qed

lemma file_path_1000: "file_path 1000 = [6, 994]"
  by (simp add: file_path_def)

theorem gas_get_block_correct_witness:
  "\<exists>e m s'. gas_get_block ref_tree_services empty_file_volume 1 1000 True = Some (e, m, s') \<and>
     get_block_spec ref_tree_services {1, 2} empty_file_volume 1 [6, 994] True e m s'"
  using gas_get_block_correct [OF ref_tree.block_tree_axioms empty_file_volume_wf(1-3)
      empty_file_volume_wf(4) [of "{1, 2}"], of 1 1000 True]
  by (simp add: example_sb_def file_path_1000)

lemma empty_file_create:
  "\<exists>b s'. gas_get_block ref_tree_services empty_file_volume 1 1000 True = Some (None, Some (b, True), s')"
proof -
  have g: "gas_get_block ref_tree_services empty_file_volume 1 1000 True =
      get_block_reread ref_tree_services 1 [6, 994] True empty_file_volume"
    by (subst gas_get_block_path) (simp_all add: empty_file_volume_wf example_sb_def file_path_1000)
  obtain e m s' where r: "get_block_reread ref_tree_services 1 [6, 994] True empty_file_volume = Some (e, m, s')"
    and spec: "get_block_spec ref_tree_services {1, 2} empty_file_volume 1 [6, 994] True e m s'"
    using ref_tree.get_block_reread_spec [OF empty_file_volume_wf(1-3)
        empty_file_volume_wf(4) [of "{1, 2}"], of 1 "[6, 994]" True] by auto
  have zone: "data_zone empty_file_volume = {7..<1024}" by (simp add: data_zone_def example_sb_def)
  show ?thesis
  proof (cases m)
    case None
    then show ?thesis using spec empty_file_volume_wf(5) by (auto simp: get_block_spec_def)
  next
    case (Some bn)
    obtain b new where bn: "bn = (b, new)" by (cases bn)
    then have f: "e = None" "b = unat (bmap s' 1 [6, 994])" "b \<in> {7..<1024}" "new \<or> s' = empty_file_volume"
      using spec Some zone by (auto simp: get_block_spec_def split: if_splits)
    moreover have "new" using f(2-4) by (auto simp: empty_file_bmap)
    ultimately show ?thesis using r Some bn g by auto
  qed
qed

text \<open>
  C27. A block that \<^verbatim>\<open>gas_get_block\<close> has created is found again: once it returned block \<open>b\<close>, a plain
  lookup in the new state returns \<open>b\<close> and leaves the state alone, and a plain lookup of any other block
  of any file answers as it did before.
\<close>

theorem get_block_create_lookup:
  assumes "block_tree K" and "alloc_inv s" and "layout_wf s" and "tree_geom s" and "tree_wf I s" and "ino \<in> I"
    and "unat blk < unat (s_nblocks (sbi s))" and "unat (s_nblocks (sbi s)) \<le> max_blocks"
    and "gas_get_block K s ino blk create = Some (None, Some (b, new), s')"
    and "\<And>n. sb_bread K (bufs s') n \<noteq> None" and "\<And>n. sb_bread K (bufs s) n \<noteq> None"
  shows "gas_get_block K s' ino blk False = Some (None, Some (b, False), s') \<and>
    (\<forall>i\<in>I. \<forall>c. (i, c) \<noteq> (ino, blk) \<longrightarrow> unat c < unat (s_nblocks (sbi s)) \<longrightarrow>
       (\<exists>m. gas_get_block K s' i c False = Some (None, m, s') \<and> gas_get_block K s i c False = Some (None, m, s)))"
proof -
  have blk: "unat blk < max_blocks" using assms(7,8) by linarith
  note dp = file_path_valid [OF blk]
  have spec: "get_block_spec K I s ino (file_path (unat blk)) create None (Some (b, new)) s'"
    using block_tree.get_block_reread_spec [OF assms(1-6) dp, of create] assms(9)
    by (simp add: gas_get_block_path [OF assms(4,7)])
  have fr: "alloc_frame s s'" "tree_geom s'" and val: "b = unat (bmap s' ino (file_path (unat blk)))" "b \<in> data_zone s"
    and other: "\<And>i r. i \<in> I \<Longrightarrow> data_path r \<Longrightarrow> (i, r) \<noteq> (ino, file_path (unat blk)) \<Longrightarrow> bmap s' i r = bmap s i r"
    using spec by (auto simp: get_block_spec_def)
  have nb: "unat c < unat (s_nblocks (sbi s'))" if "unat c < unat (s_nblocks (sbi s))" for c :: u64
    using that alloc_frame_simps(3) [OF fr(1)] by simp
  have b0: "b \<noteq> 0" using alloc_inv_zone_pos [OF assms(2) val(2)] .
  have "gas_get_block K s' ino blk False = Some (None, Some (b, False), s')"
    unfolding gas_get_block_path [OF fr(2) nb [OF assms(7)]] block_tree.get_block_reread_lookup [OF assms(1) dp assms(10)]
    using val(1) b0 by auto
  moreover have "gas_get_block K s' i c False = Some (None, m, s') \<and> gas_get_block K s i c False = Some (None, m, s)"
    if "i \<in> I" "(i, c) \<noteq> (ino, blk)" "unat c < unat (s_nblocks (sbi s))"
      and m: "m = (if bmap s i (file_path (unat c)) = 0 then None else Some (unat (bmap s i (file_path (unat c))), False))"
    for i c m
  proof -
    have dc: "data_path (file_path (unat c))" using file_path_valid that(3) assms(8) by simp
    have "(i, file_path (unat c)) \<noteq> (ino, file_path (unat blk))"
      using that(2) file_path_inj [of "unat c" "unat blk"] word_unat_eq by blast
    then have "bmap s' i (file_path (unat c)) = bmap s i (file_path (unat c))" using other that(1) dc by blast
    then show ?thesis
      unfolding gas_get_block_path [OF fr(2) nb [OF that(3)]] gas_get_block_path [OF assms(4) that(3)]
        block_tree.get_block_reread_lookup [OF assms(1) dc assms(10)]
        block_tree.get_block_reread_lookup [OF assms(1) dc assms(11)] m
      by simp
  qed
  ultimately show ?thesis by blast
qed

theorem get_block_create_lookup_witness:
  "\<exists>b s'. gas_get_block ref_tree_services empty_file_volume 1 1000 True = Some (None, Some (b, True), s') \<and>
     gas_get_block ref_tree_services s' 1 1000 False = Some (None, Some (b, False), s') \<and>
     (\<exists>m. gas_get_block ref_tree_services s' 2 5 False = Some (None, m, s'))"
proof -
  obtain b s' where r: "gas_get_block ref_tree_services empty_file_volume 1 1000 True = Some (None, Some (b, True), s')"
    using empty_file_create by blast
  show ?thesis
  proof (intro exI conjI)
    have c: "gas_get_block ref_tree_services s' 1 1000 False = Some (None, Some (b, False), s') \<and>
      (\<forall>i\<in>{1, 2}. \<forall>c. (i, c) \<noteq> (1, 1000) \<longrightarrow> unat c < unat (s_nblocks (sbi empty_file_volume)) \<longrightarrow>
       (\<exists>m. gas_get_block ref_tree_services s' i c False = Some (None, m, s') \<and>
          gas_get_block ref_tree_services empty_file_volume i c False = Some (None, m, empty_file_volume)))"
      by (rule get_block_create_lookup [OF ref_tree.block_tree_axioms empty_file_volume_wf(1-3)
        empty_file_volume_wf(4) [of "{1, 2}"] _ _ _ r]) (simp_all add: example_sb_def)
    show "gas_get_block ref_tree_services empty_file_volume 1 1000 True = Some (None, Some (b, True), s')" by (rule r)
    show "gas_get_block ref_tree_services s' 1 1000 False = Some (None, Some (b, False), s')" using c ..
    have "(2::nat) \<in> {1, 2}" "(2, 5 :: u64) \<noteq> (1, 1000)" "unat (5 :: u64) < unat (s_nblocks (sbi empty_file_volume))"
      by (simp_all add: example_sb_def)
    then obtain m where "gas_get_block ref_tree_services s' 2 5 False = Some (None, m, s')" using c by blast
    then show "gas_get_block ref_tree_services s' 2 5 False =
        Some (None, fst (snd (the (gas_get_block ref_tree_services s' 2 5 False))), s')" by simp
  qed
qed

end
