(* ===== verification/Gas_Itree_Free.thy ===== *)
theory Gas_Itree_Free
  imports Gas_Itree
begin

text \<open>
  Shrinking the block tree: what \<^verbatim>\<open>free_data\<close>, \<^verbatim>\<open>free_branches\<close> and \<^verbatim>\<open>gas_truncate_inode\<close> of
  \<^verbatim>\<open>src/kern/gas_itree.c\<close> (defined in \<open>Gas_Itree\<close>) free and keep.
\<close>

section \<open>Freeing subtrees\<close>

text \<open>
  \<open>sub f d v\<close>: the blocks of the tree of depth \<open>d\<close> below the pointer \<open>v\<close>, over the table \<open>f\<close> of block
  entries; \<open>tree f d v\<close>: no block occurs in it twice.
\<close>

fun sub :: "(nat \<Rightarrow> nat \<Rightarrow> u32) \<Rightarrow> nat \<Rightarrow> u32 \<Rightarrow> nat set" where
  "sub f 0 v = (if v = 0 then {} else {unat v})"
| "sub f (Suc d) v = (if v = 0 then {} else insert (unat v) (\<Union>i\<in>{..<1024}. sub f d (f (unat v) i)))"

fun tree :: "(nat \<Rightarrow> nat \<Rightarrow> u32) \<Rightarrow> nat \<Rightarrow> u32 \<Rightarrow> bool" where
  "tree f 0 v = True"
| "tree f (Suc d) v \<longleftrightarrow> v = 0 \<or>
     (\<forall>i\<in>{..<1024}. tree f d (f (unat v) i) \<and> unat v \<notin> sub f d (f (unat v) i)) \<and>
     (\<forall>i\<in>{..<1024}. \<forall>j\<in>{..<1024}. i \<noteq> j \<longrightarrow> sub f d (f (unat v) i) \<inter> sub f d (f (unat v) j) = {})"

fun forest :: "(nat \<Rightarrow> nat \<Rightarrow> u32) \<Rightarrow> nat \<Rightarrow> u32 list \<Rightarrow> bool" where
  "forest f d [] = True"
| "forest f d (v # vs) \<longleftrightarrow> tree f d v \<and> (\<forall>w\<in>set vs. sub f d v \<inter> sub f d w = {}) \<and> forest f d vs"

definition forest_blocks :: "(nat \<Rightarrow> nat \<Rightarrow> u32) \<Rightarrow> nat \<Rightarrow> u32 list \<Rightarrow> nat set" where
  "forest_blocks f d vs = (\<Union>v\<in>set vs. sub f d v)"

definition entries :: "fs \<Rightarrow> nat \<Rightarrow> nat \<Rightarrow> u32" where
  "entries s b i = get_le32 (bufs s b) (4 * i)"

lemma forest_blocks_simps [simp]:
  "forest_blocks f d [] = {}" "forest_blocks f d (v # vs) = sub f d v \<union> forest_blocks f d vs"
  by (simp_all add: forest_blocks_def)

lemma sub_0 [simp]: "sub f d 0 = {}"
  by (cases d) auto

lemma tree_0 [simp]: "tree f d 0"
  by (cases d) auto

lemma sub_root: "v \<noteq> 0 \<Longrightarrow> unat v \<in> sub f d v"
  by (cases d) auto

lemma sub_cong: "(\<And>b i. b \<in> sub f d v \<Longrightarrow> i < 1024 \<Longrightarrow> g b i = f b i) \<Longrightarrow> sub g d v = sub f d v"
proof (induction d arbitrary: v)
  case (Suc d)
  show ?case
  proof (cases "v = 0")
    case False
    have e: "g (unat v) i = f (unat v) i" if "i < 1024" for i using Suc.prems [of "unat v" i] that False by simp
    have "sub g d (f (unat v) i) = sub f d (f (unat v) i)" if "i < 1024" for i
      by (rule Suc.IH) (use Suc.prems that False in auto)
    then show ?thesis using False e by simp
  qed simp
qed simp

lemma tree_cong: "(\<And>b i. b \<in> sub f d v \<Longrightarrow> i < 1024 \<Longrightarrow> g b i = f b i) \<Longrightarrow> tree g d v = tree f d v"
proof (induction d arbitrary: v)
  case (Suc d)
  show ?case
  proof (cases "v = 0")
    case False
    have e: "g (unat v) i = f (unat v) i" if "i < 1024" for i using Suc.prems [of "unat v" i] that False by simp
    have "tree g d (f (unat v) i) = tree f d (f (unat v) i)" "sub g d (f (unat v) i) = sub f d (f (unat v) i)"
      if "i < 1024" for i
      by (rule Suc.IH sub_cong; use Suc.prems that False in auto)+
    then show ?thesis using e by simp
  qed simp
qed simp

lemma forest_cong:
  "(\<And>b i. b \<in> forest_blocks f d vs \<Longrightarrow> i < 1024 \<Longrightarrow> g b i = f b i) \<Longrightarrow>
     forest g d vs = forest f d vs \<and> forest_blocks g d vs = forest_blocks f d vs"
proof (induction vs)
  case (Cons v vs)
  have s: "sub g d w = sub f d w" if "w \<in> set (v # vs)" for w
    by (rule sub_cong, rule Cons.prems) (use that in \<open>auto simp: forest_blocks_def\<close>)
  have "tree g d v = tree f d v" by (rule tree_cong, rule Cons.prems) auto
  moreover have "forest g d vs = forest f d vs \<and> forest_blocks g d vs = forest_blocks f d vs"
    by (rule Cons.IH, rule Cons.prems) auto
  ultimately show ?case using s by simp
qed simp

lemma tree_children:
  assumes "tree f (Suc d) v" and "v \<noteq> 0"
  shows "forest f d (map (f (unat v)) [0..<1024])" "unat v \<notin> forest_blocks f d (map (f (unat v)) [0..<1024])"
    "sub f (Suc d) v = insert (unat v) (forest_blocks f d (map (f (unat v)) [0..<1024]))"
proof -
  have "forest f d (map (f (unat v)) is)" if "distinct is" "set is \<subseteq> {..<1024}" for "is"
    using that
  proof (induction "is")
    case (Cons i "is")
    have "sub f d (f (unat v) i) \<inter> sub f d (f (unat v) j) = {}" if "j \<in> set is" for j
    proof -
      have "i \<noteq> j" "i \<in> {..<1024}" "j \<in> {..<1024}" using that Cons.prems by auto
      then show ?thesis using assms by (simp only: tree.simps) blast
    qed
    then show ?case using Cons assms by auto
  qed simp
  from this [of "[0..<1024]"] show "forest f d (map (f (unat v)) [0..<1024])" by (simp add: subset_iff)
  show "unat v \<notin> forest_blocks f d (map (f (unat v)) [0..<1024])" using assms by (auto simp: forest_blocks_def)
  show "sub f (Suc d) v = insert (unat v) (forest_blocks f d (map (f (unat v)) [0..<1024]))"
    using assms by (auto simp: forest_blocks_def)
qed

text \<open>What freeing the blocks \<open>T\<close> and clearing the slots \<open>Q\<close> does.\<close>

fun is_local :: "slot \<Rightarrow> bool" where
  "is_local (Local_slot _) = True"
| "is_local _ = False"

fun outside :: "fs \<Rightarrow> nat set \<Rightarrow> slot \<Rightarrow> bool" where
  "outside s T (Block_slot b i) \<longleftrightarrow> b \<notin> T \<and> b \<notin> set (s_bam_bh (sbi s))"
| "outside s T _ = True"

fun good_slot :: "nat \<Rightarrow> fs \<Rightarrow> nat set \<Rightarrow> slot \<Rightarrow> bool" where
  "good_slot ino s T (Block_slot b i) \<longleftrightarrow> b \<in> data_zone s \<and> b \<notin> T"
| "good_slot ino s T (Inode_slot j i) \<longleftrightarrow> j = ino"
| "good_slot ino s T (Local_slot _) \<longleftrightarrow> True"

definition freed :: "nat \<Rightarrow> fs \<Rightarrow> fs \<Rightarrow> slot set \<Rightarrow> nat set \<Rightarrow> bool" where
  "freed ino s s' Q T \<longleftrightarrow>
     sbi s' = sbi s \<and> pages s' = pages s \<and> sb_blocksize s' = sb_blocksize s \<and> sb_blocksize_bits s' = sb_blocksize_bits s \<and>
     alloc_inv s' \<and> used_blocks s' = used_blocks s - T \<and>
     (\<forall>q\<in>Q. is_local q \<or> get_slot s' q = 0) \<and>
     (\<forall>q. q \<notin> Q \<longrightarrow> outside s T q \<longrightarrow> get_slot s' q = get_slot s q) \<and>
     (\<forall>m. m \<notin> data_zone s \<longrightarrow> m \<notin> set (s_bam_bh (sbi s)) \<longrightarrow> bufs s' m = bufs s m) \<and>
     (\<forall>i. i \<noteq> ino \<longrightarrow> icache s' i = icache s i) \<and>
     icache s' ino = (icache s ino)\<lparr>i_dirty := i_dirty (icache s' ino), blkaddr := blkaddr (icache s' ino)\<rparr>"

lemma freed_simps:
  assumes "freed ino s s' Q T"
  shows "sbi s' = sbi s" "alloc_inv s'" "data_zone s' = data_zone s" "layout_wf s' = layout_wf s"
    "tree_geom s' = tree_geom s" "used_blocks s' = used_blocks s - T" "block_end s' = block_end s" "outside s' = outside s"
    "good_slot i s' = good_slot i s"
proof -
  show s: "sbi s' = sbi s" "alloc_inv s'" "used_blocks s' = used_blocks s - T" using assms by (simp_all add: freed_def)
  show z: "data_zone s' = data_zone s" by (simp add: data_zone_def s)
  show "layout_wf s' = layout_wf s" "tree_geom s' = tree_geom s" "block_end s' = block_end s"
    using assms by (simp_all add: freed_def layout_wf_def tree_geom_def block_end_def)
  have "outside s' T q = outside s T q" for T q by (cases q) (simp_all add: s)
  then show "outside s' = outside s" by blast
  have "good_slot i s' T q = good_slot i s T q" for T q by (cases q) (simp_all add: z)
  then show "good_slot i s' = good_slot i s" by blast
qed

lemma freed_refl: "alloc_inv s \<Longrightarrow> freed ino s s {} {}"
  by (simp add: freed_def)

lemma good_outside: "good_slot ino s T q \<Longrightarrow> layout_wf s \<Longrightarrow> T' \<subseteq> T \<Longrightarrow> outside s T' q"
  by (cases q) (auto dest: zone_not_bam)

lemma freed_slot: "freed ino s s' Q T \<Longrightarrow> q \<notin> Q \<Longrightarrow> outside s T q \<Longrightarrow> get_slot s' q = get_slot s q"
  by (simp add: freed_def)

lemma freed_zero: "freed ino s s' Q T \<Longrightarrow> q \<in> Q \<Longrightarrow> is_local q \<or> get_slot s' q = 0"
  unfolding freed_def by (elim conjE) (erule bspec)

lemma freed_trans:
  assumes a: "freed ino s s1 Q1 T1" and b: "freed ino s1 s2 Q2 T2"
    and good: "\<forall>q\<in>Q1. outside s T2 q" and "Q1 \<inter> Q2 = {}"
  shows "freed ino s s2 (Q1 \<union> Q2) (T1 \<union> T2)"
proof -
  note f = freed_simps [OF a]
  have out: "outside s (T1 \<union> T2) q \<Longrightarrow> outside s T1 q \<and> outside s T2 q" for q by (cases q) auto
  have keep: "get_slot s2 q = get_slot s1 q" if "q \<in> Q1" for q
  proof (rule freed_slot [OF b])
    show "q \<notin> Q2" using that assms(4) by blast
    show "outside s1 T2 q" using good that by (simp add: f(8))
  qed
  have "is_local q \<or> get_slot s2 q = 0" if "q \<in> Q1 \<union> Q2" for q
    using that freed_zero [OF a, of q] freed_zero [OF b, of q] keep [of q] by (elim UnE) simp_all
  moreover have "get_slot s2 q = get_slot s q" if "q \<notin> Q1 \<union> Q2" "outside s (T1 \<union> T2) q" for q
    using that out [OF that(2)] freed_slot [OF a] freed_slot [OF b] by (simp add: f(8))
  moreover have "used_blocks s2 = used_blocks s - (T1 \<union> T2)" using a b by (auto simp: freed_def)
  moreover have "icache s2 ino = (icache s ino)\<lparr>i_dirty := i_dirty (icache s2 ino), blkaddr := blkaddr (icache s2 ino)\<rparr>"
  proof -
    have "icache s1 ino = (icache s ino)\<lparr>i_dirty := i_dirty (icache s1 ino), blkaddr := blkaddr (icache s1 ino)\<rparr>"
      "icache s2 ino = (icache s1 ino)\<lparr>i_dirty := i_dirty (icache s2 ino), blkaddr := blkaddr (icache s2 ino)\<rparr>"
      using a b by (simp_all add: freed_def)
    then show ?thesis by (cases "icache s ino"; cases "icache s1 ino"; cases "icache s2 ino") simp
  qed
  ultimately show ?thesis
    using a b f(1,3) by (simp add: freed_def)
qed

lemma get_slot_put_slot:
  "\<not> is_local q \<Longrightarrow> get_slot (put_slot q v s) q' = (if q' = q then v else get_slot s q')"
  by (cases q; cases q') (auto simp: get_le32_put_slot)

lemma put_slot_simps [simp]:
  "sbi (put_slot q v s) = sbi s" "pages (put_slot q v s) = pages s" "sb_blocksize (put_slot q v s) = sb_blocksize s"
  "sb_blocksize_bits (put_slot q v s) = sb_blocksize_bits s"
  by (cases q; simp)+

lemma bufs_put_slot: "good_slot ino s T q \<Longrightarrow> m \<notin> data_zone s \<Longrightarrow> bufs (put_slot q v s) m = bufs s m"
  by (cases q) auto

lemma icache_put_slot:
  "good_slot ino s T q \<Longrightarrow> i \<noteq> ino \<Longrightarrow> icache (put_slot q v s) i = icache s i"
  "icache (put_slot q v s) ino = (icache s ino)\<lparr>i_dirty := i_dirty (icache (put_slot q v s) ino),
     blkaddr := blkaddr (icache (put_slot q v s) ino)\<rparr>"
  by (cases q; simp)+

context block_tree
begin

text \<open>Clearing a slot and freeing one block.\<close>

lemma freed_put_slot:
  assumes "alloc_inv s" and "layout_wf s" and "good_slot ino s T q"
  shows "freed ino s (put_slot q 0 s) {q} {}"
proof -
  have bam: "bufs (put_slot q 0 s) m = bufs s m" if "m \<in> set (s_bam_bh (sbi s))" for m
    using bufs_put_slot [OF assms(3)] zone_not_bam [OF assms(2)] that by blast
  note c = alloc_inv_cong [of "put_slot q 0 s" s, OF put_slot_simps(1,4) bam]
  have "get_slot (put_slot q 0 s) q' = get_slot s q'" if "q' \<noteq> q" for q'
    using that by (cases "is_local q") (cases q, auto simp: get_slot_put_slot)
  moreover have "is_local q \<or> get_slot (put_slot q 0 s) q = 0"
    by (cases "is_local q") (simp_all add: get_slot_put_slot)
  ultimately show ?thesis
    unfolding freed_def using c assms(1) bufs_put_slot [OF assms(3)] icache_put_slot(1) [OF assms(3)]
    by (intro conjI icache_put_slot(2)) simp_all
qed

lemma freed_block:
  assumes "alloc_inv s" and "n \<in> data_zone s" and "layout_wf s"
  shows "freed ino s (gas_free_block K s n) {} {n}"
proof -
  have wf: "bam_wf s" using assms(1) by (simp add: alloc_inv_def)
  have "get_slot (gas_free_block K s n) q = get_slot s q" if "outside s {n} q" for q
    using that wf by (cases q) (auto simp: gas_free_block_frame)
  then show ?thesis
    unfolding freed_def
    using allocator.release_inv [OF assms(1)] allocator.release_used [OF assms(1), of n] assms(2) wf
    by (simp add: gas_free_block_frame)
qed

lemma freed_mark:
  assumes "freed ino s s' Q T"
  shows "freed ino s (mark_inode_dirty ino s') Q T" "freed ino s (bforget n s') Q T"
proof -
  have g: "get_slot (mark_inode_dirty ino s') q = get_slot s' q" "get_slot (bforget n s') q = get_slot s' q" for q
    by (cases q; simp)+
  have u: "used_blocks (mark_inode_dirty ino s') = used_blocks s'" "used_blocks (bforget n s') = used_blocks s'"
    "alloc_inv (mark_inode_dirty ino s') = alloc_inv s'" "alloc_inv (bforget n s') = alloc_inv s'"
    by (intro alloc_inv_cong; simp)+
  have "icache s' ino = (icache s ino)\<lparr>i_dirty := i_dirty (icache s' ino), blkaddr := blkaddr (icache s' ino)\<rparr>"
    using assms by (simp add: freed_def)
  then have "(icache s' ino)\<lparr>i_dirty := True\<rparr> = (icache s ino)\<lparr>i_dirty := True, blkaddr := blkaddr (icache s' ino)\<rparr>"
    by (cases "icache s' ino"; cases "icache s ino") simp
  then show "freed ino s (mark_inode_dirty ino s') Q T"
    using assms by (simp add: freed_def g u)
  show "freed ino s (bforget n s') Q T"
    using assms by (simp add: freed_def g u)
qed

end

lemma good_slot_mono: "good_slot ino s T q \<Longrightarrow> T' \<subseteq> T \<Longrightarrow> good_slot ino s T' q"
  by (cases q) auto

lemma entries_slot: "entries s b i = get_slot s (Block_slot b i)"
  by (simp add: entries_def)

text \<open>What freeing leaves of another tree: nothing of it changes when its blocks and slots are apart.\<close>

lemma freed_entries:
  assumes "freed ino s s' Q T" and "b \<in> data_zone s" and "b \<notin> T" and "\<And>i. Block_slot b i \<notin> Q" and "layout_wf s"
  shows "entries s' b i = entries s b i"
  unfolding entries_slot
  by (rule freed_slot [OF assms(1)]) (use assms zone_not_bam in auto)

lemma freed_forest:
  assumes "freed ino s s' Q T" and "layout_wf s" and "forest (entries s) d vs"
    and "forest_blocks (entries s) d vs \<subseteq> data_zone s" and "forest_blocks (entries s) d vs \<inter> T = {}"
    and "\<And>b i. Block_slot b i \<in> Q \<Longrightarrow> b \<notin> forest_blocks (entries s) d vs"
  shows "forest (entries s') d vs" "forest_blocks (entries s') d vs = forest_blocks (entries s) d vs"
proof -
  have "entries s' b i = entries s b i" if "b \<in> forest_blocks (entries s) d vs" for b i
    by (rule freed_entries [OF assms(1)]) (use that assms in auto)
  then show "forest (entries s') d vs" "forest_blocks (entries s') d vs = forest_blocks (entries s) d vs"
    using forest_cong [of "entries s" d vs "entries s'"] assms(3) by blast+
qed

lemma freed_nothing: "alloc_inv s \<Longrightarrow> get_slot s q = 0 \<Longrightarrow> freed ino s s {q} {}"
  by (simp add: freed_def)

text \<open>A list of slots that can be freed: distinct slots outside the disjoint trees they point to.\<close>

definition freeable :: "nat \<Rightarrow> nat \<Rightarrow> fs \<Rightarrow> slot list \<Rightarrow> bool" where
  "freeable ino d s qs \<longleftrightarrow>
     (let T = forest_blocks (entries s) d (map (get_slot s) qs)
      in alloc_inv s \<and> layout_wf s \<and> tree_geom s \<and> distinct qs \<and> forest (entries s) d (map (get_slot s) qs) \<and>
         T \<subseteq> data_zone s \<and> (\<forall>q\<in>set qs. good_slot ino s T q))"

lemma freeable_inv: "freeable ino d s qs \<Longrightarrow> alloc_inv s" "freeable ino d s qs \<Longrightarrow> layout_wf s"
  "freeable ino d s qs \<Longrightarrow> tree_geom s" "freeable ino d s qs \<Longrightarrow> distinct qs"
  by (simp_all add: freeable_def Let_def)

lemma freeable_Cons:
  assumes "freeable ino d s (q # qs)"
  shows "q \<notin> set qs" "distinct qs" "tree (entries s) d (get_slot s q)" "forest (entries s) d (map (get_slot s) qs)"
    "sub (entries s) d (get_slot s q) \<subseteq> data_zone s" "forest_blocks (entries s) d (map (get_slot s) qs) \<subseteq> data_zone s"
    "sub (entries s) d (get_slot s q) \<inter> forest_blocks (entries s) d (map (get_slot s) qs) = {}"
    "\<And>q'. q' = q \<or> q' \<in> set qs \<Longrightarrow>
       good_slot ino s (sub (entries s) d (get_slot s q) \<union> forest_blocks (entries s) d (map (get_slot s) qs)) q'"
proof -
  show "sub (entries s) d (get_slot s q) \<inter> forest_blocks (entries s) d (map (get_slot s) qs) = {}"
    using assms unfolding freeable_def Let_def forest_blocks_def by auto
qed (use assms in \<open>auto simp: freeable_def Let_def simp del: sub.simps tree.simps\<close>)

lemma freeable_tail:
  assumes free: "freeable ino d s (q # qs)" and s1: "freed ino s s1 {q} (sub (entries s) d (get_slot s q))"
  shows "freeable ino d s1 qs" "map (get_slot s1) qs = map (get_slot s) qs"
    "forest_blocks (entries s1) d (map (get_slot s1) qs) = forest_blocks (entries s) d (map (get_slot s) qs)"
proof -
  define T1 where "T1 = sub (entries s) d (get_slot s q)"
  define T2 where "T2 = forest_blocks (entries s) d (map (get_slot s) qs)"
  have f: "layout_wf s" "tree_geom s" "q \<notin> set qs" "distinct qs"
    "forest (entries s) d (map (get_slot s) qs)" "T2 \<subseteq> data_zone s" "T1 \<inter> T2 = {}"
    "\<And>q'. q' \<in> set (q # qs) \<Longrightarrow> good_slot ino s (T1 \<union> T2) q'"
    using freeable_Cons [OF free] freeable_inv [OF free] by (simp_all add: T1_def T2_def)
  note fs = freed_simps [OF s1]
  have val: "get_slot s1 q' = get_slot s q'" if "q' \<in> set qs" for q'
    by (rule freed_slot [OF s1]) (use that f good_outside [of ino s "T1 \<union> T2" q'] in \<open>auto simp: T1_def\<close>)
  then show m: "map (get_slot s1) qs = map (get_slot s) qs" by simp
  have q: "\<And>b i. Block_slot b i \<in> {q} \<Longrightarrow> b \<notin> T2" using f(8) [of q] by (auto simp: T2_def)
  have "T2 \<inter> T1 = {}" using f(7) by blast
  then have ff: "forest (entries s1) d (map (get_slot s) qs)" "forest_blocks (entries s1) d (map (get_slot s) qs) = T2"
    using freed_forest [OF s1 f(1,5)] f(6) q by (simp_all add: T1_def T2_def)
  show e: "forest_blocks (entries s1) d (map (get_slot s1) qs) = forest_blocks (entries s) d (map (get_slot s) qs)"
    unfolding m ff(2) T2_def ..
  have "good_slot ino s1 T2 q'" if "q' \<in> set qs" for q'
    using f(8) [of q'] that fs(9) good_slot_mono [of ino s "T1 \<union> T2" q' T2] by simp
  then show "freeable ino d s1 qs"
    unfolding freeable_def Let_def m ff(2)
    using fs f ff(1) by simp
qed

lemma freed_absorb:
  assumes a: "freed ino s s1 Q T" and b: "freed ino s1 s2 {} {n}" and q: "\<And>q. q \<in> Q \<Longrightarrow> \<not> outside s {n} q"
  shows "freed ino s s2 {} (insert n T)"
proof -
  note f = freed_simps [OF a]
  have out: "outside s (insert n T) q \<Longrightarrow> outside s T q \<and> outside s {n} q" for q by (cases q) auto
  have "get_slot s2 q = get_slot s q" if "outside s (insert n T) q" for q
  proof -
    have "q \<notin> Q" using q out [OF that] by blast
    then show ?thesis using freed_slot [OF a] freed_slot [OF b] out [OF that] by (simp add: f(8))
  qed
  moreover have "used_blocks s2 = used_blocks s - insert n T" using a b by (auto simp: freed_def)
  moreover have "icache s2 ino = (icache s ino)\<lparr>i_dirty := i_dirty (icache s2 ino), blkaddr := blkaddr (icache s2 ino)\<rparr>"
  proof -
    have "icache s1 ino = (icache s ino)\<lparr>i_dirty := i_dirty (icache s1 ino), blkaddr := blkaddr (icache s1 ino)\<rparr>"
      "icache s2 ino = (icache s1 ino)\<lparr>i_dirty := i_dirty (icache s2 ino), blkaddr := blkaddr (icache s2 ino)\<rparr>"
      using a b by (simp_all add: freed_def)
    then show ?thesis by (cases "icache s ino"; cases "icache s1 ino"; cases "icache s2 ino") simp
  qed
  ultimately show ?thesis
    using a b f(1,3) by (simp add: freed_def)
qed

context block_tree
begin

lemma free_list_step:
  assumes step: "\<And>q qs s. freeable ino d s (q # qs) \<Longrightarrow>
      \<exists>s1. freed ino s s1 {q} (sub (entries s) d (get_slot s q)) \<and>
        free_branches K ino d (q # qs) s = free_branches K ino d qs s1"
    and nil: "\<And>s. free_branches K ino d [] s = s"
  shows "freeable ino d s qs \<Longrightarrow>
    freed ino s (free_branches K ino d qs s) (set qs) (forest_blocks (entries s) d (map (get_slot s) qs))"
proof (induction qs arbitrary: s)
  case Nil
  then show ?case by (simp add: nil freed_refl freeable_def)
next
  case (Cons q qs)
  obtain s1 where s1: "freed ino s s1 {q} (sub (entries s) d (get_slot s q))"
    and e: "free_branches K ino d (q # qs) s = free_branches K ino d qs s1" using step [OF Cons.prems] by blast
  note t = freeable_tail [OF Cons.prems s1]
  have "freed ino s1 (free_branches K ino d qs s1) (set qs) (forest_blocks (entries s) d (map (get_slot s) qs))"
    using Cons.IH [OF t(1)] t(3) by simp
  moreover have "good_slot ino s (forest_blocks (entries s) d (map (get_slot s) (q # qs))) q" "layout_wf s" "q \<notin> set qs"
    using freeable_Cons [OF Cons.prems] freeable_inv [OF Cons.prems] by auto
  then have "outside s (forest_blocks (entries s) d (map (get_slot s) qs)) q" "q \<notin> set qs"
    using good_outside by auto
  ultimately show ?case
    using freed_trans [OF s1] unfolding e by auto
qed

lemma free_data_freed:
  assumes "freeable ino 0 s qs"
  shows "freed ino s (free_branches K ino 0 qs s) (set qs) (forest_blocks (entries s) 0 (map (get_slot s) qs))"
proof (rule free_list_step [OF _ _ assms])
  fix q qs s
  assume f: "freeable ino 0 s (q # qs)"
  have inv: "alloc_inv s" "layout_wf s" using freeable_inv [OF f] by simp_all
  show "\<exists>s1. freed ino s s1 {q} (sub (entries s) 0 (get_slot s q)) \<and>
      free_branches K ino 0 (q # qs) s = free_branches K ino 0 qs s1"
  proof (cases "get_slot s q = 0")
    case True
    then show ?thesis using freed_nothing [OF inv(1) True] by auto
  next
    case False
    have z: "unat (get_slot s q) \<in> data_zone s"
      and g: "good_slot ino s (forest_blocks (entries s) 0 (map (get_slot s) (q # qs))) q"
      using freeable_Cons [OF f] False by auto
    note a = freed_put_slot [OF inv g]
    have "freed ino (put_slot q 0 s) (gas_free_block K (put_slot q 0 s) (unat (get_slot s q))) {} {unat (get_slot s q)}"
      by (rule freed_block) (use freed_simps [OF a] z inv in simp_all)
    from freed_trans [OF a this] good_outside [OF g inv(2)] False show ?thesis by (auto simp: Let_def)
  qed
qed simp

lemma free_branches_freed:
  assumes "freeable ino d s qs" and read: "\<And>bf n. sb_bread K bf n \<noteq> None"
  shows "freed ino s (free_branches K ino d qs s) (set qs) (forest_blocks (entries s) d (map (get_slot s) qs))"
  using assms(1)
proof (induction d arbitrary: s qs)
  case 0
  then show ?case by (rule free_data_freed)
next
  case (Suc d)
  show ?case
  proof (rule free_list_step [OF _ _ Suc.prems])
    fix q qs s
    assume f: "freeable ino (Suc d) s (q # qs)"
    have inv: "alloc_inv s" "layout_wf s" "tree_geom s" using freeable_inv [OF f] by simp_all
    show "\<exists>s1. freed ino s s1 {q} (sub (entries s) (Suc d) (get_slot s q)) \<and>
        free_branches K ino (Suc d) (q # qs) s = free_branches K ino (Suc d) qs s1"
    proof (cases "get_slot s q = 0")
      case True
      then show ?thesis using freed_nothing [OF inv(1) True] by auto
    next
      case False
      define nr where "nr = get_slot s q"
      define T where "T = sub (entries s) (Suc d) nr"
      have nr: "nr \<noteq> 0" "T \<subseteq> data_zone s" "tree (entries s) (Suc d) nr"
        and g: "good_slot ino s T q"
        using freeable_Cons(3,5) [OF f] False good_slot_mono [OF freeable_Cons(8) [OF f], of q T]
        by (simp_all add: nr_def T_def del: tree.simps sub.simps)
      define C where "C = forest_blocks (entries s) d (map (entries s (unat nr)) [0..<1024])"
      note ch = tree_children [OF nr(3,1), folded C_def T_def]
      define s1 where "s1 = put_slot q 0 s"
      have a: "freed ino s s1 {q} {}" using freed_put_slot [OF inv(1,2) g] by (simp add: s1_def)
      note fa = freed_simps [OF a]
      have nq: "Block_slot b i \<in> {q} \<Longrightarrow> b \<notin> T" for b i using g by auto
      have e1: "entries s1 b i = entries s b i" if "b \<in> T" for b i
        by (rule freed_entries [OF a]) (use that nr(2) nq inv in auto)
      have "unat nr \<in> T" using ch(3) by simp
      then have en: "entries s1 (unat nr) = entries s (unat nr)" using e1 by blast
      have fc: "forest (entries s1) d (map (entries s1 (unat nr)) [0..<1024])"
        "forest_blocks (entries s1) d (map (entries s1 (unat nr)) [0..<1024]) = C"
        using forest_cong [of "entries s" d "map (entries s (unat nr)) [0..<1024]" "entries s1"] ch(1) e1 ch(3)
        by (simp_all add: en C_def)
      define qs1 where "qs1 = block_slots s1 (unat nr) 0"
      have be: "block_end s1 = 1024" using inv(3) fa(7) by (simp add: block_end_def tree_geom_def)
      have vals: "map (get_slot s1) qs1 = map (entries s1 (unat nr)) [0..<1024]"
        by (simp add: qs1_def block_slots_def be entries_def fun_eq_iff)
      have "good_slot ino s1 C q'" if "q' \<in> set qs1" for q'
        using that nr(2) ch(2,3) fa(3) by (auto simp: qs1_def block_slots_def)
      then have fr: "freeable ino d s1 qs1"
        unfolding freeable_def Let_def vals using fc fa inv ch(3) nr(2)
        by (auto simp: qs1_def block_slots_def distinct_map inj_on_def)
      define s2 where "s2 = free_branches K ino d qs1 s1"
      have b: "freed ino s1 s2 (set qs1) C"
        using Suc.IH [OF fr] unfolding vals fc(2) s2_def by simp
      have b': "freed ino s1 (bforget (unat nr) s2) (set qs1) C" using freed_mark(2) [OF b] .
      note fb = freed_simps [OF b']
      have c: "freed ino (bforget (unat nr) s2) (gas_free_block K (bforget (unat nr) s2) (unat nr)) {} {unat nr}"
        by (rule freed_block) (use fb fa inv nr(2) ch(3) in auto)
      have "freed ino s1 (gas_free_block K (bforget (unat nr) s2) (unat nr)) {} (insert (unat nr) C)"
        by (rule freed_absorb [OF b' c]) (auto simp: qs1_def block_slots_def)
      then have d: "freed ino s1 (mark_inode_dirty ino (gas_free_block K (bforget (unat nr) s2) (unat nr))) {} T"
        unfolding ch(3) by (rule freed_mark(1))
      have "outside s T q" using good_outside [OF g inv(2)] by simp
      then have "freed ino s (mark_inode_dirty ino (gas_free_block K (bforget (unat nr) s2) (unat nr))) {q} T"
        using freed_trans [OF a d] by simp
      moreover have "free_branches K ino (Suc d) (q # qs) s =
          free_branches K ino (Suc d) qs (mark_inode_dirty ino (gas_free_block K (bforget (unat nr) s2) (unat nr)))"
        using read [of "bufs s1" "unat nr"] nr(1)
        by (auto simp: Let_def s2_def qs1_def s1_def nr_def split: option.split)
      ultimately show ?thesis unfolding T_def nr_def by blast
    qed
  qed simp
qed

end

section \<open>Subtrees of a file\<close>

text \<open>
  The nodes below \<open>r\<close>, \<open>r\<close> included, and the slot that points to \<open>r\<close>. The height of a node is the
  depth that \<^verbatim>\<open>free_branches\<close> is called with.
\<close>

definition subtree :: "fs \<Rightarrow> nat \<Rightarrow> nat list \<Rightarrow> nat set" where
  "subtree s ino r = {unat (bmap s ino (r @ e)) |e. node_path (r @ e) \<and> bmap s ino (r @ e) \<noteq> 0}"

definition height :: "nat list \<Rightarrow> nat" where
  "height r = hd r - 5 - length (tl r)"

definition slot_of :: "fs \<Rightarrow> nat \<Rightarrow> nat list \<Rightarrow> slot" where
  "slot_of s ino r = (if length r = 1 then Inode_slot ino (hd r)
     else Block_slot (unat (bmap s ino (butlast r))) (last r))"

definition attached :: "fs \<Rightarrow> nat \<Rightarrow> nat list \<Rightarrow> bool" where
  "attached s ino r \<longleftrightarrow> node_path r \<and> (length r = 1 \<or> bmap s ino (butlast r) \<noteq> 0)"

lemma node_path_ne: "node_path r \<Longrightarrow> r \<noteq> []"
  by auto

lemma node_path_child: "node_path r \<Longrightarrow> node_path (r @ [i]) \<longleftrightarrow> 0 < height r \<and> i < 1024"
  by (cases r) (auto simp: height_def)

lemma height_child: "node_path r \<Longrightarrow> height (r @ [i]) = height r - 1"
  by (cases r) (auto simp: height_def)

lemma get_slot_slot_of: "attached s ino r \<Longrightarrow> get_slot s (slot_of s ino r) = bmap s ino r"
proof (cases r rule: rev_cases)
  case (snoc q i)
  assume "attached s ino r"
  with snoc show ?thesis by (cases "q = []") (auto simp: attached_def slot_of_def bmap_snoc)
qed (simp add: attached_def)

lemma subtree_0: "bmap s ino r = 0 \<Longrightarrow> r \<noteq> [] \<Longrightarrow> subtree s ino r = {}"
  using bmap_prefix by (auto simp: subtree_def)

lemma subtree_children:
  assumes "node_path r" and "bmap s ino r \<noteq> 0"
  shows "subtree s ino r = insert (unat (bmap s ino r)) (\<Union>i\<in>{i. node_path (r @ [i])}. subtree s ino (r @ [i]))"
proof (rule set_eqI, rule iffI)
  fix b
  assume "b \<in> subtree s ino r"
  then obtain e where e: "b = unat (bmap s ino (r @ e))" "node_path (r @ e)" "bmap s ino (r @ e) \<noteq> 0"
    by (auto simp: subtree_def)
  show "b \<in> insert (unat (bmap s ino r)) (\<Union>i\<in>{i. node_path (r @ [i])}. subtree s ino (r @ [i]))"
  proof (cases e)
    case Nil
    then show ?thesis using e(1) by simp
  next
    case (Cons i e')
    then have "node_path ((r @ [i]) @ e')" using e(2) by simp
    then have n: "node_path (r @ [i])" by (rule node_path_prefix) simp
    have "b \<in> subtree s ino (r @ [i])" unfolding subtree_def using e Cons by (auto intro!: exI [of _ e'])
    with n show ?thesis by blast
  qed
next
  fix b
  assume b: "b \<in> insert (unat (bmap s ino r)) (\<Union>i\<in>{i. node_path (r @ [i])}. subtree s ino (r @ [i]))"
  show "b \<in> subtree s ino r"
  proof (cases "b = unat (bmap s ino r)")
    case True
    then show ?thesis unfolding subtree_def using assms by (auto intro!: exI [of _ "[]"])
  next
    case False
    then obtain i e where "b = unat (bmap s ino (r @ i # e))" "node_path (r @ i # e)" "bmap s ino (r @ i # e) \<noteq> 0"
      using b by (auto simp: subtree_def)
    then show ?thesis unfolding subtree_def by (auto intro!: exI [of _ "i # e"])
  qed
qed

lemma bmap_child: "node_path r \<Longrightarrow> bmap s ino r \<noteq> 0 \<Longrightarrow> bmap s ino (r @ [i]) = entries s (unat (bmap s ino r)) i"
  using bmap_snoc [OF node_path_ne, of r s ino i] by (simp add: entries_def)

lemma sub_subtree:
  assumes "node_path r" and "height r = d"
  shows "sub (entries s) d (bmap s ino r) = subtree s ino r"
  using assms
proof (induction d arbitrary: r)
  case 0
  show ?case
  proof (cases "bmap s ino r = 0")
    case True
    then show ?thesis using 0 subtree_0 [OF True] by (cases r) auto
  next
    case False
    then show ?thesis using 0 subtree_children [OF 0(1) False] by (simp add: node_path_child)
  qed
next
  case (Suc d)
  show ?case
  proof (cases "bmap s ino r = 0")
    case True
    then show ?thesis using Suc.prems subtree_0 [OF True] by (cases r) auto
  next
    case False
    have "sub (entries s) d (entries s (unat (bmap s ino r)) i) = subtree s ino (r @ [i])" if "i < 1024" for i
      using Suc.IH [of "r @ [i]"] Suc.prems that False by (simp add: node_path_child height_child bmap_child)
    then show ?thesis
      using False subtree_children [OF Suc.prems(1) False] Suc.prems by (simp add: node_path_child lessThan_def)
  qed
qed

lemma subtree_zone: "tree_wf I s \<Longrightarrow> ino \<in> I \<Longrightarrow> subtree s ino r \<subseteq> data_zone s \<inter> used_blocks s"
  unfolding subtree_def using tree_wf_node by blast

lemma subtree_disjoint:
  assumes "tree_wf I s" and "ino \<in> I" and "length r = length r'" and "r \<noteq> r'"
  shows "subtree s ino r \<inter> subtree s ino r' = {}"
proof (rule ccontr)
  assume "subtree s ino r \<inter> subtree s ino r' \<noteq> {}"
  then obtain e e' where e: "unat (bmap s ino (r @ e)) = unat (bmap s ino (r' @ e'))"
    "node_path (r @ e)" "node_path (r' @ e')" "bmap s ino (r @ e) \<noteq> 0"
    by (auto simp: subtree_def)
  then have "r @ e = r' @ e'" using tree_wf_inj [OF assms(1,2,2) e(2,3,4)] word_unat_eq by blast
  then show False using assms(3,4) by simp
qed

lemma node_not_below:
  assumes "tree_wf I s" and "ino \<in> I" and "node_path q" and "bmap s ino q \<noteq> 0" and "\<And>e. q \<noteq> r @ e"
  shows "unat (bmap s ino q) \<notin> subtree s ino r"
proof
  assume "unat (bmap s ino q) \<in> subtree s ino r"
  then obtain e where "unat (bmap s ino q) = unat (bmap s ino (r @ e))" "node_path (r @ e)"
    by (auto simp: subtree_def)
  then show False using tree_wf_inj [OF assms(1,2,2,3) _ assms(4)] word_unat_eq assms(5) by blast
qed

lemma tree_wf_tree:
  assumes wf: "tree_wf I s" and ino: "ino \<in> I" and "node_path r" and "height r = d"
  shows "tree (entries s) d (bmap s ino r)"
  using assms(3,4)
proof (induction d arbitrary: r)
  case (Suc d)
  show ?case
  proof (cases "bmap s ino r = 0")
    case False
    have child: "entries s (unat (bmap s ino r)) i = bmap s ino (r @ [i])" "node_path (r @ [i])" "height (r @ [i]) = d"
      if "i < 1024" for i
      using Suc.prems that False by (simp_all add: node_path_child height_child bmap_child)
    have t: "tree (entries s) d (entries s (unat (bmap s ino r)) i)"
      "unat (bmap s ino r) \<notin> sub (entries s) d (entries s (unat (bmap s ino r)) i)" if "i \<in> {..<1024}" for i
    proof -
      have i: "i < 1024" using that by simp
      show "tree (entries s) d (entries s (unat (bmap s ino r)) i)"
        unfolding child(1) [OF i] by (rule Suc.IH [OF child(2,3) [OF i]])
      show "unat (bmap s ino r) \<notin> sub (entries s) d (entries s (unat (bmap s ino r)) i)"
        unfolding child(1) [OF i] sub_subtree [OF child(2,3) [OF i]]
        by (rule node_not_below [OF wf ino Suc.prems(1) False]) simp
    qed
    have "sub (entries s) d (entries s (unat (bmap s ino r)) i) \<inter> sub (entries s) d (entries s (unat (bmap s ino r)) j) = {}"
      if ij: "i \<in> {..<1024}" "j \<in> {..<1024}" "i \<noteq> j" for i j
    proof -
      have i: "i < 1024" "j < 1024" using ij by simp_all
      show ?thesis
        unfolding child(1) [OF i(1)] child(1) [OF i(2)] sub_subtree [OF child(2,3) [OF i(1)]] sub_subtree [OF child(2,3) [OF i(2)]]
        by (rule subtree_disjoint [OF wf ino]) (use ij in simp_all)
    qed
    with t show ?thesis by simp
  qed simp
qed simp

lemma tree_wf_forest:
  assumes "tree_wf I s" and "ino \<in> I" and "distinct rs" and "\<And>r. r \<in> set rs \<Longrightarrow> node_path r \<and> height r = d \<and> length r = l"
  shows "forest (entries s) d (map (bmap s ino) rs)"
    "forest_blocks (entries s) d (map (bmap s ino) rs) = (\<Union>r\<in>set rs. subtree s ino r)"
proof -
  show "forest (entries s) d (map (bmap s ino) rs)"
    using assms(3,4)
  proof (induction rs)
    case (Cons r rs)
    have "subtree s ino r \<inter> subtree s ino r' = {}" if "r' \<in> set rs" for r'
      by (rule subtree_disjoint [OF assms(1,2)]) (use Cons.prems that in auto)
    then have "sub (entries s) d (bmap s ino r) \<inter> sub (entries s) d (bmap s ino r') = {}" if "r' \<in> set rs" for r'
      using that Cons.prems(2) [of r] Cons.prems(2) [of r'] by (simp add: sub_subtree)
    moreover have "tree (entries s) d (bmap s ino r)"
      by (rule tree_wf_tree [OF assms(1,2)]) (use Cons.prems(2) [of r] in simp_all)
    ultimately show ?case using Cons by auto
  qed simp
  show "forest_blocks (entries s) d (map (bmap s ino) rs) = (\<Union>r\<in>set rs. subtree s ino r)"
    using assms(4) by (auto simp: forest_blocks_def sub_subtree)
qed

section \<open>Cutting nodes off a file\<close>

definition below :: "nat list set \<Rightarrow> nat list \<Rightarrow> bool" where
  "below X r \<longleftrightarrow> (\<exists>x\<in>X. \<exists>e. r = x @ e)"

text \<open>
  \<open>cut I ino s s' X\<close>: the file \<open>ino\<close> has lost the nodes \<open>X\<close> and everything below them, exactly those
  blocks became free, and every other node of every file in \<open>I\<close> is where it was.
\<close>

definition cut :: "nat set \<Rightarrow> nat \<Rightarrow> fs \<Rightarrow> fs \<Rightarrow> nat list set \<Rightarrow> bool" where
  "cut I ino s s' X \<longleftrightarrow>
     sbi s' = sbi s \<and> sb_blocksize s' = sb_blocksize s \<and> sb_blocksize_bits s' = sb_blocksize_bits s \<and>
     alloc_inv s' \<and> tree_wf I s' \<and> used_blocks s' = used_blocks s - (\<Union>r\<in>X. subtree s ino r) \<and>
     (\<forall>i\<in>I. \<forall>r. node_path r \<longrightarrow> bmap s' i r = (if i = ino \<and> below X r then 0 else bmap s i r)) \<and>
     (\<forall>m. m \<notin> data_zone s \<longrightarrow> m \<notin> set (s_bam_bh (sbi s)) \<longrightarrow> bufs s' m = bufs s m) \<and>
     (\<forall>i. i \<noteq> ino \<longrightarrow> icache s' i = icache s i \<and> pages s' i = pages s i) \<and>
     icache s' ino = (icache s ino)\<lparr>i_mtime := i_mtime (icache s' ino), i_ctime := i_ctime (icache s' ino),
       i_dirty := i_dirty (icache s' ino), blkaddr := blkaddr (icache s' ino)\<rparr>"

lemma below_snoc: "below X (q @ [j]) \<longleftrightarrow> below X q \<or> q @ [j] \<in> X"
proof
  assume "below X (q @ [j])"
  then obtain x e where x: "x \<in> X" "q @ [j] = x @ e" by (auto simp: below_def)
  then show "below X q \<or> q @ [j] \<in> X"
    by (cases e rule: rev_cases) (auto simp: below_def)
next
  assume "below X q \<or> q @ [j] \<in> X"
  then show "below X (q @ [j])"
  proof
    assume "below X q"
    then obtain x e where "x \<in> X" "q = x @ e" by (auto simp: below_def)
    then have "x \<in> X" "q @ [j] = x @ (e @ [j])" by simp_all
    then show ?thesis unfolding below_def by blast
  next
    assume "q @ [j] \<in> X"
    moreover have "q @ [j] = (q @ [j]) @ []" by simp
    ultimately show ?thesis unfolding below_def by blast
  qed
qed

lemma node_not_in_subtrees:
  assumes "tree_wf I s" and "ino \<in> I" and "i \<in> I" and "node_path r" and "bmap s i r \<noteq> 0" and "\<not> (i = ino \<and> below X r)"
  shows "unat (bmap s i r) \<notin> (\<Union>x\<in>X. subtree s ino x)"
proof
  assume "unat (bmap s i r) \<in> (\<Union>x\<in>X. subtree s ino x)"
  then obtain x e where x: "x \<in> X" "unat (bmap s i r) = unat (bmap s ino (x @ e))" "node_path (x @ e)"
    by (auto simp: subtree_def)
  then have "i = ino \<and> r = x @ e" using tree_wf_inj [OF assms(1,3,2,4) x(3) assms(5)] word_unat_eq by blast
  then show False using assms(6) x(1) by (auto simp: below_def)
qed

lemma freed_bmap:
  assumes wf: "tree_wf I s" and ino: "ino \<in> I" and lay: "layout_wf s" and fr: "freed ino s s' Q T"
    and X: "\<And>x. x \<in> X \<Longrightarrow> attached s ino x" and Q: "{q \<in> Q. \<not> is_local q} = slot_of s ino ` X"
    and T: "T = (\<Union>x\<in>X. subtree s ino x)" and i: "i \<in> I" and r: "node_path r"
  shows "bmap s' i r = (if i = ino \<and> below X r then 0 else bmap s i r)"
  using r
proof (induction r rule: rev_induct)
  case (snoc j q)
  have zero: "get_slot s' (slot_of s ino x) = 0" if "x \<in> X" for x
    using freed_zero [OF fr, of "slot_of s ino x"] that Q by blast
  have nl: "\<exists>x\<in>X. slot_of s ino x = q'" if "q' \<in> Q" "\<not> is_local q'" for q'
  proof -
    have "q' \<in> {q \<in> Q. \<not> is_local q}" using that by simp
    then show ?thesis unfolding Q by (elim imageE) (rule bexI; simp)
  qed
  show ?case
  proof (cases "q = []")
    case True
    have X1: "slot_of s ino x = Inode_slot i j \<longleftrightarrow> i = ino \<and> x = [j]" if "x \<in> X" for x
      using X [OF that] by (cases x) (auto simp: slot_of_def attached_def)
    have "[] \<notin> X" using X [of "[]"] by (auto simp: attached_def)
    then have "\<not> below X []" by (auto simp: below_def)
    then have b: "below X [j] \<longleftrightarrow> [j] \<in> X" using below_snoc [of X "[]" j] by simp
    show ?thesis
    proof (cases "i = ino \<and> [j] \<in> X")
      case True
      then show ?thesis using zero [of "[j]"] b \<open>q = []\<close> by (simp add: slot_of_def)
    next
      case False
      have "Inode_slot i j \<notin> Q"
      proof
        assume "Inode_slot i j \<in> Q"
        then obtain x where "x \<in> X" "slot_of s ino x = Inode_slot i j" using nl by fastforce
        then show False using X1 False by blast
      qed
      then have "get_slot s' (Inode_slot i j) = get_slot s (Inode_slot i j)" by (rule freed_slot [OF fr]) simp
      then show ?thesis using False b \<open>q = []\<close> by auto
    qed
  next
    case False
    then have node: "node_path q" using snoc.prems node_path_prefix by blast
    note IH = snoc.IH [OF node]
    show ?thesis
    proof (cases "i = ino \<and> below X q \<or> bmap s i q = 0")
      case True
      then show ?thesis using IH False by (auto simp: bmap_snoc below_snoc)
    next
      case nz: False
      then have eq: "bmap s' i q = bmap s i q" using IH by auto
      let ?b = "unat (bmap s i q)"
      have val: "bmap s' i (q @ [j]) = get_slot s' (Block_slot ?b j)" "bmap s i (q @ [j]) = get_slot s (Block_slot ?b j)"
        using nz False eq by (simp_all add: bmap_snoc)
      have X1: "slot_of s ino x = Block_slot ?b j \<longleftrightarrow> i = ino \<and> x = q @ [j]" if "x \<in> X" for x
      proof
        assume a: "slot_of s ino x = Block_slot ?b j"
        then have x: "length x \<noteq> 1" "bmap s ino (butlast x) = bmap s i q" "last x = j"
          using word_unat_eq by (auto simp: slot_of_def split: if_splits)
        then have xn: "node_path x" "x \<noteq> []" using X [OF that] by (auto simp: attached_def)
        then have "node_path (butlast x)"
          using x(1) node_path_prefix [of "butlast x" "[last x]"] by (cases x rule: rev_cases) auto
        then have "ino = i \<and> butlast x = q"
          using tree_wf_inj [OF wf ino i _ node, of "butlast x"] x(2) nz by simp
        then show "i = ino \<and> x = q @ [j]" using x(3) xn(2) by (metis append_butlast_last_id)
      next
        assume "i = ino \<and> x = q @ [j]"
        then show "slot_of s ino x = Block_slot ?b j" using False by (simp add: slot_of_def)
      qed
      show ?thesis
      proof (cases "i = ino \<and> q @ [j] \<in> X")
        case True
        then show ?thesis using zero [of "q @ [j]"] X1 [of "q @ [j]"] val by (simp add: below_snoc)
      next
        case notin: False
        have "Block_slot ?b j \<notin> Q"
        proof
          assume "Block_slot ?b j \<in> Q"
          then obtain x where "x \<in> X" "slot_of s ino x = Block_slot ?b j" using nl by fastforce
          then show False using X1 notin by blast
        qed
        moreover have "outside s T (Block_slot ?b j)"
          using node_not_in_subtrees [OF wf ino i node, of X] nz tree_wf_node [OF wf i node] zone_not_bam [OF lay]
          by (auto simp: T)
        ultimately have "get_slot s' (Block_slot ?b j) = get_slot s (Block_slot ?b j)" by (rule freed_slot [OF fr])
        then show ?thesis using notin nz val by (auto simp: below_snoc)
      qed
    qed
  qed
qed simp

lemma freed_cut:
  assumes wf: "tree_wf I s" and ino: "ino \<in> I" and lay: "layout_wf s" and fr: "freed ino s s' Q T"
    and X: "\<And>x. x \<in> X \<Longrightarrow> attached s ino x" and Q: "{q \<in> Q. \<not> is_local q} = slot_of s ino ` X"
    and T: "T = (\<Union>x\<in>X. subtree s ino x)"
  shows "cut I ino s s' X"
proof -
  note bm = freed_bmap [OF wf ino lay fr X Q T]
  note fs = freed_simps [OF fr]
  have "tree_wf I s'"
    unfolding tree_wf_def
  proof (intro conjI ballI allI impI)
    fix i r
    assume a: "i \<in> I" "node_path r" "bmap s' i r \<noteq> 0"
    then have b: "bmap s' i r = bmap s i r" "\<not> (i = ino \<and> below X r)" using bm [OF _ a(1,2)] by (auto split: if_splits)
    then show "unat (bmap s' i r) \<in> data_zone s' \<inter> used_blocks s'"
      using tree_wf_node [OF wf a(1,2)] node_not_in_subtrees [OF wf ino a(1,2) _ b(2)] a(3) fs by (simp add: T)
  next
    fix i j q r
    assume a: "i \<in> I" "j \<in> I" "node_path q" "node_path r" "bmap s' i q \<noteq> 0" "bmap s' i q = bmap s' j r"
    have "bmap s' i q = bmap s i q" using bm [OF _ a(1,3)] a(5) by (auto split: if_splits)
    moreover have "bmap s' j r = bmap s j r" using bm [OF _ a(2,4)] a(5,6) by (auto split: if_splits)
    ultimately have "bmap s i q \<noteq> 0" "bmap s i q = bmap s j r" using a(5,6) by metis+
    with tree_wf_inj [OF wf a(1-4)] show "i = j" "q = r" by blast+
  qed
  moreover have "icache s' ino = (icache s ino)\<lparr>i_mtime := i_mtime (icache s' ino), i_ctime := i_ctime (icache s' ino),
       i_dirty := i_dirty (icache s' ino), blkaddr := blkaddr (icache s' ino)\<rparr>"
  proof -
    have "icache s' ino = (icache s ino)\<lparr>i_dirty := i_dirty (icache s' ino), blkaddr := blkaddr (icache s' ino)\<rparr>"
      using fr by (simp add: freed_def)
    then show ?thesis by (cases "icache s ino"; cases "icache s' ino") simp
  qed
  moreover have "pages s' = pages s" "sb_blocksize s' = sb_blocksize s" "sb_blocksize_bits s' = sb_blocksize_bits s"
    "\<And>m. m \<notin> data_zone s \<Longrightarrow> m \<notin> set (s_bam_bh (sbi s)) \<Longrightarrow> bufs s' m = bufs s m"
    "\<And>i. i \<noteq> ino \<Longrightarrow> icache s' i = icache s i"
    using fr by (simp_all add: freed_def)
  ultimately show ?thesis
    unfolding cut_def using fs bm by (simp add: T)
qed

lemma cut_refl: "tree_wf I s \<Longrightarrow> alloc_inv s \<Longrightarrow> cut I ino s s {}"
  by (simp add: cut_def below_def)

lemma cut_simps:
  assumes "cut I ino s s' X"
  shows "sbi s' = sbi s" "alloc_inv s'" "tree_wf I s'" "data_zone s' = data_zone s" "layout_wf s' = layout_wf s"
    "tree_geom s' = tree_geom s" "block_end s' = block_end s" "used_blocks s' = used_blocks s - (\<Union>r\<in>X. subtree s ino r)"
    "block_to_path s' = block_to_path s"
proof -
  show s: "sbi s' = sbi s" "alloc_inv s'" "tree_wf I s'" "used_blocks s' = used_blocks s - (\<Union>r\<in>X. subtree s ino r)"
    using assms by (simp_all add: cut_def)
  show "data_zone s' = data_zone s" by (simp add: data_zone_def s)
  show "layout_wf s' = layout_wf s" "tree_geom s' = tree_geom s" "block_end s' = block_end s"
    using assms by (simp_all add: cut_def layout_wf_def tree_geom_def block_end_def)
  show "block_to_path s' = block_to_path s"
    using assms by (simp add: fun_eq_iff block_to_path_def cut_def INDIRCOUNT_def)
qed

lemma cut_bmap:
  "cut I ino s s' X \<Longrightarrow> i \<in> I \<Longrightarrow> node_path r \<Longrightarrow> bmap s' i r = (if i = ino \<and> below X r then 0 else bmap s i r)"
  by (simp add: cut_def)

lemma below_Un: "below (X \<union> Y) r \<longleftrightarrow> below X r \<or> below Y r"
  by (auto simp: below_def)

lemma cut_trans:
  assumes a: "cut I ino s s1 X" and b: "cut I ino s1 s2 Y" and ino: "ino \<in> I"
  shows "cut I ino s s2 (X \<union> Y)"
proof -
  note fa = cut_simps [OF a] and fb = cut_simps [OF b]
  have sub: "subtree s1 ino y = {unat (bmap s ino (y @ e)) |e. node_path (y @ e) \<and> bmap s ino (y @ e) \<noteq> 0 \<and> \<not> below X (y @ e)}" for y
    unfolding subtree_def using cut_bmap [OF a ino] by auto metis+
  have cover: "subtree s ino y \<subseteq> subtree s1 ino y \<union> (\<Union>x\<in>X. subtree s ino x)" for y
  proof
    fix b
    assume "b \<in> subtree s ino y"
    then obtain e where e: "b = unat (bmap s ino (y @ e))" "node_path (y @ e)" "bmap s ino (y @ e) \<noteq> 0"
      by (auto simp: subtree_def)
    show "b \<in> subtree s1 ino y \<union> (\<Union>x\<in>X. subtree s ino x)"
    proof (cases "below X (y @ e)")
      case True
      then obtain x e' where "x \<in> X" "y @ e = x @ e'" by (auto simp: below_def)
      then have "b \<in> subtree s ino x" using e by (auto simp: subtree_def)
      with \<open>x \<in> X\<close> show ?thesis by blast
    qed (use e in \<open>auto simp: sub\<close>)
  qed
  have "subtree s1 ino y \<subseteq> subtree s ino y" for y
    unfolding sub [of y] unfolding subtree_def by blast
  with cover have un: "(\<Union>x\<in>X. subtree s ino x) \<union> (\<Union>y\<in>Y. subtree s1 ino y) = (\<Union>r\<in>X \<union> Y. subtree s ino r)" by blast
  have "used_blocks s2 = used_blocks s - ((\<Union>x\<in>X. subtree s ino x) \<union> (\<Union>y\<in>Y. subtree s1 ino y))"
    unfolding fa(8) fb(8) by blast
  then have used: "used_blocks s2 = used_blocks s - (\<Union>r\<in>X \<union> Y. subtree s ino r)" unfolding un .
  have "icache s2 ino = (icache s ino)\<lparr>i_mtime := i_mtime (icache s2 ino), i_ctime := i_ctime (icache s2 ino),
       i_dirty := i_dirty (icache s2 ino), blkaddr := blkaddr (icache s2 ino)\<rparr>"
  proof -
    have "icache s1 ino = (icache s ino)\<lparr>i_mtime := i_mtime (icache s1 ino), i_ctime := i_ctime (icache s1 ino),
       i_dirty := i_dirty (icache s1 ino), blkaddr := blkaddr (icache s1 ino)\<rparr>"
      "icache s2 ino = (icache s1 ino)\<lparr>i_mtime := i_mtime (icache s2 ino), i_ctime := i_ctime (icache s2 ino),
       i_dirty := i_dirty (icache s2 ino), blkaddr := blkaddr (icache s2 ino)\<rparr>"
      using a b by (simp_all add: cut_def)
    then show ?thesis by (cases "icache s ino"; cases "icache s1 ino"; cases "icache s2 ino") simp
  qed
  moreover have "bmap s2 i r = (if i = ino \<and> below (X \<union> Y) r then 0 else bmap s i r)" if "i \<in> I" "node_path r" for i r
    using cut_bmap [OF a that] cut_bmap [OF b that] by (auto simp: below_Un)
  ultimately show ?thesis
    unfolding cut_def used using a b fa(1,4) by (simp add: cut_def)
qed

text \<open>The bookkeeping between the steps does not matter.\<close>

lemma cut_same:
  assumes c: "cut I ino s s1 X" and "sbi s2 = sbi s1" "sb_blocksize s2 = sb_blocksize s1"
    "sb_blocksize_bits s2 = sb_blocksize_bits s1" "bufs s2 = bufs s1"
    and "\<And>i. i \<noteq> ino \<Longrightarrow> icache s2 i = icache s1 i \<and> pages s2 i = pages s1 i"
    and u: "icache s2 ino = (icache s1 ino)\<lparr>i_mtime := i_mtime (icache s2 ino), i_ctime := i_ctime (icache s2 ino),
       i_dirty := i_dirty (icache s2 ino)\<rparr>"
  shows "cut I ino s s2 X"
proof -
  have ba: "blkaddr (icache s2 ino) = blkaddr (icache s1 ino)" using u by (metis inode.select_convs(15) inode.surjective inode.update_convs(10) inode.update_convs(9) inode.update_convs(14))
  have bm: "bmap s2 i r = bmap s1 i r" for i r
    by (rule bmap_eqI [OF assms(5)]) (use assms(6) [of i] ba in \<open>cases "i = ino"; simp\<close>)
  note ai = alloc_inv_cong [OF assms(2,4) fun_cong [OF assms(5)]]
  have "icache s1 ino = (icache s ino)\<lparr>i_mtime := i_mtime (icache s1 ino), i_ctime := i_ctime (icache s1 ino),
       i_dirty := i_dirty (icache s1 ino), blkaddr := blkaddr (icache s1 ino)\<rparr>" using c by (simp add: cut_def)
  then have "icache s2 ino = (icache s ino)\<lparr>i_mtime := i_mtime (icache s2 ino), i_ctime := i_ctime (icache s2 ino),
       i_dirty := i_dirty (icache s2 ino), blkaddr := blkaddr (icache s2 ino)\<rparr>"
    using u by (cases "icache s ino"; cases "icache s1 ino"; cases "icache s2 ino") simp
  moreover have "tree_wf I s2" by (rule tree_wf_cong [OF cut_simps(3) [OF c] bm]) (simp_all add: ai)
  ultimately show ?thesis
    using c assms(2-6) bm ai unfolding cut_def by simp
qed

lemma slot_of_inj:
  assumes "tree_wf I s" and "ino \<in> I" and "attached s ino r" and "attached s ino r'" and "slot_of s ino r = slot_of s ino r'"
  shows "r = r'"
proof (cases "length r = 1")
  case True
  then show ?thesis using assms(5) by (cases r; cases r') (auto simp: slot_of_def split: if_splits)
next
  case False
  then have r': "length r' \<noteq> 1" "bmap s ino (butlast r) = bmap s ino (butlast r')" "last r = last r'"
    using assms(5) word_unat_eq by (auto simp: slot_of_def split: if_splits)
  have n: "node_path (butlast q) \<and> q \<noteq> [] \<and> bmap s ino (butlast q) \<noteq> 0"
    if "attached s ino q" "length q \<noteq> 1" for q
    using that node_path_prefix [of "butlast q" "[last q]"] by (cases q rule: rev_cases) (auto simp: attached_def)
  have "butlast r = butlast r'"
    using tree_wf_inj [OF assms(1,2,2)] n [OF assms(3) False] n [OF assms(4) r'(1)] r'(2) by blast
  then show ?thesis using n [OF assms(3) False] n [OF assms(4) r'(1)] r'(3) by (metis append_butlast_last_id)
qed

lemma good_slot_of:
  assumes wf: "tree_wf I s" and ino: "ino \<in> I" and att: "attached s ino r" and rs: "\<And>x. x \<in> X \<Longrightarrow> length x = length r"
  shows "good_slot ino s (\<Union>x\<in>X. subtree s ino x) (slot_of s ino r)"
proof (cases "length r = 1")
  case False
  then have b: "node_path (butlast r)" "r \<noteq> []" "bmap s ino (butlast r) \<noteq> 0"
    using att node_path_prefix [of "butlast r" "[last r]"] by (cases r rule: rev_cases; auto simp: attached_def)+
  have "\<not> below X (butlast r)"
  proof
    assume "below X (butlast r)"
    then obtain x e where "x \<in> X" "butlast r = x @ e" by (auto simp: below_def)
    then have "length x \<le> length r - 1" by (metis le_add1 length_append length_butlast)
    then show False using rs [OF \<open>x \<in> X\<close>] b(2) by (cases r) simp_all
  qed
  then show ?thesis
    using node_not_in_subtrees [OF wf ino ino b(1,3), of X] tree_wf_node [OF wf ino b(1,3)] False
    by (simp add: slot_of_def)
qed (simp add: slot_of_def)

lemma slot_of_not_local [simp]: "\<not> is_local (slot_of s ino r)"
  by (simp add: slot_of_def)

context block_tree
begin

lemma cut_list:
  assumes inv: "alloc_inv s" "layout_wf s" "tree_geom s" and wf: "tree_wf I s" and ino: "ino \<in> I"
    and read: "\<And>bf n. sb_bread K bf n \<noteq> None"
    and rs: "distinct rs" "\<And>r. r \<in> set rs \<Longrightarrow> attached s ino r \<and> height r = d \<and> length r = l"
  shows "cut I ino s (free_branches K ino d (map (slot_of s ino) rs) s) (set rs)"
proof -
  have v: "map (get_slot s) (map (slot_of s ino) rs) = map (bmap s ino) rs"
    using rs(2) get_slot_slot_of by simp
  have np: "node_path r \<and> height r = d \<and> length r = l" if "r \<in> set rs" for r
    using rs(2) [OF that] by (simp add: attached_def)
  have f: "forest (entries s) d (map (bmap s ino) rs)"
    "forest_blocks (entries s) d (map (bmap s ino) rs) = (\<Union>r\<in>set rs. subtree s ino r)"
    by (rule tree_wf_forest [OF wf ino rs(1)], rule np, assumption)+
  have T: "(\<Union>r\<in>set rs. subtree s ino r) \<subseteq> data_zone s" using subtree_zone [OF wf ino] by blast
  have "distinct (map (slot_of s ino) rs)"
    unfolding distinct_map using rs by (auto intro!: inj_onI dest: slot_of_inj [OF wf ino])
  moreover have "good_slot ino s (\<Union>x\<in>set rs. subtree s ino x) q" if "q \<in> set (map (slot_of s ino) rs)" for q
    using that good_slot_of [OF wf ino, of _ "set rs"] rs(2) by fastforce
  ultimately have "freeable ino d s (map (slot_of s ino) rs)"
    unfolding freeable_def Let_def v f(2) using inv f(1) T by simp
  from free_branches_freed [OF this read]
  have "freed ino s (free_branches K ino d (map (slot_of s ino) rs) s) (slot_of s ino ` set rs) (\<Union>r\<in>set rs. subtree s ino r)"
    unfolding v f(2) by simp
  then show ?thesis
    by (rule freed_cut [OF wf ino inv(2)]) (use rs(2) in auto)
qed

text \<open>A subtree whose pointer was moved to a local variable first.\<close>

lemma cut_local:
  assumes inv: "alloc_inv s" "layout_wf s" "tree_geom s" and wf: "tree_wf I s" and ino: "ino \<in> I"
    and read: "\<And>bf n. sb_bread K bf n \<noteq> None"
    and r: "attached s ino r" "height r = d"
    and s1: "s1 = put_slot (slot_of s ino r) 0 s"
    and s2: "sbi s2 = sbi s1" "sb_blocksize s2 = sb_blocksize s1" "sb_blocksize_bits s2 = sb_blocksize_bits s1"
      "bufs s2 = bufs s1" "pages s2 = pages s1" "\<And>i. i \<noteq> ino \<Longrightarrow> icache s2 i = icache s1 i"
      "icache s2 ino = (icache s1 ino)\<lparr>i_dirty := i_dirty (icache s2 ino)\<rparr>"
  shows "cut I ino s (free_branches K ino d [Local_slot (bmap s ino r)] s2) {r}"
proof -
  have np: "node_path r" using r(1) by (simp add: attached_def)
  have g: "good_slot ino s (subtree s ino r) (slot_of s ino r)"
    using good_slot_of [OF wf ino r(1), of "{r}"] by simp
  have a1: "freed ino s s1 {slot_of s ino r} {}" unfolding s1 by (rule freed_put_slot [OF inv(1,2) g])
  have ba: "blkaddr (icache s2 ino) = blkaddr (icache s1 ino)"
    using s2(7) by (cases "icache s1 ino"; cases "icache s2 ino") simp
  have gs: "get_slot s2 q = get_slot s1 q" for q
    using s2(4,6) ba by (cases q) (metis get_slot.simps)+
  note ai = alloc_inv_cong [OF s2(1,3) fun_cong [OF s2(4)]]
  have "icache s1 ino = (icache s ino)\<lparr>i_dirty := i_dirty (icache s1 ino), blkaddr := blkaddr (icache s1 ino)\<rparr>"
    using a1 by (simp add: freed_def)
  then have ic: "icache s2 ino = (icache s ino)\<lparr>i_dirty := i_dirty (icache s2 ino), blkaddr := blkaddr (icache s2 ino)\<rparr>"
    using s2(7) by (cases "icache s ino"; cases "icache s1 ino"; cases "icache s2 ino") simp
  have a2: "freed ino s s2 {slot_of s ino r} {}"
    unfolding freed_def
    by (intro conjI ic) (use a1 s2 ai in \<open>simp_all add: freed_def gs\<close>)
  note fa = freed_simps [OF a2]
  have T: "sub (entries s) d (bmap s ino r) = subtree s ino r" by (rule sub_subtree [OF np r(2)])
  have Tz: "subtree s ino r \<subseteq> data_zone s" using subtree_zone [OF wf ino] by blast
  have nb: "b \<notin> subtree s ino r" if "Block_slot b i \<in> {slot_of s ino r}" for b i
  proof -
    have "slot_of s ino r = Block_slot b i" using that by simp
    then show ?thesis using g by simp
  qed
  have "entries s2 b i = entries s b i" if "b \<in> sub (entries s) d (bmap s ino r)" for b i
    by (rule freed_entries [OF a2]) (use that T Tz nb inv in auto)
  then have e: "sub (entries s2) d (bmap s ino r) = subtree s ino r" "tree (entries s2) d (bmap s ino r)"
    using sub_cong [of "entries s" d "bmap s ino r" "entries s2"] tree_cong [of "entries s" d "bmap s ino r" "entries s2"]
      tree_wf_tree [OF wf ino np r(2)] T by auto
  have "freeable ino d s2 [Local_slot (bmap s ino r)]"
    unfolding freeable_def Let_def using fa inv e Tz by simp
  from free_branches_freed [OF this read]
  have b: "freed ino s2 (free_branches K ino d [Local_slot (bmap s ino r)] s2) {Local_slot (bmap s ino r)} (subtree s ino r)"
    using e by simp
  have "freed ino s (free_branches K ino d [Local_slot (bmap s ino r)] s2)
      ({slot_of s ino r} \<union> {Local_slot (bmap s ino r)}) ({} \<union> subtree s ino r)"
    by (rule freed_trans [OF a2 b])
      (use good_outside [OF g inv(2)] in \<open>auto simp: slot_of_def\<close>)
  then show ?thesis
    by (rule freed_cut [OF wf ino inv(2)]) (use r in auto)
qed

end

context block_tree
begin

lemma cut_do_indirects:
  assumes inv: "alloc_inv s" "layout_wf s" "tree_geom s" and wf: "tree_wf I s" and ino: "ino \<in> I"
    and read: "\<And>bf n. sb_bread K bf n \<noteq> None" and ws: "\<And>w. w \<in> set ws \<Longrightarrow> w < 3"
  shows "cut I ino s (do_indirects K ino ws s) ((\<lambda>w. [6 + w]) ` set ws)"
  using inv wf ws
proof (induction ws arbitrary: s)
  case Nil
  then show ?case by (simp add: cut_refl)
next
  case (Cons w ws)
  have w: "w < 3" using Cons.prems(5) by simp
  have att: "attached s ino [6 + w]" and sl: "slot_of s ino [6 + w] = Inode_slot ino (6 + w)"
    using w by (simp_all add: attached_def slot_of_def)
  define s1 where "s1 = (if blkaddr (icache s ino) (6 + w) = 0 then s
    else free_branches K ino (w + 1) [Local_slot (blkaddr (icache s ino) (6 + w))]
      (mark_inode_dirty ino (put_slot (Inode_slot ino (6 + w)) 0 s)))"
  have c: "cut I ino s s1 {[6 + w]}"
  proof (cases "blkaddr (icache s ino) (6 + w) = 0")
    case True
    have "subtree s ino [6 + w] = {}" by (rule subtree_0) (simp_all add: True)
    moreover have "bmap s ino r = 0" if "below {[6 + w]} r" for r
      using that True bmap_prefix [of s ino "[6 + w]"] by (auto simp: below_def)
    ultimately show ?thesis using True Cons.prems(1,4) by (auto simp: cut_def s1_def)
  next
    case False
    have "cut I ino s (free_branches K ino (w + 1) [Local_slot (bmap s ino [6 + w])]
        (mark_inode_dirty ino (put_slot (slot_of s ino [6 + w]) 0 s))) {[6 + w]}"
      by (rule cut_local [OF Cons.prems(1-4) ino read att _ refl]) (simp_all add: height_def)
    then show ?thesis using False by (simp add: s1_def sl)
  qed
  have e: "do_indirects K ino (w # ws) s = do_indirects K ino ws s1" by (simp add: s1_def Let_def)
  note f = cut_simps [OF c]
  have "cut I ino s1 (do_indirects K ino ws s1) ((\<lambda>w. [6 + w]) ` set ws)"
    by (rule Cons.IH) (use f Cons.prems in auto)
  from cut_trans [OF c this ino] show ?case unfolding e by simp
qed

lemma truncate_page_frame:
  "sbi (block_truncate_page K s ino n) = sbi s" "bufs (block_truncate_page K s ino n) = bufs s"
  "icache (block_truncate_page K s ino n) = icache s" "sb_blocksize (block_truncate_page K s ino n) = sb_blocksize s"
  "sb_blocksize_bits (block_truncate_page K s ino n) = sb_blocksize_bits s" "b_dirty (block_truncate_page K s ino n) = b_dirty s"
  by (subst truncate_page; simp)+

lemma truncate_page_inv:
  "alloc_inv (block_truncate_page K s ino n) = alloc_inv s" "layout_wf (block_truncate_page K s ino n) = layout_wf s"
  "tree_geom (block_truncate_page K s ino n) = tree_geom s" "bmap (block_truncate_page K s ino n) = bmap s"
  "data_zone (block_truncate_page K s ino n) = data_zone s" "used_blocks (block_truncate_page K s ino n) = used_blocks s"
  "subtree (block_truncate_page K s ino n) = subtree s"
proof -
  note f = truncate_page_frame
  note c = alloc_inv_cong [of "block_truncate_page K s ino n" s]
  show "alloc_inv (block_truncate_page K s ino n) = alloc_inv s" "data_zone (block_truncate_page K s ino n) = data_zone s"
    "used_blocks (block_truncate_page K s ino n) = used_blocks s" by (rule c; simp add: f)+
  show "layout_wf (block_truncate_page K s ino n) = layout_wf s" "tree_geom (block_truncate_page K s ino n) = tree_geom s"
    by (simp_all add: layout_wf_def tree_geom_def f)
  show b: "bmap (block_truncate_page K s ino n) = bmap s" by (intro ext bmap_eqI) (simp_all add: f)
  show "subtree (block_truncate_page K s ino n) = subtree s" by (simp add: subtree_def b fun_eq_iff)
qed

lemma cut_truncate_page:
  assumes "cut I ino (block_truncate_page K s ino n) s' X"
  shows "cut I ino s s' X"
  using assms truncate_page_other unfolding cut_def truncate_page_inv truncate_page_frame by simp

lemma truncate_all:
  assumes inv: "alloc_inv s" "layout_wf s" "tree_geom s" and wf: "tree_wf I s" and ino: "ino \<in> I"
    and read: "\<And>bf n. sb_bread K bf n \<noteq> None" and sz: "i_size (icache s ino) = 0" and nb: "0 < unat (s_nblocks (sbi s))"
  shows "cut I ino s (gas_truncate_inode K s ino) {[i] |i. i < 9}"
proof -
  let ?s0 = "block_truncate_page K s ino 0"
  have geom: "sb_blocksize s = 4096" "sb_blocksize_bits s = 12" using inv(3) by (simp_all add: tree_geom_def)
  have ib: "drop_bit 12 (4095 :: nat) = 0" by (simp add: drop_bit_eq_div)
  have path: "block_to_path ?s0 0 = [0]"
    using block_to_path_eq [of ?s0 0] nb geom by (simp add: truncate_page_frame file_path_def)
  have inv0: "alloc_inv ?s0" "layout_wf ?s0" "tree_geom ?s0" "tree_wf I ?s0"
    using inv wf by (simp_all add: truncate_page_inv tree_wf_def)
  define s1 where "s1 = free_branches K ino 0 (map (slot_of ?s0 ino) (map (\<lambda>i. [i]) [0..<6])) ?s0"
  have c1: "cut I ino ?s0 s1 (set (map (\<lambda>i. [i]) [0..<6]))"
    unfolding s1_def
    by (rule cut_list [OF inv0 ino read, where l = 1]) (auto simp: distinct_map inj_on_def attached_def height_def)
  have s1: "s1 = free_data K (map (Inode_slot ino) [0..<6]) ?s0"
    by (simp add: s1_def slot_of_def o_def del: upt_Suc)
  note f = cut_simps [OF c1]
  have c2: "cut I ino s1 (do_indirects K ino [0..<3] s1) ((\<lambda>w. [6 + w]) ` set [0..<3])"
    by (rule cut_do_indirects [OF _ _ _ f(3) ino read]) (use f inv0 in auto)
  have X: "set (map (\<lambda>i. [i]) [0..<6]) \<union> (\<lambda>w. [6 + w]) ` set [0..<3] = {[i] |i. i < (9::nat)}"
  proof -
    have "(\<lambda>w. [6 + w]) ` set [0..<3] = (\<lambda>i. [i]) ` {6..<(9::nat)}"
    proof -
      have "(\<lambda>w. 6 + w) ` set [0..<3] = {6..<(9::nat)}"
        using image_add_atLeastLessThan [of 6 0 "3::nat"] by simp
      moreover have "(\<lambda>w. [6 + w]) ` set [0..<3] = (\<lambda>i. [i]) ` ((\<lambda>w. 6 + w) ` set [0..<3])"
        by (simp only: image_image)
      ultimately show ?thesis by simp
    qed
    moreover have "{..<6} \<union> {6..<(9::nat)} = {..<9}" by auto
    then have "(\<lambda>i. [i]) ` {..<6} \<union> (\<lambda>i. [i]) ` {6..<(9::nat)} = (\<lambda>i. [i]) ` {..<9}"
      by (simp only: image_Un [symmetric])
    ultimately show ?thesis by (auto simp: lessThan_atLeast0)
  qed
  have c: "cut I ino ?s0 (do_indirects K ino [0..<3] s1) {[i] |i. i < 9}"
    using cut_trans [OF c1 c2 ino] unfolding X .
  have g: "gas_truncate_inode K s ino = mark_inode_dirty ino (upd_inode ino
      (\<lambda>i. i\<lparr>i_mtime := current_time_sec K, i_ctime := current_time_sec K\<rparr>) (do_indirects K ino [0..<3] s1))"
    by (simp add: gas_truncate_inode_def Let_def sz geom ib path s1 del: upt_Suc)
  have "cut I ino ?s0 (gas_truncate_inode K s ino) {[i] |i. i < 9}"
    unfolding g by (rule cut_same [OF c]) simp_all
  then show ?thesis by (rule cut_truncate_page)
qed

end

end
