(* ===== verification/Gas_Truncate.thy ===== *)
theory Gas_Truncate
  imports Gas_Itree_Free
begin

text \<open>
  What \<^verbatim>\<open>gas_truncate_inode\<close> (\<^verbatim>\<open>src/kern/gas_itree.c\<close>) keeps and frees for any file size. The path
  of the first block to go splits the tree: \<^verbatim>\<open>find_shared\<close> detaches a subtree on the path,
  \<open>clear_ends\<close> frees what lies right of the path inside the shared indirect blocks, and
  \<open>do_indirects\<close> the trees of the higher roots.
\<close>

section \<open>Paths in the order of block numbers\<close>

definition path_less :: "nat list \<Rightarrow> nat list \<Rightarrow> bool" where
  "path_less r q \<longleftrightarrow> (\<exists>j. j < length r \<and> j < length q \<and> take j r = take j q \<and> r ! j < q ! j)"

lemma path_lessI: "j < length r \<Longrightarrow> j < length q \<Longrightarrow> take j r = take j q \<Longrightarrow> r ! j < q ! j \<Longrightarrow> path_less r q"
  by (auto simp: path_less_def)

lemma path_less_Cons: "path_less (a # r) (b # q) \<longleftrightarrow> a < b \<or> a = b \<and> path_less r q"
proof
  assume "path_less (a # r) (b # q)"
  then obtain j where j: "j < length (a # r)" "j < length (b # q)" "take j (a # r) = take j (b # q)"
    "(a # r) ! j < (b # q) ! j" by (auto simp: path_less_def)
  show "a < b \<or> a = b \<and> path_less r q"
    using j by (cases j) (auto simp: path_less_def)
next
  assume "a < b \<or> a = b \<and> path_less r q"
  then show "path_less (a # r) (b # q)"
  proof
    assume "a < b"
    then show ?thesis by (intro path_lessI [of 0]) simp_all
  next
    assume "a = b \<and> path_less r q"
    then obtain j where "a = b" "j < length r" "j < length q" "take j r = take j q" "r ! j < q ! j"
      by (auto simp: path_less_def)
    then show ?thesis by (intro path_lessI [of "Suc j"]) simp_all
  qed
qed

lemma path_less_Nil [simp]: "\<not> path_less [] q" "\<not> path_less r []"
  by (auto simp: path_less_def)

lemma digits_less: "i < 1024 \<Longrightarrow> i' < 1024 \<Longrightarrow> 1024 * a + i < 1024 * a' + i' \<longleftrightarrow> a < a' \<or> a = a' \<and> i < (i'::nat)"
proof -
  assume i: "i < 1024" "i' < 1024"
  consider "a < a'" | "a = a'" | "a' < a" by linarith
  then show ?thesis
  proof cases
    case 1
    then have "1024 * (a + 1) \<le> 1024 * a'" by simp
    then show ?thesis using i 1 by linarith
  next
    case 3
    then have "1024 * (a' + 1) \<le> 1024 * a" by simp
    then show ?thesis using i 3 by linarith
  qed simp
qed

lemma data_path_cases:
  assumes "data_path r"
  obtains (direct) i where "r = [i]" "i < 6" "path_block r = i"
  | (single) i where "r = [6, i]" "i < 1024" "path_block r = 6 + i"
  | (double) j i where "r = [7, j, i]" "i < 1024" "j < 1024" "path_block r = 6 + 1024 + (1024 * j + i)"
  | (triple) k j i where "r = [8, k, j, i]" "i < 1024" "j < 1024" "k < 1024"
      "path_block r = 6 + 1024 + 1024 * 1024 + (1024 * (1024 * k + j) + i)"
proof -
  obtain h os where r: "r = h # os" using assms by (cases r) auto
  then have h: "h < 9" "length os = h - 5" "\<forall>i\<in>set os. i < 1024" using assms by simp_all
  consider "h < 6" | "h = 6" | "h = 7" | "h = 8" using h(1) by linarith
  then show thesis
  proof cases
    case 1
    then show thesis using h r by (intro direct [of h]) auto
  next
    case 2
    then obtain i where "os = [i]" using h(2) by (auto simp: length_Suc_conv)
    then show thesis using h r 2 by (intro single [of i]) auto
  next
    case 3
    then obtain j i where "os = [j, i]" using h(2) by (auto simp: length_Suc_conv numeral_2_eq_2)
    then show thesis using h r 3 by (intro double [of j i]) auto
  next
    case 4
    then obtain k j i where "os = [k, j, i]" using h(2) by (auto simp: length_Suc_conv numeral_3_eq_3)
    then show thesis using h r 4 by (intro triple [of k j i]) auto
  qed
qed

lemma path_block_bounds:
  assumes "data_path r"
  shows "hd r < 6 \<Longrightarrow> path_block r = hd r" "hd r = 6 \<Longrightarrow> 6 \<le> path_block r \<and> path_block r < 1030"
    "hd r = 7 \<Longrightarrow> 1030 \<le> path_block r \<and> path_block r < 1049606" "hd r = 8 \<Longrightarrow> 1049606 \<le> path_block r"
  using assms by (cases rule: data_path_cases; simp)+

lemma path_less_block:
  assumes r: "data_path r" and q: "data_path q"
  shows "path_less r q \<longleftrightarrow> path_block r < path_block q"
proof (cases "hd r = hd q")
  case True
  show ?thesis
    using r
  proof (cases rule: data_path_cases)
    case (direct i)
    then show ?thesis using q True by (cases rule: data_path_cases [OF q]) (auto simp: path_less_Cons)
  next
    case (single i)
    then show ?thesis using True by (cases rule: data_path_cases [OF q]) (auto simp: path_less_Cons)
  next
    case (double j i)
    then show ?thesis using True by (cases rule: data_path_cases [OF q]) (auto simp: path_less_Cons digits_less)
  next
    case (triple k j i)
    then show ?thesis using True by (cases rule: data_path_cases [OF q]) (auto simp: path_less_Cons digits_less)
  qed
next
  case False
  have ne: "r \<noteq> []" "q \<noteq> []" "hd r < 9" "hd q < 9" using r q by (auto simp: data_path_node hd_node_path)
  then have "path_less r q \<longleftrightarrow> hd r < hd q" using False by (cases r; cases q) (auto simp: path_less_Cons)
  also have "\<dots> \<longleftrightarrow> path_block r < path_block q"
  proof -
    have "hd r < 6 \<or> hd r = 6 \<or> hd r = 7 \<or> hd r = 8" "hd q < 6 \<or> hd q = 6 \<or> hd q = 7 \<or> hd q = 8" using ne by linarith+
    then show ?thesis
      using path_block_bounds [OF r] path_block_bounds [OF q] False by (elim disjE) simp_all
  qed
  finally show ?thesis .
qed

text \<open>Two different full paths part at some offset.\<close>

lemma path_split:
  assumes "data_path r" and "data_path q" and "r \<noteq> q"
  obtains j where "j < length r" "j < length q" "take j r = take j q" "r ! j \<noteq> q ! j"
proof -
  have "\<exists>j. j < length r \<and> j < length q \<and> take j r = take j q \<and> r ! j \<noteq> q ! j"
    if "length r = length q \<or> hd r \<noteq> hd q" "r \<noteq> []" "q \<noteq> []" "r \<noteq> q" for r q :: "nat list"
    using that
  proof (induction r arbitrary: q)
    case (Cons a r)
    then obtain b q' where q: "q = b # q'" by (cases q) auto
    show ?case
    proof (cases "a = b")
      case False
      then show ?thesis by (intro exI [of _ 0]) (simp add: q)
    next
      case True
      then have "length r = length q'" "r \<noteq> q'" using Cons.prems q by auto
      then have "r \<noteq> []" "q' \<noteq> []" by auto
      from Cons.IH [OF _ this \<open>r \<noteq> q'\<close>] \<open>length r = length q'\<close> obtain j where
        "j < length r" "j < length q'" "take j r = take j q'" "r ! j \<noteq> q' ! j" by blast
      then show ?thesis using True by (intro exI [of _ "Suc j"]) (simp add: q)
    qed
  qed simp
  moreover have "length r = length q \<or> hd r \<noteq> hd q" "r \<noteq> []" "q \<noteq> []"
    using assms(1,2) by (cases r; cases q; auto)+
  ultimately show thesis using that assms(3) by blast
qed

lemma path_less_split:
  assumes "j < length r" "j < length q" "take j r = take j q" "r ! j \<noteq> q ! j"
  shows "path_less r q \<longleftrightarrow> r ! j < q ! j"
proof
  assume "path_less r q"
  then obtain i where i: "i < length r" "i < length q" "take i r = take i q" "r ! i < q ! i" by (auto simp: path_less_def)
  have "i = j"
  proof (rule ccontr)
    assume "i \<noteq> j"
    then consider "i < j" | "j < i" by linarith
    then show False
    proof cases
      case 1
      then have "r ! i = q ! i" using assms(3) by (metis nth_take)
      then show False using i by simp
    next
      case 2
      then have "r ! j = q ! j" using i(3) by (metis nth_take)
      then show False using assms by simp
    qed
  qed
  then show "r ! j < q ! j" using i by simp
qed (use assms path_lessI in blast)

section \<open>The shared branch\<close>

lemma shared_depth_spec:
  assumes "1 \<le> k"
  shows "1 \<le> shared_depth q k \<and> shared_depth q k \<le> k \<and> (\<forall>j. shared_depth q k \<le> j \<longrightarrow> j < k \<longrightarrow> q ! j = 0) \<and>
    (shared_depth q k = 1 \<or> q ! (shared_depth q k - 1) \<noteq> 0)"
  using assms
proof (induction k)
  case (Suc k)
  show ?case
  proof (cases "1 < Suc k \<and> q ! k = 0")
    case True
    then have e: "shared_depth q (Suc k) = shared_depth q k" by (subst shared_depth.simps) simp
    have "q ! j = 0" if "shared_depth q k \<le> j" "j < Suc k" for j
      using Suc.IH True that by (cases "j = k") auto
    then show ?thesis using Suc.IH True unfolding e by auto
  next
    case False
    then have "shared_depth q (Suc k) = Suc k" by (subst shared_depth.simps) auto
    with False show ?thesis by auto
  qed
qed simp

lemma shared_up_spec:
  assumes "1 \<le> m"
  shows "\<exists>t. shared_up s (rev (map f [0..<m])) = rev (map f [0..<t]) \<and> 1 \<le> t \<and> t \<le> m \<and>
    (\<forall>j. t \<le> j \<longrightarrow> j < m \<longrightarrow> all_zeroes s (slots_before (ind_p (f j))))"
  using assms
proof (induction m)
  case (Suc m)
  show ?case
  proof (cases "m = 0")
    case True
    then show ?thesis by (intro exI [of _ 1]) simp
  next
    case False
    then obtain m' where m': "m = Suc m'" using not0_implies_Suc by blast
    show ?thesis
    proof (cases "all_zeroes s (slots_before (ind_p (f m)))")
      case True
      then have e: "shared_up s (rev (map f [0..<Suc m])) = shared_up s (rev (map f [0..<m]))" by (simp add: m')
      obtain t where t: "shared_up s (rev (map f [0..<m])) = rev (map f [0..<t])" "1 \<le> t" "t \<le> m"
        "\<forall>j. t \<le> j \<longrightarrow> j < m \<longrightarrow> all_zeroes s (slots_before (ind_p (f j)))"
        using Suc.IH False by auto
      have "all_zeroes s (slots_before (ind_p (f j)))" if "t \<le> j" "j < Suc m" for j
        using t(4) True that by (cases "j = m") auto
      then show ?thesis using t unfolding e by (intro exI [of _ t]) simp
    next
      case False
      then have "shared_up s (rev (map f [0..<Suc m])) = rev (map f [0..<Suc m])" by (simp add: m')
      then show ?thesis by (intro exI [of _ "Suc m"]) simp
    qed
  qed
qed simp

text \<open>The entries left of the path in an indirect block, as nodes.\<close>

lemma all_zeroes_chain:
  assumes "1 \<le> j" and "bmap s ino (take j q) \<noteq> 0"
  shows "all_zeroes s (slots_before (ind_p (chain_at s ino q j))) \<longleftrightarrow> (\<forall>i<q ! j. bmap s ino (take j q @ [i]) = 0)"
proof -
  have "take j q \<noteq> []" using assms(2) by (metis bmap_def list.simps(4))
  then show ?thesis
    using assms by (auto simp: all_zeroes_def chain_at_def bmap_snoc)
qed

lemma slot_of_take:
  assumes "1 \<le> t" and "t \<le> length q"
  shows "slot_of s ino (take t q) = ind_p (chain_at s ino q (t - 1))"
proof (cases "t = 1")
  case True
  then show ?thesis using assms by (cases q) (auto simp: slot_of_def chain_at_def)
next
  case False
  then obtain t' where t: "t = Suc t'" "0 < t'" using assms(1) by (cases t) auto
  then have "take t q = take t' q @ [q ! t']" using assms(2) by (simp add: take_Suc_conv_app_nth)
  then show ?thesis using t assms(2) by (simp add: slot_of_def chain_at_def)
qed

lemma attached_take:
  assumes "data_path q" and "1 \<le> t" and "t \<le> length q" and "t = 1 \<or> bmap s ino (take (t - 1) q) \<noteq> 0"
  shows "attached s ino (take t q)"
proof -
  have "butlast (take t q) = take (t - 1) q" using assms(3) by (simp add: butlast_take)
  then show ?thesis
    using assms node_path_take [OF data_path_node [OF assms(1)], of t] by (auto simp: attached_def)
qed

context block_tree
begin

text \<open>
  The two outcomes of \<^verbatim>\<open>find_shared\<close>. Either the path ends in a shared indirect block in which even
  the entry on the path goes; or a subtree on the path is detached, below which every block left of
  the path is a hole.
\<close>

lemma find_shared_cases:
  assumes q: "data_path q" and read: "\<And>bf n. sb_bread K bf n \<noteq> None"
  obtains (inner) t where "1 < t" "t \<le> length q" "bmap s ino (take (t - 1) q) \<noteq> 0" "q ! (t - 1) \<noteq> 0"
      "\<And>j. t \<le> j \<Longrightarrow> j < length q \<Longrightarrow> q ! j = 0"
      "find_shared K s ino q = (map (chain_at s ino q) [0..<t - 1] @
         [(chain_at s ino q (t - 1))\<lparr>ind_p := slot_pred (ind_p (chain_at s ino q (t - 1)))\<rparr>], 0, s)"
  | (top) t where "1 \<le> t" "t \<le> length q" "attached s ino (take t q)" "t = 1 \<or> bmap s ino (take (t - 1) q) \<noteq> 0"
      "\<And>r. data_path r \<Longrightarrow> take t r = take t q \<Longrightarrow> path_less r q \<Longrightarrow> bmap s ino r = 0"
      "find_shared K s ino q = (map (chain_at s ino q) [0..<t], bmap s ino (take t q),
         put_slot (slot_of s ino (take t q)) 0 s)"
proof -
  have lq: "1 \<le> length q" using q by (cases q) auto
  define k where "k = shared_depth q (length q)"
  have k: "1 \<le> k" "k \<le> length q" "\<And>j. k \<le> j \<Longrightarrow> j < length q \<Longrightarrow> q ! j = 0" "k = 1 \<or> q ! (k - 1) \<noteq> 0"
    using shared_depth_spec [OF lq, of q] by (auto simp: k_def)
  obtain found chain e where gb: "get_branch K s ino k q = (found, chain, e)" by (metis prod_cases3)
  obtain m where m: "1 \<le> m" and be: "branch_end K s ino q k found chain e m"
    using get_branch_chain [OF gb _ k(2)] k(1) by auto
  have mk: "m \<le> k" and chain: "chain = map (chain_at s ino q) [0..<m]"
    and above: "m = 1 \<or> bmap s ino (take (m - 1) q) \<noteq> 0"
    and stop: "m = k \<or> bmap s ino (take m q) = 0"
    using be read [of "bufs s" "unat (bmap s ino (take m q))"] by (auto simp: branch_end_def split: if_splits)
  have lst: "last chain = chain_at s ino q (m - 1)" using m by (cases m; simp add: chain)
  have ok: "get_slot s (ind_p (last chain)) = ind_key (last chain)"
    using get_slot_chain_at [of "m - 1" q s ino] m mk k(2) above by (simp add: lst)
  obtain t where t: "shared_up s (rev chain) = rev (map (chain_at s ino q) [0..<t])" "1 \<le> t" "t \<le> m"
    "\<And>j. t \<le> j \<Longrightarrow> j < m \<Longrightarrow> all_zeroes s (slots_before (ind_p (chain_at s ino q j)))"
    using shared_up_spec [OF m, of s "chain_at s ino q"] unfolding chain by blast
  have above': "bmap s ino (take j q) \<noteq> 0" if "1 \<le> j" "j < m" for j
    using above that bmap_take_mono [of s ino "m - 1" q j] by auto
  have hd_up: "hd (rev (map (chain_at s ino q) [0..<t])) = chain_at s ino q (t - 1)"
    "tl (rev (map (chain_at s ino q) [0..<t])) = rev (map (chain_at s ino q) [0..<t - 1])"
    using t(2) by (cases t; simp)+
  have fs: "find_shared K s ino q = (if t = k \<and> 1 < t
      then (map (chain_at s ino q) [0..<t - 1] @
         [(chain_at s ino q (t - 1))\<lparr>ind_p := slot_pred (ind_p (chain_at s ino q (t - 1)))\<rparr>], 0, s)
      else (map (chain_at s ino q) [0..<t], get_slot s (ind_p (chain_at s ino q (t - 1))),
         put_slot (ind_p (chain_at s ino q (t - 1))) 0 s))"
    unfolding find_shared_def Let_def k_def [symmetric] gb prod.case t(1) ok hd_up by simp
  have tq: "t \<le> length q" using t(3) mk k(2) by simp
  have abt: "t = 1 \<or> bmap s ino (take (t - 1) q) \<noteq> 0" using above' [of "t - 1"] t(2,3) by (cases "t = 1") auto
  show thesis
  proof (cases "t = k \<and> 1 < t")
    case True
    then show thesis using k abt fs by (intro inner [of t]) auto
  next
    case False
    have zero: "bmap s ino r = 0" if r: "data_path r" "take t r = take t q" "path_less r q" for r
    proof -
      obtain j where j: "j < length r" "j < length q" "take j r = take j q" "r ! j < q ! j"
        using r(3) by (auto simp: path_less_def)
      have jt: "t \<le> j"
      proof (rule ccontr)
        assume "\<not> t \<le> j"
        then have "r ! j = q ! j" using r(2) by (metis not_le nth_take)
        then show False using j(4) by simp
      qed
      have pre: "bmap s ino r = 0" if "bmap s ino (take i r) = 0" "1 \<le> i" "i \<le> length r" for i
        using that bmap_take_mono [of s ino "length r" r i] by auto
      show ?thesis
      proof (cases "j < m")
        case True
        then have "bmap s ino (take j q @ [r ! j]) = 0"
          using t(4) [OF jt True] all_zeroes_chain [of j s ino q] above' [of j] jt t(2) j(4) by auto
        then have "bmap s ino (take (Suc j) r) = 0" using j by (simp add: take_Suc_conv_app_nth)
        then show ?thesis using pre [of "Suc j"] j(1) by simp
      next
        case mj: False
        have "bmap s ino (take m q) = 0"
        proof (rule ccontr)
          assume "bmap s ino (take m q) \<noteq> 0"
          then have "m = k" using stop by blast
          then have "q ! j = 0" using k(3) [of j] mj j(2) by simp
          then show False using j(4) by simp
        qed
        moreover have "take m r = take m q" using j(3) mj by (metis min.absorb1 not_less take_take)
        ultimately show ?thesis using pre [of m] m j(1) mj by simp
      qed
    qed
    have "get_slot s (ind_p (chain_at s ino q (t - 1))) = bmap s ino (take t q)"
      using get_slot_chain_at [of "t - 1" q s ino] abt t(2) tq by auto
    then show thesis
      using fs [unfolded if_not_P [OF False]] zero t(2) tq abt attached_take [OF q t(2) tq abt]
      by (intro top [of t]) (simp_all add: slot_of_take)
  qed
qed

end

section \<open>Clearing the ends of the shared branch\<close>

text \<open>The nodes right of the path, at the offsets \<open>1 \<le> j < t\<close>, from entry \<open>c j\<close> on.\<close>

definition right_of :: "nat list \<Rightarrow> nat \<Rightarrow> (nat \<Rightarrow> nat) \<Rightarrow> nat list set" where
  "right_of q t c = {take j q @ [i] |j i. 1 \<le> j \<and> j < t \<and> c j < i \<and> i < 1024}"

lemma right_of_Suc: "1 \<le> t \<Longrightarrow> right_of q (Suc t) c = set (map (\<lambda>i. take t q @ [i]) [Suc (c t)..<1024]) \<union> right_of q t c"
proof (intro equalityI subsetI)
  assume t: "1 \<le> t"
  fix x
  assume "x \<in> right_of q (Suc t) c"
  then obtain j i where x: "x = take j q @ [i]" "1 \<le> j" "j < Suc t" "c j < i" "i < 1024" unfolding right_of_def by blast
  show "x \<in> set (map (\<lambda>i. take t q @ [i]) [Suc (c t)..<1024]) \<union> right_of q t c"
  proof (cases "j = t")
    case True
    then show ?thesis using x by (simp add: Suc_le_eq)
  next
    case False
    then show ?thesis using x unfolding right_of_def by (intro UnI2 CollectI exI [of _ j] exI [of _ i]) simp
  qed
next
  fix x
  assume t: "1 \<le> t" and "x \<in> set (map (\<lambda>i. take t q @ [i]) [Suc (c t)..<1024]) \<union> right_of q t c"
  then consider i where "x = take t q @ [i]" "c t < i" "i < 1024" | "x \<in> right_of q t c" by (auto simp: Suc_le_eq)
  then show "x \<in> right_of q (Suc t) c"
  proof cases
    case (1 i)
    then show ?thesis unfolding right_of_def using t by (intro CollectI exI [of _ t] exI [of _ i]) simp
  next
    case 2
    then show ?thesis unfolding right_of_def using less_SucI by blast
  qed
qed

lemma height_take:
  assumes "data_path q" and "1 \<le> j" and "j < length q" and "i < 1024"
  shows "node_path (take j q @ [i])" "height (take j q @ [i]) = length q - Suc j" "length (take j q @ [i]) = Suc j"
proof -
  obtain h os where q: "q = h # os" using assms(1) by (cases q) auto
  obtain j' where j: "j = Suc j'" using assms(2) by (cases j) auto
  have o: "h < 9" "length os = h - 5" "\<forall>i\<in>set os. i < 1024" using assms(1) q by simp_all
  have "\<forall>x\<in>set (take j' os). x < 1024" using o(3) by (meson in_set_takeD)
  then show "node_path (take j q @ [i])" "height (take j q @ [i]) = length q - Suc j" "length (take j q @ [i]) = Suc j"
    using o assms(3,4) by (auto simp: q j height_def)
qed

lemma not_below_long: "(\<And>x. x \<in> X \<Longrightarrow> length r < length x) \<Longrightarrow> \<not> below X r"
  by (fastforce simp: below_def)

context block_tree
begin

lemma cut_clear_ends:
  assumes inv: "alloc_inv s" "layout_wf s" "tree_geom s" and wf: "tree_wf I s" and ino: "ino \<in> I"
    and read: "\<And>bf n. sb_bread K bf n \<noteq> None" and q: "data_path q" and t: "t \<le> length q"
    and f: "\<And>j. 1 \<le> j \<Longrightarrow> j < t \<Longrightarrow> bmap s ino (take j q) \<noteq> 0 \<and>
      ind_p (f j) = Block_slot (unat (bmap s ino (take j q))) (c j)"
  shows "cut I ino s (clear_ends K ino (length q) (rev (map f [0..<t])) s) (right_of q t c)"
  using inv wf t f
proof (induction t arbitrary: s)
  case 0
  then show ?case by (simp add: cut_refl right_of_def)
next
  case (Suc t)
  show ?case
  proof (cases "t = 0")
    case True
    then show ?thesis using Suc.prems by (simp add: cut_refl right_of_def)
  next
    case False
    then obtain m where m: "t = Suc m" using not0_implies_Suc by blast
    have ft: "bmap s ino (take t q) \<noteq> 0" "ind_p (f t) = Block_slot (unat (bmap s ino (take t q))) (c t)"
      using Suc.prems(6) [of t] False by simp_all
    have tq: "1 \<le> t" "t < length q" using Suc.prems(5) False by simp_all
    define rs where "rs = map (\<lambda>i. take t q @ [i]) [Suc (c t)..<1024]"
    have be: "block_end s = 1024" using Suc.prems(3) by (simp add: block_end_def tree_geom_def)
    have sl: "slots_after s (ind_p (f t)) = map (slot_of s ino) rs"
      using tq be ft(2) by (auto simp: rs_def block_slots_def slot_of_def simp del: upt_Suc)
    define s1 where "s1 = free_branches K ino (length q - Suc t) (map (slot_of s ino) rs) s"
    have c1: "cut I ino s s1 (set rs)"
      unfolding s1_def
    proof (rule cut_list [OF Suc.prems(1-4) ino read, where l = "Suc t"])
      show "distinct rs" by (simp add: rs_def distinct_map inj_on_def)
      fix r
      assume "r \<in> set rs"
      then obtain i where i: "r = take t q @ [i]" "i < 1024" by (auto simp: rs_def)
      show "attached s ino r \<and> height r = length q - Suc t \<and> length r = Suc t"
        using height_take [OF q tq i(2)] ft(1) by (simp add: i(1) attached_def)
    qed
    define s2 where "s2 = (case ind_bh (f t) of None \<Rightarrow> s1 | Some b \<Rightarrow> mark_buffer_dirty b s1)"
    have c2: "cut I ino s s2 (set rs)" by (rule cut_same [OF c1]) (simp_all add: s2_def split: option.split)
    note fa = cut_simps [OF c2]
    have e: "clear_ends K ino (length q) (rev (map f [0..<Suc t])) s = clear_ends K ino (length q) (rev (map f [0..<t])) s2"
    proof -
      have "rev (map f [0..<Suc t]) = f t # f m # rev (map f [0..<m])" "rev (map f [0..<t]) = f m # rev (map f [0..<m])"
        by (simp_all add: m)
      moreover have "length q - length (f t # f m # rev (map f [0..<m])) = length q - Suc t" by (simp add: m)
      ultimately show ?thesis by (simp only: clear_ends.simps Let_def sl s2_def s1_def)
    qed
    have c3: "cut I ino s2 (clear_ends K ino (length q) (rev (map f [0..<t])) s2) (right_of q t c)"
    proof (rule Suc.IH)
      show "alloc_inv s2" "layout_wf s2" "tree_geom s2" "tree_wf I s2" using fa Suc.prems by simp_all
      show "t \<le> length q" using tq by simp
      fix j
      assume j: "1 \<le> j" "j < t"
      have "\<not> below (set rs) (take j q)" by (rule not_below_long) (use j tq in \<open>auto simp: rs_def\<close>)
      then have "bmap s2 ino (take j q) = bmap s ino (take j q)"
        using cut_bmap [OF c2 ino node_path_take [OF data_path_node [OF q]], of j] j by simp
      then show "bmap s2 ino (take j q) \<noteq> 0 \<and> ind_p (f j) = Block_slot (unat (bmap s2 ino (take j q))) (c j)"
        using Suc.prems(6) [of j] j by simp
    qed
    show ?thesis
      using cut_trans [OF c2 c3 ino] unfolding e right_of_Suc [OF tq(1)] rs_def .
  qed
qed

end

lemma data_path_nth: "data_path r \<Longrightarrow> 1 \<le> j \<Longrightarrow> j < length r \<Longrightarrow> r ! j < 1024"
  by (cases r) (auto simp: nth_Cons')

lemma data_path_same_length: "data_path r \<Longrightarrow> data_path q \<Longrightarrow> hd r = hd q \<Longrightarrow> length r = length q"
  by (cases r; cases q) auto

lemma take_hd: "take j r = take j q \<Longrightarrow> 1 \<le> j \<Longrightarrow> r \<noteq> [] \<Longrightarrow> q \<noteq> [] \<Longrightarrow> hd r = hd q"
  by (cases r; cases q; cases j) auto

lemma below_right_of:
  assumes "data_path r" and that: "t \<le> length q"
  shows "below (right_of q t c) r \<longleftrightarrow>
    (\<exists>j. 1 \<le> j \<and> j < t \<and> j < length r \<and> take j r = take j q \<and> j \<le> length q \<and> c j < r ! j)"
    (is "_ \<longleftrightarrow> ?R")
proof
  assume "below (right_of q t c) r"
  then obtain j i e where j: "r = (take j q @ [i]) @ e" "1 \<le> j" "j < t" "c j < i"
    unfolding below_def right_of_def by blast
  have "length (take j q) = j" using j(3) that by simp
  then have "take j r = take j q" "r ! j = i" "j < length r" using j(1) by (simp_all add: nth_append)
  then show ?R using j that by (intro exI [of _ j]) simp
next
  assume ?R
  then obtain j where j: "1 \<le> j" "j < t" "j < length r" "take j r = take j q" "c j < r ! j" by blast
  have "r = (take j q @ [r ! j]) @ drop (Suc j) r" using j(3,4) id_take_nth_drop [of j r] by simp
  moreover have "take j q @ [r ! j] \<in> right_of q t c"
    unfolding right_of_def using j data_path_nth [OF assms(1) j(1,3)] by blast
  ultimately show "below (right_of q t c) r" unfolding below_def by blast
qed

lemma below_single: "below {x} r \<longleftrightarrow> take (length x) r = x"
  unfolding below_def by (metis append_eq_conv_conj append_take_drop_id singletonD singletonI)

lemma below_roots: "node_path r \<Longrightarrow> below {[i] |i. a < i \<and> i < (9::nat)} r \<longleftrightarrow> a < hd r"
  by (cases r) (auto simp: below_def)

text \<open>Which paths the shared branch loses.\<close>

lemma right_inner:
  assumes r: "data_path r" and q: "data_path q" and t: "1 < t" "t \<le> length q" "q ! (t - 1) \<noteq> 0"
    and zero: "\<And>j. t \<le> j \<Longrightarrow> j < length q \<Longrightarrow> q ! j = 0"
  shows "below (right_of q t (\<lambda>j. if j = t - 1 then q ! j - 1 else q ! j)) r \<longleftrightarrow> hd r = hd q \<and> \<not> path_less r q"
    (is "below ?X r \<longleftrightarrow> ?R")
proof -
  have ne: "r \<noteq> []" "q \<noteq> []" using r q by auto
  note b = below_right_of [OF r t(2), of "\<lambda>j. if j = t - 1 then q ! j - 1 else q ! j"]
  show ?thesis
  proof (cases "r = q")
    case True
    have "below ?X q" unfolding b [unfolded True] by (intro exI [of _ "t - 1"]) (use t in auto)
    moreover have "\<not> path_less q q" by (auto simp: path_less_def)
    ultimately show ?thesis using True by simp
  next
    case False
    from path_split [OF r q False] obtain j where
      j: "j < length r" "j < length q" "take j r = take j q" "r ! j \<noteq> q ! j" by blast
    note less = path_less_split [OF j]
    show ?thesis
    proof (cases "j = 0")
      case True
      then have "hd r \<noteq> hd q" using j ne by (simp add: hd_conv_nth)
      moreover have "\<not> below ?X r" unfolding b using take_hd [of _ r q] ne calculation by blast
      ultimately show ?thesis by simp
    next
      case j0: False
      then have hd: "hd r = hd q" using take_hd [OF j(3) _ ne] by simp
      have at: "r ! i = q ! i" if "i < j" for i using that j(3) by (metis nth_take)
      show ?thesis
      proof (cases "r ! j < q ! j")
        case True
        then have "j < t" using zero [of j] j(2) by (cases "j < t") auto
        have "\<not> below ?X r"
          unfolding b
        proof
          assume "\<exists>i. 1 \<le> i \<and> i < t \<and> i < length r \<and> take i r = take i q \<and> i \<le> length q \<and>
            (if i = t - 1 then q ! i - 1 else q ! i) < r ! i"
          then obtain i where i: "i < t" "take i r = take i q" "(if i = t - 1 then q ! i - 1 else q ! i) < r ! i" by blast
          have "\<not> j < i" using i(2) j(4) by (metis nth_take)
          moreover have "\<not> i < j" using i(3) at [of i] \<open>j < t\<close> by (auto split: if_splits)
          ultimately show False using i True by (auto split: if_splits)
        qed
        then show ?thesis using less True by simp
      next
        case ge: False
        have "below ?X r"
        proof (cases "j < t")
          case True
          moreover have "(if j = t - 1 then q ! j - 1 else q ! j) < r ! j" using ge j(4) by (auto split: if_splits)
          ultimately show ?thesis unfolding b using j(1-3) j0 by (intro exI [of _ j]) simp
        next
          case False
          have "take (t - 1) r = take (t - 1) q" using j(3) False by (metis diff_le_self le_trans min.absorb1 not_le take_take)
          moreover have "r ! (t - 1) = q ! (t - 1)" using at [of "t - 1"] False t(1) by simp
          ultimately show ?thesis unfolding b using t False j by (intro exI [of _ "t - 1"]) auto
        qed
        then show ?thesis using less ge hd by simp
      qed
    qed
  qed
qed

lemma right_top:
  assumes r: "data_path r" and q: "data_path q" and t: "1 \<le> t" "t \<le> length q"
  shows "below ({take t q} \<union> right_of q t ((!) q)) r \<longleftrightarrow> hd r = hd q \<and> (\<not> path_less r q \<or> take t r = take t q)"
proof -
  have ne: "r \<noteq> []" "q \<noteq> []" using r q by auto
  note b = below_right_of [OF r t(2), of "(!) q"]
  have s: "below {take t q} r \<longleftrightarrow> take t r = take t q" using t by (simp add: below_single min_absorb1)
  show ?thesis
  proof (cases "take t r = take t q")
    case True
    then show ?thesis using take_hd [OF True t(1) ne] s below_Un [of "{take t q}" "right_of q t ((!) q)" r] by simp
  next
    case nt: False
    then have "r \<noteq> q" by blast
    from path_split [OF r q this] obtain j where
      j: "j < length r" "j < length q" "take j r = take j q" "r ! j \<noteq> q ! j" by blast
    note less = path_less_split [OF j]
    have jt: "j < t" using nt j(3) by (metis le_less_linear min.absorb1 take_take)
    have "below (right_of q t ((!) q)) r \<longleftrightarrow> 1 \<le> j \<and> q ! j < r ! j"
      unfolding b
    proof
      assume "\<exists>i. 1 \<le> i \<and> i < t \<and> i < length r \<and> take i r = take i q \<and> i \<le> length q \<and> q ! i < r ! i"
      then obtain i where i: "1 \<le> i" "i < t" "take i r = take i q" "q ! i < r ! i" by blast
      have "\<not> j < i" using i(3) j(4) by (metis nth_take)
      moreover have "\<not> i < j" using i(4) j(3) by (metis nth_take less_irrefl)
      ultimately show "1 \<le> j \<and> q ! j < r ! j" using i by (metis linorder_neqE_nat)
    qed (use j jt in auto)
    moreover have "hd r = hd q \<longleftrightarrow> 1 \<le> j"
      using take_hd [OF j(3) _ ne] j ne by (cases "j = 0") (auto simp: hd_conv_nth)
    ultimately show ?thesis
      using nt s less j(4) below_Un [of "{take t q}" "right_of q t ((!) q)" r] by auto
  qed
qed

section \<open>Truncation to any size\<close>

text \<open>The part of \<^verbatim>\<open>gas_truncate_inode\<close> that deals with the shared branch.\<close>

definition truncate_branch :: "'k itree_services_scheme \<Rightarrow> fs \<Rightarrow> nat \<Rightarrow> nat list \<Rightarrow> fs" where
  "truncate_branch K s ino q =
     (let (chain, nr, s) = find_shared K s ino q;
          s = (if nr \<noteq> 0
               then let s = (if length chain = 1 then mark_inode_dirty ino s
                             else case ind_bh (last chain) of None \<Rightarrow> s | Some b \<Rightarrow> mark_buffer_dirty b s)
                    in free_branches K ino (length q - length chain) [Local_slot nr] s
               else s)
      in clear_ends K ino (length q) (rev chain) s)"

context block_tree
begin

lemma cut_shared:
  assumes inv: "alloc_inv s" "layout_wf s" "tree_geom s" and wf: "tree_wf I s" and ino: "ino \<in> I"
    and read: "\<And>bf n. sb_bread K bf n \<noteq> None" and q: "data_path q"
  shows "\<exists>X. cut I ino s (truncate_branch K s ino q) X \<and> (\<forall>r. data_path r \<longrightarrow>
    (if below X r then 0 else bmap s ino r) = (if hd r = hd q \<and> \<not> path_less r q then 0 else bmap s ino r))"
  using q read
proof (cases rule: find_shared_cases [where s = s and ino = ino])
  case (inner t)
  let ?c = "\<lambda>j. if j = t - 1 then q ! j - 1 else q ! j"
  define f where "f = (chain_at s ino q)(t - 1 := (chain_at s ino q (t - 1))\<lparr>ind_p := slot_pred (ind_p (chain_at s ino q (t - 1)))\<rparr>)"
  have "map f [0..<t - 1] = map (chain_at s ino q) [0..<t - 1]" by (simp add: f_def)
  then have fs: "find_shared K s ino q = (map f [0..<Suc (t - 1)], 0, s)" using inner(6) by (simp add: f_def)
  then have fs: "find_shared K s ino q = (map f [0..<t], 0, s)" using inner(1) by simp
  have e: "truncate_branch K s ino q = clear_ends K ino (length q) (rev (map f [0..<t])) s"
    by (simp add: truncate_branch_def fs)
  have "cut I ino s (clear_ends K ino (length q) (rev (map f [0..<t])) s) (right_of q t ?c)"
  proof (rule cut_clear_ends [OF inv wf ino read q inner(2)])
    fix j
    assume "1 \<le> j" "j < t"
    then show "bmap s ino (take j q) \<noteq> 0 \<and> ind_p (f j) = Block_slot (unat (bmap s ino (take j q))) (?c j)"
      using bmap_take_mono [OF inner(3), of j] by (auto simp: f_def chain_at_def)
  qed
  then show ?thesis using right_inner [OF _ q inner(1,2,4,5)] unfolding e by (intro exI conjI) (auto)
next
  case (top t)
  define X where "X = right_of q t ((!) q)"
  let ?v = "bmap s ino (take t q)"
  define s1 where "s1 = put_slot (slot_of s ino (take t q)) 0 s"
  define s2 where "s2 = (if ?v \<noteq> 0 then (if t = 1 then mark_inode_dirty ino s1
     else case ind_bh (chain_at s ino q (t - 1)) of None \<Rightarrow> s1 | Some b \<Rightarrow> mark_buffer_dirty b s1) else s1)"
  define s3 where "s3 = free_branches K ino (length q - t) [Local_slot ?v] s2"
  have np: "node_path (take t q)" using top(3) by (simp add: attached_def)
  have ht: "height (take t q) = length q - t" using q top(1,2) by (cases q; cases t) (auto simp: height_def)
  have c1: "cut I ino s s3 {take t q}"
    unfolding s3_def
    by (rule cut_local [OF inv wf ino read top(3) ht s1_def]) (auto simp: s2_def split: option.split)
  note fa = cut_simps [OF c1]
  have nil: "free_branches K ino d [Local_slot 0] x = x" for d x by (cases d) (simp_all add: Let_def)
  have lst: "last (map (chain_at s ino q) [0..<t]) = chain_at s ino q (t - 1)" using top(1) by (simp add: last_map)
  have e: "truncate_branch K s ino q = clear_ends K ino (length q) (rev (map (chain_at s ino q) [0..<t])) s3"
    by (simp add: truncate_branch_def top(6) [folded s1_def] Let_def lst s3_def s2_def nil)
  have c2: "cut I ino s3 (clear_ends K ino (length q) (rev (map (chain_at s ino q) [0..<t])) s3) X"
    unfolding X_def
  proof (rule cut_clear_ends [OF _ _ _ fa(3) ino read q top(2)])
    show "alloc_inv s3" "layout_wf s3" "tree_geom s3" using fa inv by simp_all
    fix j
    assume j: "1 \<le> j" "j < t"
    have "\<not> below {take t q} (take j q)" by (rule not_below_long) (use j top(2) in auto)
    then have "bmap s3 ino (take j q) = bmap s ino (take j q)"
      using cut_bmap [OF c1 ino node_path_take [OF data_path_node [OF q]], of j] j by simp
    moreover have "bmap s ino (take j q) \<noteq> 0" using top(4) j bmap_take_mono [of s ino "t - 1" q j] by auto
    ultimately show "bmap s3 ino (take j q) \<noteq> 0 \<and> ind_p (chain_at s ino q j) = Block_slot (unat (bmap s3 ino (take j q))) (q ! j)"
      using j by (simp add: chain_at_def)
  qed
  have c: "cut I ino s (truncate_branch K s ino q) ({take t q} \<union> X)"
    using cut_trans [OF c1 c2 ino] unfolding e .
  have "(if below ({take t q} \<union> X) r then 0 else bmap s ino r) = (if hd r = hd q \<and> \<not> path_less r q then 0 else bmap s ino r)"
    if r: "data_path r" for r
    using right_top [OF r q top(1,2)] top(5) [OF r] unfolding X_def by auto
  with c show ?thesis by blast
qed

end

lemma roots_from:
  "6 \<le> h \<Longrightarrow> (\<lambda>w. [6 + w]) ` set [h + 1 - 6..<3] = {[i] |i. h < i \<and> i < (9::nat)}"
proof (intro equalityI subsetI)
  fix x
  assume "6 \<le> h" "x \<in> {[i] |i. h < i \<and> i < (9::nat)}"
  then obtain i where "x = [i]" "h < i" "i < 9" by blast
  then show "x \<in> (\<lambda>w. [6 + w]) ` set [h + 1 - 6..<3]"
    using \<open>6 \<le> h\<close> by (intro image_eqI [of _ _ "i - 6"]) auto
qed auto

context block_tree
begin

lemma truncate_general:
  assumes inv: "alloc_inv s" "layout_wf s" "tree_geom s" and wf: "tree_wf I s" and ino: "ino \<in> I"
    and read: "\<And>bf n. sb_bread K bf n \<noteq> None"
    and ib: "ib = (i_size (icache s ino) + 4095) div 4096" "ib < unat (s_nblocks (sbi s))" "ib < max_blocks"
  shows "\<exists>X. cut I ino s (gas_truncate_inode K s ino) X \<and> (\<forall>r. data_path r \<longrightarrow>
    (if below X r then 0 else bmap s ino r) = (if path_block r < ib then bmap s ino r else 0))"
proof -
  define n where "n = i_size (icache s ino)"
  define s0 where "s0 = block_truncate_page K s ino n"
  define q where "q = file_path ib"
  have q: "data_path q" using file_path_valid [OF ib(3)] by (simp add: q_def)
  have pq: "path_block q = ib" by (simp add: q_def path_block_file_path)
  have geom: "sb_blocksize s = 4096" "sb_blocksize_bits s = 12" using inv(3) by (simp_all add: tree_geom_def)
  have sh: "drop_bit 12 (i_size (icache s ino) + 4096 - 1) = ib" by (simp add: drop_bit_eq_div ib(1))
  have path: "block_to_path s0 (int ib) = q"
    using block_to_path_eq [of s0 ib] ib geom by (simp add: truncate_page_frame s0_def q_def)
  have inv0: "alloc_inv s0" "layout_wf s0" "tree_geom s0" "tree_wf I s0"
    using inv wf by (simp_all add: truncate_page_inv tree_wf_def s0_def)
  have bm0: "bmap s0 = bmap s" by (simp add: s0_def truncate_page_inv)
  have hq: "hd q < 9" "q \<noteq> []" using q by (cases q; simp)+
  define s1 where "s1 = (if length q = 1 then free_data K (map (Inode_slot ino) [hd q..<6]) s0 else truncate_branch K s0 ino q)"
  define fw where "fw = (if length q = 1 then 0 else hd q + 1 - 6)"
  have g: "gas_truncate_inode K s ino = mark_inode_dirty ino (upd_inode ino
      (\<lambda>i. i\<lparr>i_mtime := current_time_sec K, i_ctime := current_time_sec K\<rparr>) (do_indirects K ino [fw..<3] s1))"
  proof -
    obtain chain nr s' where fs: "find_shared K s0 ino q = (chain, nr, s')" by (metis prod_cases3)
    have s0: "block_truncate_page K s ino (i_size (icache s ino)) = s0" by (simp add: s0_def n_def)
    have d: "4 - 1 = (3::nat)" "length q \<noteq> 0" "(1::nat) \<noteq> 0" using hq by simp_all
    show ?thesis
      unfolding gas_truncate_inode_def geom Let_def sh s0 path s1_def fw_def truncate_branch_def fs prod.case d
      by (cases "length q = 1") (simp_all only: if_True if_False prod.case simp_thms refl d fs)
  qed
  obtain X1 where c1: "cut I ino s0 s1 X1" and
    b1: "\<And>r. data_path r \<Longrightarrow> (if below (X1 \<union> (\<lambda>w. [6 + w]) ` set [fw..<3]) r then 0 else bmap s ino r) =
      (if path_block r < ib then bmap s ino r else 0)"
  proof (cases "length q = 1")
    case True
    define rs where "rs = map (\<lambda>i. [i]) [hd q..<6]"
    have qs: "q = [ib]" "ib < 6"
      using True pq by (cases rule: data_path_cases [OF q]; simp)+
    have c: "cut I ino s0 (free_branches K ino 0 (map (slot_of s0 ino) rs) s0) (set rs)"
      by (rule cut_list [OF inv0 ino read, where l = 1])
        (auto simp: rs_def distinct_map inj_on_def attached_def height_def)
    have "s1 = free_branches K ino 0 (map (slot_of s0 ino) rs) s0"
      using True by (simp add: s1_def rs_def slot_of_def o_def del: upt_Suc)
    moreover have "(if below (set rs \<union> (\<lambda>w. [6 + w]) ` set [fw..<3]) r then 0 else bmap s ino r) =
      (if path_block r < ib then bmap s ino r else 0)" if r: "data_path r" for r
    proof -
      have roots: "set rs \<union> (\<lambda>w. [6 + w]) ` set [fw..<3] = {[i] |i. ib \<le> i \<and> i < 9}"
      proof (intro equalityI subsetI)
        fix x
        assume "x \<in> {[i] |i. ib \<le> i \<and> i < (9::nat)}"
        then obtain i where i: "x = [i]" "ib \<le> i" "i < 9" by blast
        show "x \<in> set rs \<union> (\<lambda>w. [6 + w]) ` set [fw..<3]"
        proof (cases "i < 6")
          case True
          then show ?thesis using i by (simp add: rs_def qs(1))
        next
          case False
          then have "x = [6 + (i - 6)]" "i - 6 \<in> set [fw..<3]" using i True by (auto simp: fw_def)
          then show ?thesis by blast
        qed
      qed (use qs in \<open>auto simp: rs_def\<close>)
      have "below (set rs \<union> (\<lambda>w. [6 + w]) ` set [fw..<3]) r \<longleftrightarrow> ib \<le> hd r"
        unfolding roots using r by (cases r) (auto simp: below_def)
      moreover have "ib \<le> hd r \<longleftrightarrow> \<not> path_block r < ib"
        using r by (cases rule: data_path_cases) (use qs(2) in auto)
      ultimately show ?thesis by simp
    qed
    ultimately show thesis using that [of "set rs"] c by simp
  next
    case False
    then have h6: "6 \<le> hd q" using q hq by (cases q; cases "hd q < 6") auto
    have rf: "(\<lambda>w. [6 + w]) ` set [fw..<3] = {[i] |i. hd q < i \<and> i < 9}"
      using roots_from [OF h6] False by (simp only: fw_def if_False)
    obtain X where c: "cut I ino s0 (truncate_branch K s0 ino q) X" and
      b: "\<And>r. data_path r \<Longrightarrow> (if below X r then 0 else bmap s ino r) = (if hd r = hd q \<and> \<not> path_less r q then 0 else bmap s ino r)"
      using cut_shared [OF inv0 ino read q] unfolding bm0 by blast
    have "(if below (X \<union> (\<lambda>w. [6 + w]) ` set [fw..<3]) r then 0 else bmap s ino r) =
      (if path_block r < ib then bmap s ino r else 0)" if r: "data_path r" for r
    proof -
      have "path_less r q \<longleftrightarrow> hd r < hd q" if "hd r \<noteq> hd q"
        using that r hq by (cases r; cases q) (auto simp: path_less_Cons)
      then show ?thesis
        using b [OF r] path_less_block [OF r q] unfolding pq rf below_Un below_roots [OF data_path_node [OF r]]
        by (cases "hd r" "hd q" rule: linorder_cases) (auto split: if_splits)
    qed
    then show thesis using that [of X] c False by (simp add: s1_def)
  qed
  note f = cut_simps [OF c1]
  have c2: "cut I ino s1 (do_indirects K ino [fw..<3] s1) ((\<lambda>w. [6 + w]) ` set [fw..<3])"
    by (rule cut_do_indirects [OF _ _ _ f(3) ino read]) (use f inv0 in auto)
  have "cut I ino s0 (gas_truncate_inode K s ino) (X1 \<union> (\<lambda>w. [6 + w]) ` set [fw..<3])"
    unfolding g by (rule cut_same [OF cut_trans [OF c1 c2 ino]]) simp_all
  then have "cut I ino s (gas_truncate_inode K s ino) (X1 \<union> (\<lambda>w. [6 + w]) ` set [fw..<3])"
    unfolding s0_def by (rule cut_truncate_page)
  with b1 show ?thesis by blast
qed

end

section \<open>Truncation as seen from outside\<close>

lemma cut_tree_blocks:
  assumes wf: "tree_wf I s" and ino: "ino \<in> I" and c: "cut I ino s s' X"
  shows "tree_blocks s' ino \<subseteq> tree_blocks s ino"
    and "used_blocks s' = used_blocks s - (tree_blocks s ino - tree_blocks s' ino)"
proof -
  have b: "bmap s' ino r = (if below X r then 0 else bmap s ino r)" if "node_path r" for r
    using cut_bmap [OF c ino that] by simp
  have keep: "tree_blocks s' ino = {unat (bmap s ino q) |q. node_path q \<and> bmap s ino q \<noteq> 0 \<and> \<not> below X q}"
    unfolding tree_blocks_def
  proof (intro equalityI subsetI)
    fix n
    assume "n \<in> {unat (bmap s' ino q) |q. node_path q \<and> bmap s' ino q \<noteq> 0}"
    then obtain q where q: "n = unat (bmap s' ino q)" "node_path q" "bmap s' ino q \<noteq> 0" by blast
    have "\<not> below X q" "bmap s' ino q = bmap s ino q" using b [OF q(2)] q(3) by (auto split: if_splits)
    then show "n \<in> {unat (bmap s ino q) |q. node_path q \<and> bmap s ino q \<noteq> 0 \<and> \<not> below X q}"
      using q by auto
  next
    fix n
    assume "n \<in> {unat (bmap s ino q) |q. node_path q \<and> bmap s ino q \<noteq> 0 \<and> \<not> below X q}"
    then obtain q where q: "n = unat (bmap s ino q)" "node_path q" "bmap s ino q \<noteq> 0" "\<not> below X q" by blast
    then have "bmap s' ino q = bmap s ino q" using b [OF q(2)] by simp
    then show "n \<in> {unat (bmap s' ino q) |q. node_path q \<and> bmap s' ino q \<noteq> 0}"
      using q by (intro CollectI exI [of _ q]) simp
  qed
  have lost: "(\<Union>r\<in>X. subtree s ino r) = {unat (bmap s ino q) |q. node_path q \<and> bmap s ino q \<noteq> 0 \<and> below X q}"
    unfolding subtree_def below_def by blast
  have "tree_blocks s ino = tree_blocks s' ino \<union> (\<Union>r\<in>X. subtree s ino r)"
    unfolding keep lost unfolding tree_blocks_def by blast
  moreover have "tree_blocks s' ino \<inter> (\<Union>r\<in>X. subtree s ino r) = {}"
  proof (rule ccontr)
    assume "tree_blocks s' ino \<inter> (\<Union>r\<in>X. subtree s ino r) \<noteq> {}"
    then obtain q where "node_path q" "bmap s ino q \<noteq> 0" "\<not> below X q" "unat (bmap s ino q) \<in> (\<Union>r\<in>X. subtree s ino r)"
      unfolding keep by blast
    then show False using node_not_in_subtrees [OF wf ino ino] by blast
  qed
  ultimately have "(\<Union>r\<in>X. subtree s ino r) = tree_blocks s ino - tree_blocks s' ino" by blast
  then show "used_blocks s' = used_blocks s - (tree_blocks s ino - tree_blocks s' ino)"
    using cut_simps(8) [OF c] by simp
  show "tree_blocks s' ino \<subseteq> tree_blocks s ino"
    unfolding keep unfolding tree_blocks_def by blast
qed

text \<open>
  The state a truncated file is left in: \<open>truncated I ino s s' n\<close> says that the first \<open>n\<close> blocks of
  \<open>ino\<close> are kept, the others are holes, and what the tree gave up is free.
\<close>

definition truncated :: "nat set \<Rightarrow> nat \<Rightarrow> fs \<Rightarrow> fs \<Rightarrow> nat \<Rightarrow> bool" where
  "truncated I ino s s' n \<longleftrightarrow>
     (\<forall>b<max_blocks. bmap s' ino (file_path b) = (if b < n then bmap s ino (file_path b) else 0)) \<and>
     (\<forall>i\<in>I. i \<noteq> ino \<longrightarrow> (\<forall>q. node_path q \<longrightarrow> bmap s' i q = bmap s i q)) \<and>
     tree_blocks s' ino \<subseteq> tree_blocks s ino \<and>
     used_blocks s' = used_blocks s - (tree_blocks s ino - tree_blocks s' ino) \<and>
     alloc_inv s' \<and> layout_wf s' \<and> tree_geom s' \<and> tree_wf I s' \<and> sbi s' = sbi s \<and>
     i_size (icache s' ino) = i_size (icache s ino) \<and> i_mode (icache s' ino) = i_mode (icache s ino) \<and>
     i_nlink (icache s' ino) = i_nlink (icache s ino) \<and> i_ino (icache s' ino) = i_ino (icache s ino) \<and>
     (\<forall>i. i \<noteq> ino \<longrightarrow> icache s' i = icache s i)"

lemma cut_truncated:
  assumes "layout_wf s" "tree_geom s" and wf: "tree_wf I s" and ino: "ino \<in> I" and c: "cut I ino s s' X"
    and b: "\<And>r. data_path r \<Longrightarrow> (if below X r then 0 else bmap s ino r) = (if path_block r < n then bmap s ino r else 0)"
  shows "truncated I ino s s' n"
proof -
  note f = cut_simps [OF c]
  have u: "icache s' ino = (icache s ino)\<lparr>i_mtime := i_mtime (icache s' ino), i_ctime := i_ctime (icache s' ino),
       i_dirty := i_dirty (icache s' ino), blkaddr := blkaddr (icache s' ino)\<rparr>" using c by (simp add: cut_def)
  have fields: "i_size (icache s' ino) = i_size (icache s ino)" "i_mode (icache s' ino) = i_mode (icache s ino)"
    "i_nlink (icache s' ino) = i_nlink (icache s ino)" "i_ino (icache s' ino) = i_ino (icache s ino)"
    by (subst u; simp)+
  have data: "bmap s' ino (file_path k) = (if k < n then bmap s ino (file_path k) else 0)" if "k < max_blocks" for k
    using b [OF file_path_valid [OF that]] cut_bmap [OF c ino data_path_node [OF file_path_valid [OF that]]]
    by (simp add: path_block_file_path)
  have other: "\<forall>i\<in>I. i \<noteq> ino \<longrightarrow> (\<forall>q. node_path q \<longrightarrow> bmap s' i q = bmap s i q)"
    using cut_bmap [OF c] by simp
  have ic: "\<forall>i. i \<noteq> ino \<longrightarrow> icache s' i = icache s i" using c by (simp add: cut_def)
  show ?thesis
    unfolding truncated_def
    using data other cut_tree_blocks [OF wf ino c] f(1-3) f(5,6) assms(1,2) fields ic by simp
qed

context block_tree
begin

lemma truncate_truncated:
  assumes "alloc_inv s" "layout_wf s" "tree_geom s" and "tree_wf I s" and "ino \<in> I"
    and "\<And>bf n. sb_bread K bf n \<noteq> None"
    and "ib = (i_size (icache s ino) + 4095) div 4096" "ib < unat (s_nblocks (sbi s))" "ib < max_blocks"
  shows "truncated I ino s (gas_truncate_inode K s ino) ib"
proof -
  obtain X where "cut I ino s (gas_truncate_inode K s ino) X" and
    "\<And>r. data_path r \<Longrightarrow> (if below X r then 0 else bmap s ino r) = (if path_block r < ib then bmap s ino r else 0)"
    using truncate_general [OF assms] by blast
  then show ?thesis by (rule cut_truncated [OF assms(2-5)])
qed

end

section \<open>Property\<close>

text \<open>
  C2. \<^verbatim>\<open>gas_truncate_inode\<close> shrinks a file to exactly its size: with every indirect block readable,
  the blocks below the new end stay mapped as they were and every block from there on becomes a hole; the
  bitmap loses exactly the blocks the tree gave up, data and indirect; no other file changes; the
  allocation and tree invariants are kept.
\<close>

theorem gas_truncate_inode_correct:
  assumes "block_tree K" and "alloc_inv s" and "layout_wf s" and "tree_geom s" and "tree_wf I s" and "ino \<in> I"
    and "\<And>bf n. sb_bread K bf n \<noteq> None" and "i_size (icache s ino) < 2 ^ 32"
    and "(i_size (icache s ino) + 4095) div 4096 < unat (s_nblocks (sbi s))"
  shows "truncated I ino s (gas_truncate_inode K s ino) ((i_size (icache s ino) + 4095) div 4096)"
  using block_tree.truncate_truncated [OF assms(1-7) refl assms(9)] assms(8) by simp

theorem gas_truncate_inode_correct_witness:
  "\<exists>b s1. gas_get_block ref_tree_services empty_file_volume 1 1000 True = Some (None, Some (b, True), s1) \<and>
     truncated {1, 2} 1 s1 (gas_truncate_inode ref_tree_services s1 1) 0"
proof -
  obtain b s1 where r: "gas_get_block ref_tree_services empty_file_volume 1 1000 True = Some (None, Some (b, True), s1)"
    using empty_file_create by blast
  have g: "gas_get_block ref_tree_services empty_file_volume 1 1000 True =
      get_block_reread ref_tree_services 1 [6, 994] True empty_file_volume"
    by (subst gas_get_block_path) (simp_all add: empty_file_volume_wf example_sb_def file_path_1000)
  have spec: "get_block_spec ref_tree_services {1, 2} empty_file_volume 1 [6, 994] True None (Some (b, True)) s1"
    using ref_tree.get_block_reread_spec [OF empty_file_volume_wf(1-3)
        empty_file_volume_wf(4) [of "{1, 2}"], of 1 "[6, 994]" True] r g by auto
  then have ok: "alloc_inv s1" "layout_wf s1" "tree_geom s1" "tree_wf {1, 2} s1" "s_nblocks (sbi s1) = 1024"
    and u: "icache s1 1 = (icache empty_file_volume 1)\<lparr>i_ctime := i_ctime (icache s1 1), i_dirty := i_dirty (icache s1 1),
       blkaddr := blkaddr (icache s1 1)\<rparr>"
    using alloc_frame_simps(3) [of empty_file_volume s1]
    by (auto simp: get_block_spec_def only_tree_def example_sb_def)
  have sz: "i_size (icache s1 1) = 0" by (subst u) (simp add: ref_fresh_inode_def)
  have "truncated {1, 2} 1 s1 (gas_truncate_inode ref_tree_services s1 1) ((i_size (icache s1 1) + 4095) div 4096)"
    by (rule gas_truncate_inode_correct [OF ref_tree.block_tree_axioms ok(1-4)]) (simp_all add: ok(5) sz [simplified])
  then show ?thesis using r sz by auto
qed

end
