(* ===== verification/Gas_Volume.thy ===== *)
theory Gas_Volume
  imports Gas_Truncate
begin

text \<open>
  A mounted volume as a whole: the invariant that the allocators, the inode table and the block trees
  of the files in \<open>I\<close> share, and what \<^verbatim>\<open>gas_get_block\<close> and \<^verbatim>\<open>gas_truncate_inode\<close> do to it for any
  argument. Clients (pages, directories, names) use the tree through these facts only.
\<close>

section \<open>The invariant\<close>

definition itable_area :: "gas_sb_info \<Rightarrow> bool" where
  "itable_area sb \<longleftrightarrow> unat (s_data_block_start sb) = unat (s_inode_list_start sb) + unat (s_inode_blocks sb) \<and>
     unat (s_ninodes sb) \<le> 64 * unat (s_inode_blocks sb)"

definition vol_ok :: "nat set \<Rightarrow> fs \<Rightarrow> bool" where
  "vol_ok I s \<longleftrightarrow> alloc_inv s \<and> iam_wf s \<and> layout_wf s \<and> tree_geom s \<and> tree_wf I s \<and>
     unat (s_nblocks (sbi s)) \<le> max_blocks \<and> itable_area (sbi s)"

lemma vol_ok_simps:
  assumes "vol_ok I s"
  shows "alloc_inv s" "iam_wf s" "layout_wf s" "tree_geom s" "tree_wf I s" "unat (s_nblocks (sbi s)) \<le> max_blocks"
    "itable_area (sbi s)"
  using assms by (simp_all add: vol_ok_def)

text \<open>
  \<open>grows I ino s s'\<close>: the tree of \<open>ino\<close> may have gained blocks. Every node of every file is where it was,
  the bitmap gained exactly the new nodes, and of the in-core state only the block map, change time and
  dirty mark of \<open>ino\<close> may differ.
\<close>

definition grows :: "nat set \<Rightarrow> nat \<Rightarrow> fs \<Rightarrow> fs \<Rightarrow> bool" where
  "grows I ino s s' \<longleftrightarrow> vol_ok I s' \<and> alloc_frame s s' \<and> only_tree ino s s' \<and>
     (\<forall>i\<in>I. \<forall>r. node_path r \<longrightarrow> bmap s i r \<noteq> 0 \<or> i \<noteq> ino \<longrightarrow> bmap s' i r = bmap s i r) \<and>
     used_blocks s' = used_blocks s \<union> tree_blocks s' ino \<and>
     (tree_blocks s' ino - tree_blocks s ino) \<inter> used_blocks s = {} \<and> used_inodes s' = used_inodes s \<and>
     (\<forall>n. n \<notin> data_zone s \<longrightarrow> n \<notin> set (s_bam_bh (sbi s)) \<longrightarrow> bufs s' n = bufs s n)"

lemma tree_blocks_used: "vol_ok I s \<Longrightarrow> ino \<in> I \<Longrightarrow> tree_blocks s ino \<subseteq> used_blocks s"
  using tree_wf_zone vol_ok_simps(5) by blast

lemma only_tree_refl [simp]: "only_tree ino s s"
  by (simp add: only_tree_def)

lemma only_tree_iff:
  "only_tree ino s s' \<longleftrightarrow> (\<forall>i. i \<noteq> ino \<longrightarrow> icache s' i = icache s i) \<and>
     (\<exists>c d b. icache s' ino = (icache s ino)\<lparr>i_ctime := c, i_dirty := d, blkaddr := b\<rparr>)"
  unfolding only_tree_def
proof (rule conj_cong, rule refl, rule iffI)
  assume "\<exists>c d b. icache s' ino = (icache s ino)\<lparr>i_ctime := c, i_dirty := d, blkaddr := b\<rparr>"
  then obtain c d b where u: "icache s' ino = (icache s ino)\<lparr>i_ctime := c, i_dirty := d, blkaddr := b\<rparr>" by blast
  then have "i_ctime (icache s' ino) = c" "i_dirty (icache s' ino) = d" "blkaddr (icache s' ino) = b" by simp_all
  then show "icache s' ino = (icache s ino)\<lparr>i_ctime := i_ctime (icache s' ino), i_dirty := i_dirty (icache s' ino),
       blkaddr := blkaddr (icache s' ino)\<rparr>" using u by simp
qed blast

lemma grows_refl: "vol_ok I s \<Longrightarrow> ino \<in> I \<Longrightarrow> grows I ino s s"
  using tree_blocks_used [of I s ino] by (auto simp: grows_def)

lemma grows_simps:
  assumes "grows I ino s s'"
  shows "vol_ok I s'" "data_zone s' = data_zone s" "pages s' = pages s" "used_inodes s' = used_inodes s"
    "sb_blocksize s' = sb_blocksize s" "sb_blocksize_bits s' = sb_blocksize_bits s"
    "i_size (icache s' i) = i_size (icache s i)" "i_ino (icache s' i) = i_ino (icache s i)"
    "i_mode (icache s' i) = i_mode (icache s i)" "i_nlink (icache s' i) = i_nlink (icache s i)"
    "i_op (icache s' i) = i_op (icache s i)" "i \<noteq> ino \<Longrightarrow> icache s' i = icache s i"
proof -
  have f: "alloc_frame s s'" "only_tree ino s s'" using assms by (simp_all add: grows_def)
  show "vol_ok I s'" "used_inodes s' = used_inodes s" using assms by (simp_all add: grows_def)
  show "data_zone s' = data_zone s" by (rule alloc_frame_simps(1) [OF f(1)])
  show "pages s' = pages s" "sb_blocksize s' = sb_blocksize s" "sb_blocksize_bits s' = sb_blocksize_bits s"
    using f(1) by (simp_all add: alloc_frame_def)
  show other: "icache s' i = icache s i" if "i \<noteq> ino" using f(2) that by (simp add: only_tree_def)
  have u: "icache s' ino = (icache s ino)\<lparr>i_ctime := i_ctime (icache s' ino), i_dirty := i_dirty (icache s' ino),
       blkaddr := blkaddr (icache s' ino)\<rparr>" using f(2) by (simp add: only_tree_def)
  have own: "i_size (icache s' ino) = i_size (icache s ino)" "i_ino (icache s' ino) = i_ino (icache s ino)"
    "i_mode (icache s' ino) = i_mode (icache s ino)" "i_nlink (icache s' ino) = i_nlink (icache s ino)"
    "i_op (icache s' ino) = i_op (icache s ino)"
    by (subst u; simp)+
  show "i_size (icache s' i) = i_size (icache s i)" "i_ino (icache s' i) = i_ino (icache s i)"
    "i_mode (icache s' i) = i_mode (icache s i)" "i_nlink (icache s' i) = i_nlink (icache s i)"
    "i_op (icache s' i) = i_op (icache s i)"
    using own other by (cases "i = ino"; simp)+
qed

lemma grows_tree_blocks:
  assumes "grows I ino s s'" and "i \<in> I"
  shows "tree_blocks s i \<subseteq> tree_blocks s' i" and "i \<noteq> ino \<Longrightarrow> tree_blocks s' i = tree_blocks s i"
proof -
  have b: "bmap s' i r = bmap s i r" if "node_path r" "bmap s i r \<noteq> 0 \<or> i \<noteq> ino" for r
    using assms that by (simp add: grows_def)
  show "tree_blocks s i \<subseteq> tree_blocks s' i"
  proof
    fix n
    assume "n \<in> tree_blocks s i"
    then obtain r where "n = unat (bmap s i r)" "node_path r" "bmap s i r \<noteq> 0" by (auto simp: tree_blocks_def)
    then show "n \<in> tree_blocks s' i" using b [of r] tree_blocksI [of r s' i] by simp
  qed
  show "i \<noteq> ino \<Longrightarrow> tree_blocks s' i = tree_blocks s i" by (rule tree_blocks_cong) (use b in blast)
qed

text \<open>The rest of the volume when only dirty marks or pages change.\<close>

lemma vol_ok_cong:
  assumes "sbi s' = sbi s" "sb_blocksize s' = sb_blocksize s" "sb_blocksize_bits s' = sb_blocksize_bits s"
    "bufs s' = bufs s" "\<And>i. i \<in> I \<Longrightarrow> blkaddr (icache s' i) = blkaddr (icache s i)"
  shows "vol_ok I s' = vol_ok I s" "used_blocks s' = used_blocks s" "used_inodes s' = used_inodes s"
    "data_zone s' = data_zone s" "i \<in> I \<Longrightarrow> bmap s' i r = bmap s i r" "i \<in> I \<Longrightarrow> tree_blocks s' i = tree_blocks s i"
proof -
  note a = alloc_inv_cong [OF assms(1,3) fun_cong [OF assms(4)]]
  show u: "used_blocks s' = used_blocks s" "data_zone s' = data_zone s" by (rule a)+
  show "used_inodes s' = used_inodes s" by (simp add: used_inodes_def assms)
  show b: "bmap s' i r = bmap s i r" if "i \<in> I" for i r
    using assms(4) assms(5) [OF that] by (simp add: bmap_def split: list.split)
  show "tree_blocks s' i = tree_blocks s i" if "i \<in> I" by (rule tree_blocks_cong) (rule b [OF that])
  have "tree_wf I s' = tree_wf I s" unfolding tree_wf_def u by (simp add: b)
  then show "vol_ok I s' = vol_ok I s"
    using a(2) assms by (simp add: vol_ok_def layout_wf_def tree_geom_def iam_wf_def)
qed

lemma iam_untouched:
  assumes "layout_wf s" and "s_iam_bh (sbi s') = s_iam_bh (sbi s)"
    and "\<And>n. n \<notin> data_zone s \<Longrightarrow> n \<notin> set (s_bam_bh (sbi s)) \<Longrightarrow> bufs s' n = bufs s n"
  shows "used_inodes s' = used_inodes s"
proof -
  have "bufs s' n = bufs s n" if "n \<in> set (s_iam_bh (sbi s))" for n
    using that layout_zone [OF assms(1), of n] assms by (auto simp: layout_wf_def)
  then have "map_bits (bufs s') (s_iam_bh (sbi s)) = map_bits (bufs s) (s_iam_bh (sbi s))" by (rule map_bits_cong)
  then show ?thesis by (simp add: used_inodes_def assms(2))
qed

lemma grows_trans:
  assumes a: "grows I ino s s1" and b: "grows I ino s1 s2" and ino: "ino \<in> I"
  shows "grows I ino s s2"
proof -
  have "tree_blocks s1 ino \<subseteq> tree_blocks s2 ino" by (rule grows_tree_blocks(1) [OF b ino])
  then have "used_blocks s2 = used_blocks s \<union> tree_blocks s2 ino" using a b unfolding grows_def by blast
  moreover have "(tree_blocks s2 ino - tree_blocks s ino) \<inter> used_blocks s = {}"
  proof -
    have "(tree_blocks s1 ino - tree_blocks s ino) \<inter> used_blocks s = {}" "used_blocks s \<subseteq> used_blocks s1"
      using a unfolding grows_def by blast+
    moreover have "(tree_blocks s2 ino - tree_blocks s1 ino) \<inter> used_blocks s1 = {}" using b unfolding grows_def by blast
    ultimately show ?thesis by blast
  qed
  moreover have "only_tree ino s s2"
  proof -
    have o: "only_tree ino s s1" "only_tree ino s1 s2" using a b unfolding grows_def by blast+
    obtain c1 d1 b1 where u1: "icache s1 ino = (icache s ino)\<lparr>i_ctime := c1, i_dirty := d1, blkaddr := b1\<rparr>"
      using o(1) unfolding only_tree_iff by blast
    obtain c2 d2 b2 where u2: "icache s2 ino = (icache s1 ino)\<lparr>i_ctime := c2, i_dirty := d2, blkaddr := b2\<rparr>"
      using o(2) unfolding only_tree_iff by blast
    have "icache s2 ino = (icache s ino)\<lparr>i_ctime := c2, i_dirty := d2, blkaddr := b2\<rparr>" unfolding u2 u1 by simp
    moreover have "\<forall>i. i \<noteq> ino \<longrightarrow> icache s2 i = icache s i" using o by (simp add: only_tree_def)
    ultimately show ?thesis unfolding only_tree_iff by blast
  qed
  moreover have "alloc_frame s s2" using a b alloc_frame_trans unfolding grows_def by blast
  moreover have "bmap s2 i r = bmap s i r" if "i \<in> I" "node_path r" "bmap s i r \<noteq> 0 \<or> i \<noteq> ino" for i r
    using a b that unfolding grows_def by metis
  moreover have "bufs s2 n = bufs s n" if "n \<notin> data_zone s" "n \<notin> set (s_bam_bh (sbi s))" for n
  proof -
    have "n \<notin> data_zone s1" "n \<notin> set (s_bam_bh (sbi s1))" "bufs s1 n = bufs s n"
      using a that alloc_frame_simps(1,2) [of s s1] by (simp_all add: grows_def)
    then show ?thesis using b by (simp add: grows_def)
  qed
  moreover have "vol_ok I s2" "used_inodes s2 = used_inodes s" using grows_simps(1,4) [OF a] grows_simps(1,4) [OF b] by simp_all
  ultimately show ?thesis unfolding grows_def by blast
qed

section \<open>The block function on any argument\<close>

context block_tree
begin

lemma get_block_beyond:
  assumes "tree_geom s" and "unat (s_nblocks (sbi s)) \<le> unat blk"
  shows "gas_get_block K s ino blk create = Some (Some EIO, None, s)"
proof -
  have "block_to_path s (sint blk) = []"
  proof (cases "unat blk < 2 ^ 63")
    case True
    have "uint (s_nblocks (sbi s)) \<le> uint blk" using assms(2) by (simp only: uint_nat of_nat_le_iff)
    then show ?thesis using sint_small [OF True] by (simp add: block_to_path_def)
  next
    case False
    have "bit (unat blk) 63"
    proof -
      have "unat blk < 2 ^ 64" using unsigned_less [of blk] by simp
      then have "unat blk div 2 ^ 63 < 2" by (simp add: less_mult_imp_div_less)
      moreover have "0 < unat blk div 2 ^ 63" using False by (simp add: div_greater_zero_iff)
      ultimately have "unat blk div 2 ^ 63 = 1" by linarith
      then show ?thesis by (simp add: bit_iff_odd)
    qed
    then have "bit blk 63" by (simp add: bit_unsigned_iff)
    then have b: "bit (uint blk) 63" by (simp add: bit_uint_iff)
    have "sint blk = signed_take_bit 63 (uint blk)" by (simp add: sint_uint)
    then have "sint blk < 0" using b by (simp add: signed_take_bit_negative_iff)
    then show ?thesis by (simp add: block_to_path_def)
  qed
  then show ?thesis by (simp add: gas_get_block_def Let_def)
qed

text \<open>Whatever block is asked for, the function returns and the file can only have grown.\<close>

lemma get_block_grows:
  assumes ok: "vol_ok I s" and ino: "ino \<in> I"
  shows "\<exists>e m s'. gas_get_block K s ino blk create = Some (e, m, s') \<and> grows I ino s s' \<and>
    (e = None \<and> create \<longrightarrow> m \<noteq> None)"
proof (cases "unat blk < unat (s_nblocks (sbi s))")
  case False
  then show ?thesis using get_block_beyond [of s blk ino create] vol_ok_simps(4) [OF ok] grows_refl [OF ok ino] by auto
next
  case True
  note v = vol_ok_simps [OF ok]
  have "unat blk < max_blocks" using True v(6) by linarith
  note dp = file_path_valid [OF this]
  obtain e m s' where r: "gas_get_block K s ino blk create = Some (e, m, s')"
    and spec: "get_block_spec K I s ino (file_path (unat blk)) create e m s'"
    using get_block_reread_spec [OF v(1,3,4,5) ino dp, of create] unfolding gas_get_block_path [OF v(4) True] by blast
  have f: "alloc_inv s'" "layout_wf s'" "tree_geom s'" "tree_wf I s'" "alloc_frame s s'" "only_tree ino s s'"
    and b: "\<And>n. n \<notin> data_zone s \<Longrightarrow> n \<notin> set (s_bam_bh (sbi s)) \<Longrightarrow> bufs s' n = bufs s n"
    using spec by (simp_all add: get_block_spec_def)
  have ui: "used_inodes s' = used_inodes s" by (rule iam_untouched [OF v(3) alloc_frame_simps(6) [OF f(5)] b])
  have "iam_wf s'" using v(2) f(5) by (auto simp: iam_wf_def alloc_frame_def)
  moreover have "itable_area (sbi s')" using v(7) f(5) by (auto simp: itable_area_def alloc_frame_def)
  ultimately have ok': "vol_ok I s'" using f v(6) alloc_frame_simps(3) [OF f(5)] by (simp add: vol_ok_def)
  have "used_blocks s' = used_blocks s \<union> tree_blocks s' ino \<and>
    (tree_blocks s' ino - tree_blocks s ino) \<inter> used_blocks s = {} \<and>
    (\<forall>i\<in>I. \<forall>r. node_path r \<longrightarrow> bmap s i r \<noteq> 0 \<or> i \<noteq> ino \<longrightarrow> bmap s' i r = bmap s i r)"
  proof (cases m)
    case None
    then have "used_blocks s' = used_blocks s" "\<forall>i\<in>I. \<forall>r. node_path r \<longrightarrow> bmap s' i r = bmap s i r"
      using spec by (simp_all add: get_block_spec_def)
    moreover from this have "tree_blocks s' ino = tree_blocks s ino" using ino by (intro tree_blocks_cong) blast
    ultimately show ?thesis using tree_blocks_used [OF ok' ino] by blast
  next
    case (Some bn)
    then obtain b new where m: "m = Some (b, new)" by (cases bn) auto
    show ?thesis
    proof (cases new)
      case True
      then show ?thesis using spec m by (simp add: get_block_spec_def)
    next
      case False
      then have "s' = s" using spec m by (simp add: get_block_spec_def)
      then show ?thesis using tree_blocks_used [OF ok ino] by auto
    qed
  qed
  then have "grows I ino s s'" using ok' f ui b by (simp add: grows_def)
  moreover have "e = None \<and> create \<longrightarrow> m \<noteq> None"
    using spec unfolding get_block_spec_def by (cases m) (simp, blast, simp)
  ultimately show ?thesis using r by blast
qed

text \<open>With room for a whole branch and no read error it succeeds.\<close>

lemma get_block_succeeds:
  assumes ok: "vol_ok I s" and ino: "ino \<in> I" and read: "\<And>bf n. sb_bread K bf n \<noteq> None"
    and nb: "unat blk < unat (s_nblocks (sbi s))" and room: "4 \<le> card (data_zone s - used_blocks s)"
  shows "\<exists>m s'. gas_get_block K s ino blk True = Some (None, Some m, s')"
proof -
  note v = vol_ok_simps [OF ok]
  have "unat blk < max_blocks" using nb v(6) by linarith
  note dp = file_path_valid [OF this]
  obtain e m s' where r: "gas_get_block K s ino blk True = Some (e, m, s')"
    and spec: "get_block_spec K I s ino (file_path (unat blk)) True e m s'"
    using get_block_reread_spec [OF v(1,3,4,5) ino dp, of True] unfolding gas_get_block_path [OF v(4) nb] by blast
  have len: "length (file_path (unat blk)) \<le> 4" using dp by (cases rule: data_path_cases) auto
  show ?thesis
  proof (cases m)
    case None
    then show ?thesis using spec read room len by (auto simp: get_block_spec_def)
  next
    case (Some bn)
    then show ?thesis using spec r by (cases bn) (simp add: get_block_spec_def)
  qed
qed

end

section \<open>Truncation on the volume\<close>

text \<open>
  \<open>shrinks I ino s s'\<close>: the tree of \<open>ino\<close> may have lost blocks, which are free now. Of the in-core state
  only the block map, times and dirty mark of \<open>ino\<close> and its pages may differ.
\<close>

definition shrinks :: "nat set \<Rightarrow> nat \<Rightarrow> fs \<Rightarrow> fs \<Rightarrow> bool" where
  "shrinks I ino s s' \<longleftrightarrow> vol_ok I s' \<and> sbi s' = sbi s \<and> sb_blocksize s' = sb_blocksize s \<and>
     (\<forall>i\<in>I. i \<noteq> ino \<longrightarrow> (\<forall>r. node_path r \<longrightarrow> bmap s' i r = bmap s i r)) \<and>
     tree_blocks s' ino \<subseteq> tree_blocks s ino \<and>
     used_blocks s' = used_blocks s - (tree_blocks s ino - tree_blocks s' ino) \<and> used_inodes s' = used_inodes s \<and>
     (\<forall>n. n \<notin> data_zone s \<longrightarrow> n \<notin> set (s_bam_bh (sbi s)) \<longrightarrow> bufs s' n = bufs s n) \<and>
     (\<forall>i. i \<noteq> ino \<longrightarrow> icache s' i = icache s i \<and> pages s' i = pages s i) \<and>
     icache s' ino = (icache s ino)\<lparr>i_mtime := i_mtime (icache s' ino), i_ctime := i_ctime (icache s' ino),
       i_dirty := i_dirty (icache s' ino), blkaddr := blkaddr (icache s' ino)\<rparr>"

lemma cut_shrinks:
  assumes ok: "vol_ok I s" and ino: "ino \<in> I" and c: "cut I ino s s' X"
  shows "shrinks I ino s s'"
proof -
  note v = vol_ok_simps [OF ok] and f = cut_simps [OF c]
  have b: "\<And>n. n \<notin> data_zone s \<Longrightarrow> n \<notin> set (s_bam_bh (sbi s)) \<Longrightarrow> bufs s' n = bufs s n"
    using c by (simp add: cut_def)
  have ui: "used_inodes s' = used_inodes s" by (rule iam_untouched [OF v(3) _ b]) (simp add: f)
  have ok': "vol_ok I s'"
  proof -
    have "sb_blocksize_bits s' = sb_blocksize_bits s" using c by (simp add: cut_def)
    then have "iam_wf s'" using v(2) by (simp add: iam_wf_def f(1))
    then show ?thesis using v f(1-3,5,6) by (simp add: vol_ok_def)
  qed
  have "\<forall>i\<in>I. i \<noteq> ino \<longrightarrow> (\<forall>r. node_path r \<longrightarrow> bmap s' i r = bmap s i r)" using cut_bmap [OF c] by simp
  moreover have "sb_blocksize s' = sb_blocksize s" "\<forall>i. i \<noteq> ino \<longrightarrow> icache s' i = icache s i \<and> pages s' i = pages s i"
    "icache s' ino = (icache s ino)\<lparr>i_mtime := i_mtime (icache s' ino), i_ctime := i_ctime (icache s' ino),
       i_dirty := i_dirty (icache s' ino), blkaddr := blkaddr (icache s' ino)\<rparr>"
    using c by (simp_all add: cut_def)
  ultimately show ?thesis
    unfolding shrinks_def using ok' f(1) cut_tree_blocks [OF v(5) ino c] ui b by blast
qed

lemma shrinks_fields:
  assumes "shrinks I ino s s'"
  shows "i_size (icache s' i) = i_size (icache s i)" "i_mode (icache s' i) = i_mode (icache s i)"
    "i_nlink (icache s' i) = i_nlink (icache s i)" "i_ino (icache s' i) = i_ino (icache s i)"
proof -
  have u: "icache s' ino = (icache s ino)\<lparr>i_mtime := i_mtime (icache s' ino), i_ctime := i_ctime (icache s' ino),
       i_dirty := i_dirty (icache s' ino), blkaddr := blkaddr (icache s' ino)\<rparr>"
    and o: "i \<noteq> ino \<Longrightarrow> icache s' i = icache s i" using assms unfolding shrinks_def by blast+
  have "i_size (icache s' ino) = i_size (icache s ino)" "i_mode (icache s' ino) = i_mode (icache s ino)"
    "i_nlink (icache s' ino) = i_nlink (icache s ino)" "i_ino (icache s' ino) = i_ino (icache s ino)"
    by (subst u; simp)+
  then show "i_size (icache s' i) = i_size (icache s i)" "i_mode (icache s' i) = i_mode (icache s i)"
    "i_nlink (icache s' i) = i_nlink (icache s i)" "i_ino (icache s' i) = i_ino (icache s i)"
    using o by (cases "i = ino"; simp)+
qed

lemma shrinks_other_blocks: "shrinks I ino s s' \<Longrightarrow> i \<in> I \<Longrightarrow> i \<noteq> ino \<Longrightarrow> tree_blocks s' i = tree_blocks s i"
  by (rule tree_blocks_cong) (simp add: shrinks_def)

lemma block_to_path_beyond: "int (unat (s_nblocks (sbi s))) \<le> b \<Longrightarrow> block_to_path s b = []"
  by (simp add: block_to_path_def)

context block_tree
begin

lemma truncate_cut:
  assumes ok: "vol_ok I s" and ino: "ino \<in> I" and read: "\<And>bf n. sb_bread K bf n \<noteq> None"
  shows "\<exists>X. cut I ino s (gas_truncate_inode K s ino) X"
proof (cases "(i_size (icache s ino) + 4095) div 4096 < unat (s_nblocks (sbi s))")
  case True
  note v = vol_ok_simps [OF ok]
  have "(i_size (icache s ino) + 4095) div 4096 < max_blocks" using True v(6) by linarith
  then show ?thesis using truncate_general [OF v(1,3,4,5) ino read refl True] by blast
next
  case False
  note v = vol_ok_simps [OF ok]
  define s0 where "s0 = block_truncate_page K s ino (i_size (icache s ino))"
  define ib where "ib = (i_size (icache s ino) + 4095) div 4096"
  have geom: "sb_blocksize s = 4096" "sb_blocksize_bits s = 12" using v(4) by (simp_all add: tree_geom_def)
  have "int (unat (s_nblocks (sbi s0))) \<le> int ib"
    using False by (simp only: of_nat_le_iff s0_def truncate_page_frame ib_def not_less)
  then have path: "block_to_path s0 (int ib) = []" by (rule block_to_path_beyond)
  have sh: "drop_bit 12 (i_size (icache s ino) + 4096 - 1) = ib" by (simp add: drop_bit_eq_div ib_def)
  have "gas_truncate_inode K s ino = s0"
    unfolding gas_truncate_inode_def Let_def geom sh s0_def [symmetric] path list.size by simp
  moreover have "cut I ino s0 s0 {}"
    by (rule cut_refl) (use v in \<open>simp_all add: s0_def truncate_page_inv tree_wf_def\<close>)
  then have "cut I ino s s0 {}" unfolding s0_def by (rule cut_truncate_page)
  ultimately show ?thesis by blast
qed

lemma truncate_shrinks:
  assumes "vol_ok I s" and "ino \<in> I" and "\<And>bf n. sb_bread K bf n \<noteq> None"
  shows "shrinks I ino s (gas_truncate_inode K s ino)"
  using truncate_cut [OF assms] cut_shrinks [OF assms(1,2)] by blast

text \<open>Truncating to size 0 leaves no block.\<close>

lemma truncate_empties:
  assumes ok: "vol_ok I s" and ino: "ino \<in> I" and read: "\<And>bf n. sb_bread K bf n \<noteq> None"
    and sz: "i_size (icache s ino) = 0"
  shows "tree_blocks (gas_truncate_inode K s ino) ino = {}"
proof (cases "unat (s_nblocks (sbi s)) = 0")
  case True
  have "data_zone s = {}" unfolding data_zone_def True by simp
  then have "tree_blocks s ino = {}" using tree_wf_zone [OF vol_ok_simps(5) [OF ok] ino] by blast
  then show ?thesis using truncate_shrinks [OF ok ino read] unfolding shrinks_def by blast
next
  case False
  then have nb: "0 < unat (s_nblocks (sbi s))" by blast
  note v = vol_ok_simps [OF ok]
  have c: "cut I ino s (gas_truncate_inode K s ino) {[i] |i. i < 9}" by (rule truncate_all [OF v(1,3,4,5) ino read sz nb])
  have "bmap (gas_truncate_inode K s ino) ino r = 0" if r: "node_path r" for r
  proof -
    have "below {[i] |i. i < 9} r" using r by (cases r) (auto simp: below_def)
    then show ?thesis using cut_bmap [OF c ino r] by simp
  qed
  then show ?thesis by (auto simp: tree_blocks_def)
qed

end

section \<open>Operations local to one file\<close>

text \<open>
  \<open>local_op I ino s s'\<close>: the volume is still well formed, every other file is untouched (its in-core
  inode, pages and block map), and the bitmap changed by exactly the blocks the tree of \<open>ino\<close> gained or
  lost, so nothing leaks and nothing is freed twice. Identity, type, links and operations of \<open>ino\<close> stay.
\<close>

definition local_op :: "nat set \<Rightarrow> nat \<Rightarrow> fs \<Rightarrow> fs \<Rightarrow> bool" where
  "local_op I ino s s' \<longleftrightarrow> vol_ok I s' \<and> (\<exists>l. sbi s' = (sbi s)\<lparr>s_bam_last := l\<rparr>) \<and> sb_blocksize s' = sb_blocksize s \<and>
     used_inodes s' = used_inodes s \<and>
     used_blocks s' - tree_blocks s' ino = used_blocks s - tree_blocks s ino \<and>
     (\<forall>i\<in>I. i \<noteq> ino \<longrightarrow> (\<forall>r. node_path r \<longrightarrow> bmap s' i r = bmap s i r)) \<and>
     (\<forall>i. i \<noteq> ino \<longrightarrow> icache s' i = icache s i \<and> pages s' i = pages s i) \<and>
     (\<forall>n. n \<notin> data_zone s \<longrightarrow> n \<notin> set (s_bam_bh (sbi s)) \<longrightarrow> bufs s' n = bufs s n) \<and>
     i_ino (icache s' ino) = i_ino (icache s ino) \<and> i_mode (icache s' ino) = i_mode (icache s ino) \<and>
     i_nlink (icache s' ino) = i_nlink (icache s ino) \<and> i_op (icache s' ino) = i_op (icache s ino)"

lemma local_op_refl: "vol_ok I s \<Longrightarrow> local_op I ino s s"
  by (auto simp: local_op_def intro: exI [of _ "s_bam_last (sbi s)"])

lemma local_op_ok: "local_op I ino s s' \<Longrightarrow> vol_ok I s'"
  by (simp add: local_op_def)

lemma local_op_sbi:
  assumes "local_op I ino s s'"
  shows "data_zone s' = data_zone s" "s_bam_bh (sbi s') = s_bam_bh (sbi s)" "s_nblocks (sbi s') = s_nblocks (sbi s)"
    "s_ninodes (sbi s') = s_ninodes (sbi s)"
  using assms by (auto simp: local_op_def data_zone_def)

lemma local_op_trans:
  assumes a: "local_op I ino s s1" and b: "local_op I ino s1 s2"
  shows "local_op I ino s s2"
proof -
  note l = local_op_sbi [OF a]
  obtain m where m: "sbi s1 = (sbi s)\<lparr>s_bam_last := m\<rparr>" using a unfolding local_op_def by blast
  obtain k where k: "sbi s2 = (sbi s1)\<lparr>s_bam_last := k\<rparr>" using b unfolding local_op_def by blast
  have "sbi s2 = (sbi s)\<lparr>s_bam_last := k\<rparr>" unfolding k m by simp
  moreover have "bufs s2 n = bufs s n" if "n \<notin> data_zone s" "n \<notin> set (s_bam_bh (sbi s))" for n
    using a b that l(1,2) unfolding local_op_def by metis
  moreover have "bmap s2 i r = bmap s i r" if "i \<in> I" "i \<noteq> ino" "node_path r" for i r
    using a b that unfolding local_op_def by metis
  moreover have "icache s2 i = icache s i \<and> pages s2 i = pages s i" if "i \<noteq> ino" for i
    using a b that unfolding local_op_def by metis
  moreover have "i_ino (icache s2 ino) = i_ino (icache s ino)" "i_mode (icache s2 ino) = i_mode (icache s ino)"
    "i_nlink (icache s2 ino) = i_nlink (icache s ino)" "i_op (icache s2 ino) = i_op (icache s ino)"
    using a b unfolding local_op_def by metis+
  moreover have "vol_ok I s2" "sb_blocksize s2 = sb_blocksize s" "used_inodes s2 = used_inodes s"
    "used_blocks s2 - tree_blocks s2 ino = used_blocks s - tree_blocks s ino"
    using a b unfolding local_op_def by metis+
  ultimately show ?thesis unfolding local_op_def by blast
qed

lemma grows_local:
  assumes ok: "vol_ok I s" and ino: "ino \<in> I" and g: "grows I ino s s'"
  shows "local_op I ino s s'"
proof -
  have used: "used_blocks s' - tree_blocks s' ino = used_blocks s - tree_blocks s ino"
    using g grows_tree_blocks(1) [OF g ino] unfolding grows_def by blast
  have "\<exists>l. sbi s' = (sbi s)\<lparr>s_bam_last := l\<rparr>" using g unfolding grows_def alloc_frame_def by blast
  moreover have "\<forall>i\<in>I. i \<noteq> ino \<longrightarrow> (\<forall>r. node_path r \<longrightarrow> bmap s' i r = bmap s i r)"
    "\<forall>n. n \<notin> data_zone s \<longrightarrow> n \<notin> set (s_bam_bh (sbi s)) \<longrightarrow> bufs s' n = bufs s n"
    using g unfolding grows_def by blast+
  ultimately show ?thesis
    unfolding local_op_def using used grows_simps(1,3-5,8-11) [OF g] grows_simps(12) [OF g] by (intro conjI) simp_all
qed

lemma shrinks_local:
  assumes ok: "vol_ok I s" and ino: "ino \<in> I" and g: "shrinks I ino s s'"
  shows "local_op I ino s s'"
proof -
  have "tree_blocks s ino \<subseteq> used_blocks s" "tree_blocks s' ino \<subseteq> tree_blocks s ino"
    "used_blocks s' = used_blocks s - (tree_blocks s ino - tree_blocks s' ino)"
    using tree_blocks_used [OF ok ino] g unfolding shrinks_def by blast+
  then have used: "used_blocks s' - tree_blocks s' ino = used_blocks s - tree_blocks s ino" by blast
  have "i_op (icache s' ino) = i_op (icache s ino)"
  proof -
    have u: "icache s' ino = (icache s ino)\<lparr>i_mtime := i_mtime (icache s' ino), i_ctime := i_ctime (icache s' ino),
       i_dirty := i_dirty (icache s' ino), blkaddr := blkaddr (icache s' ino)\<rparr>" using g unfolding shrinks_def by blast
    show ?thesis by (subst u) simp
  qed
  moreover have "\<exists>l. sbi s' = (sbi s)\<lparr>s_bam_last := l\<rparr>"
    using g unfolding shrinks_def by (intro exI [of _ "s_bam_last (sbi s)"]) simp
  moreover have "vol_ok I s'" "sb_blocksize s' = sb_blocksize s" "used_inodes s' = used_inodes s"
    "\<forall>i\<in>I. i \<noteq> ino \<longrightarrow> (\<forall>r. node_path r \<longrightarrow> bmap s' i r = bmap s i r)"
    "\<forall>i. i \<noteq> ino \<longrightarrow> icache s' i = icache s i \<and> pages s' i = pages s i"
    "\<forall>n. n \<notin> data_zone s \<longrightarrow> n \<notin> set (s_bam_bh (sbi s)) \<longrightarrow> bufs s' n = bufs s n"
    using g unfolding shrinks_def by blast+
  ultimately show ?thesis unfolding local_op_def using used shrinks_fields [OF g] by simp
qed

text \<open>Pages of the file, dirty marks, and fields of its inode that are not part of the tree.\<close>

lemma local_op_inode:
  assumes ok: "vol_ok I s"
    and "sbi s' = sbi s" "sb_blocksize s' = sb_blocksize s" "sb_blocksize_bits s' = sb_blocksize_bits s" "bufs s' = bufs s"
    and "\<And>i. i \<noteq> ino \<Longrightarrow> icache s' i = icache s i \<and> pages s' i = pages s i"
    and "blkaddr (icache s' ino) = blkaddr (icache s ino)" "i_ino (icache s' ino) = i_ino (icache s ino)"
      "i_mode (icache s' ino) = i_mode (icache s ino)" "i_nlink (icache s' ino) = i_nlink (icache s ino)"
      "i_op (icache s' ino) = i_op (icache s ino)"
  shows "local_op I ino s s'"
proof -
  have ba: "blkaddr (icache s' i) = blkaddr (icache s i)" for i using assms(6) [of i] assms(7) by (cases "i = ino") simp_all
  note c = vol_ok_cong [of s' s UNIV, OF assms(2-5) ba]
  have "vol_ok I s' = vol_ok I s" by (rule vol_ok_cong [OF assms(2-5) ba])
  then show ?thesis
    unfolding local_op_def using ok c assms(2,3,5,6,8-11)
    by (intro conjI exI [of _ "s_bam_last (sbi s)"]) simp_all
qed

text \<open>The busy blocks that no file in \<open>I\<close> owns: metadata, padding, and whatever has leaked.\<close>

definition unowned :: "nat set \<Rightarrow> fs \<Rightarrow> nat set" where
  "unowned I s = used_blocks s - (\<Union>i\<in>I. tree_blocks s i)"

lemma local_op_others: "local_op I ino s s' \<Longrightarrow> i \<in> I \<Longrightarrow> i \<noteq> ino \<Longrightarrow> tree_blocks s' i = tree_blocks s i"
  by (rule tree_blocks_cong) (simp add: local_op_def)

lemma local_op_unowned:
  assumes "local_op I ino s s'" and "ino \<in> I"
  shows "unowned I s' = unowned I s"
proof -
  have split: "(\<Union>i\<in>I. tree_blocks t i) = tree_blocks t ino \<union> (\<Union>i\<in>I - {ino}. tree_blocks t i)" for t
    using assms(2) by blast
  have "(\<Union>i\<in>I - {ino}. tree_blocks s' i) = (\<Union>i\<in>I - {ino}. tree_blocks s i)"
    using local_op_others [OF assms(1)] by simp
  moreover have "used_blocks s' - tree_blocks s' ino = used_blocks s - tree_blocks s ino"
    using assms(1) by (simp add: local_op_def)
  ultimately show ?thesis unfolding unowned_def split by blast
qed

section \<open>Inodes come and go\<close>

lemma bmap_data_cong:
  assumes wf: "tree_wf I s" and i: "i \<in> I" and ba: "\<And>r. r < 9 \<Longrightarrow> blkaddr (icache s' i) r = blkaddr (icache s i) r"
    and b: "\<And>m. m \<in> data_zone s \<Longrightarrow> bufs s' m = bufs s m" and r: "node_path r"
  shows "bmap s' i r = bmap s i r"
proof (rule bmap_cong [OF ba _ r])
  fix m k
  assume "m \<in> tree_blocks s i"
  then have "m \<in> data_zone s" using tree_wf_zone [OF wf i] by blast
  then show "get_le32 (bufs s' m) (4 * k) = get_le32 (bufs s m) (4 * k)" using b by simp
qed

context inode_alloc
begin

text \<open>A new inode has a number of its own and an empty tree.\<close>

lemma new_inode_vol:
  assumes ok: "vol_ok I s" and I: "I \<subseteq> used_inodes s" and r: "gas_new_inode K s dir mode = Some (Some ino, e, s')"
  shows "ino \<notin> I" "vol_ok (insert ino I) s'" "used_blocks s' = used_blocks s" "used_inodes s' = insert ino (used_inodes s)"
    "\<And>i. i \<in> I \<Longrightarrow> tree_blocks s' i = tree_blocks s i" "tree_blocks s' ino = {}"
    "unowned (insert ino I) s' = unowned I s"
proof -
  note v = vol_ok_simps [OF ok]
  have lay: "set (s_bam_bh (sbi s)) \<inter> set (s_iam_bh (sbi s)) = {}" using v(3) by (simp add: layout_wf_def)
  note f = gas_new_inode_found [OF v(2) lay r]
  show ino: "ino \<notin> I" using f(2) I by blast
  show "used_inodes s' = insert ino (used_inodes s)" by (rule f(3))
  show ub: "used_blocks s' = used_blocks s" by (rule f(15))
  have zone: "data_zone s' = data_zone s" by (simp add: data_zone_def f(14))
  have bz: "bufs s' m = bufs s m" if "m \<in> data_zone s" for m
    using f(12) [of m] layout_zone [OF v(3), of m] that by blast
  have old: "bmap s' i r = bmap s i r" if "i \<in> I" "node_path r" for i r
  proof (rule bmap_data_cong [OF v(5) that(1) _ bz that(2)])
    have "i \<noteq> ino" using that(1) ino by blast
    then show "blkaddr (icache s' i) k = blkaddr (icache s i) k" for k using f(11) by simp
  qed
  have new: "bmap s' ino r = 0" if "node_path r" for r
  proof -
    have "hd r < 9" using that by (rule hd_node_path)
    then show ?thesis using f(8) [of "hd r"] by (cases r) (simp_all add: bmap_def)
  qed
  show "tree_blocks s' i = tree_blocks s i" if "i \<in> I" for i
    by (rule tree_blocks_cong) (rule old [OF that])
  moreover show te: "tree_blocks s' ino = {}" using new by (auto simp: tree_blocks_def)
  ultimately show "unowned (insert ino I) s' = unowned I s" by (simp add: unowned_def ub)
  have "tree_wf (insert ino I) s'"
    unfolding tree_wf_def
  proof (intro conjI ballI allI impI)
    fix i q
    assume a: "i \<in> insert ino I" "node_path q" "bmap s' i q \<noteq> 0"
    then have "i \<in> I" using new [OF a(2)] by auto
    then show "unat (bmap s' i q) \<in> data_zone s' \<inter> used_blocks s'"
      using tree_wf_node [OF v(5) _ a(2)] a(3) old [OF _ a(2)] by (simp add: zone ub)
  next
    fix i j q r
    assume a: "i \<in> insert ino I" "j \<in> insert ino I" "node_path q" "node_path r" "bmap s' i q \<noteq> 0" "bmap s' i q = bmap s' j r"
    then have ij: "i \<in> I" "j \<in> I" using new [OF a(3)] new [OF a(4)] by auto
    then show "i = j" "q = r"
      using tree_wf_inj [OF v(5) ij a(3,4)] a(5,6) old [OF ij(1) a(3)] old [OF ij(2) a(4)] by metis+
  qed
  moreover have "alloc_inv s'" "layout_wf s'" "tree_geom s'" "itable_area (sbi s')" "unat (s_nblocks (sbi s')) \<le> max_blocks"
    using v f(14,16,17) ub zone
    by (simp_all add: alloc_inv_def bam_wf_def bam_bits_def layout_wf_def itable_wf_def tree_geom_def itable_area_def)
  ultimately show "vol_ok (insert ino I) s'" using f(4) by (simp add: vol_ok_def)
qed

end

context buffer_cache
begin

lemma free_inode_frame:
  assumes lay: "layout_wf s" and area: "itable_area (sbi s)" and ino: "i_ino (icache s n) < unat (s_ninodes (sbi s))"
    and wf: "iam_wf s"
  shows "sbi (gas_free_inode K s n) = sbi s" "icache (gas_free_inode K s n) = icache s" "pages (gas_free_inode K s n) = pages s"
    "sb_blocksize (gas_free_inode K s n) = sb_blocksize s" "sb_blocksize_bits (gas_free_inode K s n) = sb_blocksize_bits s"
    "m \<in> data_zone s \<union> set (s_bam_bh (sbi s)) \<Longrightarrow> bufs (gas_free_inode K s n) m = bufs s m"
proof -
  let ?ino = "i_ino (icache s n)"
  define X where "X = gas_free_inode K s n"
  define bh where "bh = s_iam_bh (sbi s) ! (?ino div BITS_PER_BLOCK)"
  define s1 where "s1 = gas_clear_inode K s n"
  have idx: "?ino div BITS_PER_BLOCK < length (s_iam_bh (sbi s))"
    using ino wf by (auto simp: iam_wf_def less_mult_imp_div_less mult.commute)
  then have bh: "bh \<in> set (s_iam_bh (sbi s))" by (simp add: bh_def)
  have geom: "sb_blocksize_bits s = 12" using wf by (simp add: iam_wf_def)
  have X: "X = s \<or> X = mark_buffer_dirty bh (set_buf bh
      (snd (test_and_clear_bit K (?ino mod BITS_PER_BLOCK) (bufs s1 bh))) s1)"
    unfolding X_def gas_free_inode_def Let_def s1_def bh_def geom by (simp only: block_split) simp
  show "sbi X = sbi s" "icache X = icache s" "pages X = pages s" "sb_blocksize X = sb_blocksize s"
    "sb_blocksize_bits X = sb_blocksize_bits s"
    using X by (auto simp: s1_def)
  have blk: "gas_inode_block (sbi s) ?ino \<notin> data_zone s"
  proof -
    have iw: "itable_wf (sbi s)" using lay by (simp add: layout_wf_def)
    have "?ino < 64 * unat (s_inode_blocks (sbi s))" using ino area by (simp add: itable_area_def)
    then have "?ino div 64 < unat (s_inode_blocks (sbi s))" by (simp add: less_mult_imp_div_less mult.commute)
    then show ?thesis using area unfolding inode_location(1) [OF iw] by (simp add: itable_area_def data_zone_def)
  qed
  show "bufs X m = bufs s m" if m: "m \<in> data_zone s \<union> set (s_bam_bh (sbi s))"
  proof -
    have "m \<noteq> bh" using m bh layout_zone [OF lay, of bh] lay by (auto simp: layout_wf_def)
    moreover have "bufs s1 m = bufs s m"
    proof (cases "gas_get_inode K s ?ino = None")
      case False
      have "m \<noteq> gas_inode_block (sbi s) ?ino" using m blk layout_wf_inode_block [OF lay, of ?ino] by blast
      then show ?thesis unfolding s1_def by (rule gas_clear_inode_disk(2) [OF lay False])
    qed (simp add: s1_def gas_clear_inode_none)
    ultimately show ?thesis using X by auto
  qed
qed

lemma free_inode_vol:
  assumes ok: "vol_ok I s" and ino: "i_ino (icache s n) = ino" "1 \<le> ino" "ino < unat (s_ninodes (sbi s))"
    and J: "J \<subseteq> I"
  shows "vol_ok J (gas_free_inode K s n)" "used_inodes (gas_free_inode K s n) = used_inodes s - {ino}"
    "used_blocks (gas_free_inode K s n) = used_blocks s"
    "\<And>i. i \<in> I \<Longrightarrow> tree_blocks (gas_free_inode K s n) i = tree_blocks s i"
    "\<And>i r. i \<in> I \<Longrightarrow> node_path r \<Longrightarrow> bmap (gas_free_inode K s n) i r = bmap s i r"
proof -
  note v = vol_ok_simps [OF ok]
  have lt: "i_ino (icache s n) < unat (s_ninodes (sbi s))" using ino by simp
  note f = free_inode_frame [OF v(3,7) lt v(2)]
  show ub: "used_blocks (gas_free_inode K s n) = used_blocks s" and "used_inodes (gas_free_inode K s n) = used_inodes s - {ino}"
    using gas_free_inode_used [OF v(2,3) ino(1) [symmetric] ino(2,3)] by blast+
  have zone: "data_zone (gas_free_inode K s n) = data_zone s" by (simp add: data_zone_def f)
  have b: "bmap (gas_free_inode K s n) i r = bmap s i r" if "i \<in> I" "node_path r" for i r
    by (rule bmap_data_cong [OF v(5) that(1) _ _ that(2)]) (simp_all add: f)
  then show "\<And>i r. i \<in> I \<Longrightarrow> node_path r \<Longrightarrow> bmap (gas_free_inode K s n) i r = bmap s i r" .
  show "tree_blocks (gas_free_inode K s n) i = tree_blocks s i" if "i \<in> I" for i
    by (rule tree_blocks_cong) (rule b [OF that])
  have "tree_wf J (gas_free_inode K s n)"
    unfolding tree_wf_def
  proof (intro conjI ballI allI impI)
    fix i q
    assume a: "i \<in> J" "node_path q" "bmap (gas_free_inode K s n) i q \<noteq> 0"
    then have "i \<in> I" using J by blast
    then show "unat (bmap (gas_free_inode K s n) i q) \<in> data_zone (gas_free_inode K s n) \<inter> used_blocks (gas_free_inode K s n)"
      using tree_wf_node [OF v(5) _ a(2)] a(3) b [OF _ a(2)] by (simp add: zone ub)
  next
    fix i j q r
    assume a: "i \<in> J" "j \<in> J" "node_path q" "node_path r" "bmap (gas_free_inode K s n) i q \<noteq> 0"
      "bmap (gas_free_inode K s n) i q = bmap (gas_free_inode K s n) j r"
    then have ij: "i \<in> I" "j \<in> I" using J by blast+
    then show "i = j" "q = r"
      using tree_wf_inj [OF v(5) ij a(3,4)] a(5,6) b [OF ij(1) a(3)] b [OF ij(2) a(4)] by metis+
  qed
  moreover have "alloc_inv (gas_free_inode K s n)" "layout_wf (gas_free_inode K s n)" "tree_geom (gas_free_inode K s n)"
    "iam_wf (gas_free_inode K s n)"
    using v(1-4) ub zone f(1-5) by (simp_all add: alloc_inv_def bam_wf_def bam_bits_def layout_wf_def tree_geom_def iam_wf_def)
  ultimately show "vol_ok J (gas_free_inode K s n)" using v(6,7) f(1) by (simp add: vol_ok_def)
qed

end

end
