(* ===== verification/Gas_Page.thy ===== *)
theory Gas_Page
  imports Gas_Volume
begin

text \<open>
  The clients of the block tree: \<^verbatim>\<open>gas_truncate\<close> and \<^verbatim>\<open>gas_evict_inode\<close>
  (\<^verbatim>\<open>src/kern/gas_inode.c\<close>) and the address space operations of \<^verbatim>\<open>src/kern/gas_page.c\<close>,
  which hand \<^verbatim>\<open>gas_get_block\<close> to the generic buffer layer of the kernel.
\<close>

section \<open>Kernel services\<close>

text \<open>
  The generic routines get \<^verbatim>\<open>gas_get_block\<close> as an argument. \<open>clear_inode\<close> and
  \<open>invalidate_inode_buffers\<close> concern VFS lists that the file system never reads.
\<close>

type_synonym get_block_fn = "fs \<Rightarrow> nat \<Rightarrow> u64 \<Rightarrow> bool \<Rightarrow> (err \<times> (nat \<times> bool) option \<times> fs) option"

record page_services = itree_services +
  truncate_inode_pages :: "fs \<Rightarrow> nat \<Rightarrow> nat \<Rightarrow> fs"
  truncate_pagecache :: "fs \<Rightarrow> nat \<Rightarrow> nat \<Rightarrow> fs"
  block_write_full_page :: "get_block_fn \<Rightarrow> fs \<Rightarrow> nat \<Rightarrow> nat \<Rightarrow> (err \<times> fs) option"
  mpage_writepages :: "get_block_fn \<Rightarrow> fs \<Rightarrow> nat \<Rightarrow> (err \<times> fs) option"
  mpage_readpage :: "get_block_fn \<Rightarrow> fs \<Rightarrow> nat \<Rightarrow> nat \<Rightarrow> (err \<times> fs) option"
  mpage_readpages :: "get_block_fn \<Rightarrow> fs \<Rightarrow> nat \<Rightarrow> nat list \<Rightarrow> (err \<times> fs) option"
  blockdev_direct_IO :: "get_block_fn \<Rightarrow> bool \<Rightarrow> fs \<Rightarrow> nat \<Rightarrow> byte list list \<Rightarrow> nat \<Rightarrow> (int \<times> fs) option"
  block_write_begin :: "get_block_fn \<Rightarrow> fs \<Rightarrow> nat \<Rightarrow> nat \<Rightarrow> nat \<Rightarrow> (err \<times> fs) option"
  generic_write_end :: "fs \<Rightarrow> nat \<Rightarrow> nat \<Rightarrow> nat \<Rightarrow> nat \<Rightarrow> int \<times> fs"
  generic_block_bmap :: "get_block_fn \<Rightarrow> fs \<Rightarrow> nat \<Rightarrow> u64 \<Rightarrow> nat"

section \<open>Truncation and eviction\<close>

definition gas_truncate :: "'k itree_services_scheme \<Rightarrow> fs \<Rightarrow> nat \<Rightarrow> fs" where
  "gas_truncate K s ino =
     (let m = i_mode (icache s ino)
      in if \<not> (S_ISREG m \<or> S_ISDIR m \<or> S_ISLNK m) then s else gas_truncate_inode K s ino)"

definition gas_evict_inode :: "'k page_services_scheme \<Rightarrow> fs \<Rightarrow> nat \<Rightarrow> fs" where
  "gas_evict_inode K s ino =
     (let s = truncate_inode_pages K s ino 0;
          s = (if i_nlink (icache s ino) = 0
               then gas_truncate K (upd_inode ino (\<lambda>i. i\<lparr>i_size := 0\<rparr>) s) ino else s)
      in if i_nlink (icache s ino) = 0 then gas_free_inode K s ino else s)"

section \<open>Address space operations\<close>

definition gas_writepage :: "'k page_services_scheme \<Rightarrow> fs \<Rightarrow> nat \<Rightarrow> nat \<Rightarrow> (err \<times> fs) option" where
  "gas_writepage K s ino page = block_write_full_page K (gas_get_block K) s ino page"

definition gas_writepages :: "'k page_services_scheme \<Rightarrow> fs \<Rightarrow> nat \<Rightarrow> (err \<times> fs) option" where
  "gas_writepages K s ino = mpage_writepages K (gas_get_block K) s ino"

definition gas_readpage :: "'k page_services_scheme \<Rightarrow> fs \<Rightarrow> nat \<Rightarrow> nat \<Rightarrow> (err \<times> fs) option" where
  "gas_readpage K s ino page = mpage_readpage K (gas_get_block K) s ino page"

definition gas_readpages :: "'k page_services_scheme \<Rightarrow> fs \<Rightarrow> nat \<Rightarrow> nat list \<Rightarrow> (err \<times> fs) option" where
  "gas_readpages K s ino pgs = mpage_readpages K (gas_get_block K) s ino pgs"

definition gas_direct_io :: "'k page_services_scheme \<Rightarrow> bool \<Rightarrow> fs \<Rightarrow> nat \<Rightarrow> byte list list \<Rightarrow> nat \<Rightarrow> (int \<times> fs) option" where
  "gas_direct_io K rw s ino iov off = blockdev_direct_IO K (gas_get_block K) rw s ino iov off"

definition gas_write_failed :: "'k page_services_scheme \<Rightarrow> fs \<Rightarrow> nat \<Rightarrow> nat \<Rightarrow> fs" where
  "gas_write_failed K s ino to =
     (if i_size (icache s ino) < to
      then gas_truncate K (truncate_pagecache K s ino (i_size (icache s ino))) ino else s)"

definition gas_write_begin :: "'k page_services_scheme \<Rightarrow> fs \<Rightarrow> nat \<Rightarrow> nat \<Rightarrow> nat \<Rightarrow> (err \<times> fs) option" where
  "gas_write_begin K s ino pos len =
     (case block_write_begin K (gas_get_block K) s ino pos len of
        None \<Rightarrow> None
      | Some (ret, s) \<Rightarrow> Some (ret, if ret \<noteq> None then gas_write_failed K s ino (pos + len) else s))"

text \<open>In \<open>ret < len\<close> the \<open>int\<close> is converted to \<open>unsigned\<close>.\<close>

definition gas_write_end :: "'k page_services_scheme \<Rightarrow> fs \<Rightarrow> nat \<Rightarrow> nat \<Rightarrow> nat \<Rightarrow> nat \<Rightarrow> int \<times> fs" where
  "gas_write_end K s ino pos len copied =
     (let (ret, s) = generic_write_end K s ino pos len copied;
          s = mark_inode_dirty ino s
      in (ret, if (word_of_int ret :: u32) < word_of_nat len then gas_write_failed K s ino (pos + len) else s))"

definition gas_bmap :: "'k page_services_scheme \<Rightarrow> fs \<Rightarrow> nat \<Rightarrow> u64 \<Rightarrow> nat" where
  "gas_bmap K s ino blk = generic_block_bmap K (gas_get_block K) s ino blk"

section \<open>What the buffer layer does\<close>

text \<open>
  The generic routines work on a file by calling its \<open>get_block\<close> function for some of its blocks and by
  filling pages; \<open>buffer_calls gb ino s s'\<close> holds when \<open>s'\<close> can be reached that way.
\<close>

inductive buffer_calls :: "get_block_fn \<Rightarrow> nat \<Rightarrow> fs \<Rightarrow> fs \<Rightarrow> bool" for gb ino where
  done_calls: "buffer_calls gb ino s s"
| call_get_block: "gb s ino b create = Some (e, m, s1) \<Longrightarrow> buffer_calls gb ino s1 s2 \<Longrightarrow> buffer_calls gb ino s s2"
| fill_pages: "(\<And>i. i \<noteq> ino \<Longrightarrow> p i = pages s i) \<Longrightarrow> buffer_calls gb ino (s\<lparr>pages := p, b_dirty := d\<rparr>) s2 \<Longrightarrow>
    buffer_calls gb ino s s2"

inductive_cases buffer_callsE: "buffer_calls gb ino s s'"

text \<open>
  The documented behaviour the address space operations rely on: the reading and writing routines are
  buffer calls (and return if the function they call returns); \<open>generic_write_end\<close> may extend the file's
  size; \<open>generic_block_bmap\<close> is one lookup; truncating the page cache drops pages of the file.
\<close>

locale page_cache = block_tree K for K :: "'k page_services_scheme" +
  assumes truncate_pages: "truncate_inode_pages K s ino n = s\<lparr>pages := pages (truncate_inode_pages K s ino n)\<rparr>"
      "i \<noteq> ino \<Longrightarrow> pages (truncate_inode_pages K s ino n) i = pages s i"
    and truncate_cache: "truncate_pagecache K s ino n = s\<lparr>pages := pages (truncate_pagecache K s ino n)\<rparr>"
      "i \<noteq> ino \<Longrightarrow> pages (truncate_pagecache K s ino n) i = pages s i"
    and write_page: "block_write_full_page K gb s ino n = Some (e, s') \<Longrightarrow> buffer_calls gb ino s s'"
    and write_pages: "mpage_writepages K gb s ino = Some (e, s') \<Longrightarrow> buffer_calls gb ino s s'"
    and readpage: "mpage_readpage K gb s ino n = Some (e, s') \<Longrightarrow> buffer_calls gb ino s s'"
    and readpages: "mpage_readpages K gb s ino ns = Some (e, s') \<Longrightarrow> buffer_calls gb ino s s'"
    and direct: "blockdev_direct_IO K gb rw s ino iov off = Some (r, s') \<Longrightarrow> buffer_calls gb ino s s'"
    and write_begin: "block_write_begin K gb s ino pos len = Some (e, s') \<Longrightarrow> buffer_calls gb ino s s'"
    and write_begin_total: "(\<And>s' b c. buffer_calls gb ino s s' \<Longrightarrow> gb s' ino b c \<noteq> None) \<Longrightarrow>
      block_write_begin K gb s ino pos len \<noteq> None"
    and generic_end: "generic_write_end K s ino pos len copied = (r, s') \<Longrightarrow>
      \<exists>sz p d. s' = upd_inode ino (\<lambda>i. i\<lparr>i_size := sz, i_dirty := d\<rparr>) (s\<lparr>pages := p, b_dirty := b_dirty s'\<rparr>) \<and>
        sz \<in> {i_size (icache s ino), pos + copied} \<and> (\<forall>i. i \<noteq> ino \<longrightarrow> p i = pages s i)"
    and block_bmap: "generic_block_bmap K gb s ino b =
      (case gb s ino b False of Some (_, Some (n, _), _) \<Rightarrow> n | _ \<Rightarrow> 0)"
begin

lemma buffer_calls_local:
  assumes "buffer_calls (gas_get_block K) ino s s'" and "vol_ok I s" and "ino \<in> I"
  shows "local_op I ino s s' \<and> i_size (icache s' ino) = i_size (icache s ino)"
  using assms
proof (induction rule: buffer_calls.induct)
  case (done_calls s)
  then show ?case by (simp add: local_op_refl)
next
  case (call_get_block s b create e m s1 s2)
  have g: "grows I ino s s1" using get_block_grows [OF call_get_block.prems, of b create] call_get_block.hyps(1) by auto
  have l: "local_op I ino s s1" by (rule grows_local [OF call_get_block.prems g])
  show ?case
    using call_get_block.IH [OF local_op_ok [OF l] call_get_block.prems(2)] local_op_trans [OF l] grows_simps(7) [OF g] by auto
next
  case (fill_pages p s d s2)
  have l: "local_op I ino s (s\<lparr>pages := p, b_dirty := d\<rparr>)"
    by (rule local_op_inode [OF fill_pages.prems(1)]) (use fill_pages.hyps(1) in simp_all)
  show ?case using fill_pages.IH [OF local_op_ok [OF l] fill_pages.prems(2)] local_op_trans [OF l] by auto
qed

lemma truncate_pages_local:
  assumes "vol_ok I s"
  shows "local_op I ino s (truncate_inode_pages K s ino n)" "local_op I ino s (truncate_pagecache K s ino n)"
    "icache (truncate_inode_pages K s ino n) = icache s" "icache (truncate_pagecache K s ino n) = icache s"
    "bufs (truncate_inode_pages K s ino n) = bufs s" "sbi (truncate_inode_pages K s ino n) = sbi s"
proof -
  have a: "icache (truncate_inode_pages K s ino n) = icache s" "sbi (truncate_inode_pages K s ino n) = sbi s"
    "sb_blocksize (truncate_inode_pages K s ino n) = sb_blocksize s" "bufs (truncate_inode_pages K s ino n) = bufs s"
    "sb_blocksize_bits (truncate_inode_pages K s ino n) = sb_blocksize_bits s"
    by (subst truncate_pages(1); simp)+
  have b: "icache (truncate_pagecache K s ino n) = icache s" "sbi (truncate_pagecache K s ino n) = sbi s"
    "sb_blocksize (truncate_pagecache K s ino n) = sb_blocksize s" "bufs (truncate_pagecache K s ino n) = bufs s"
    "sb_blocksize_bits (truncate_pagecache K s ino n) = sb_blocksize_bits s"
    by (subst truncate_cache(1); simp)+
  show "icache (truncate_inode_pages K s ino n) = icache s" "icache (truncate_pagecache K s ino n) = icache s"
    "bufs (truncate_inode_pages K s ino n) = bufs s" "sbi (truncate_inode_pages K s ino n) = sbi s" by (fact a b)+
  show "local_op I ino s (truncate_inode_pages K s ino n)"
    by (rule local_op_inode [OF assms]) (simp_all add: a truncate_pages(2))
  show "local_op I ino s (truncate_pagecache K s ino n)"
    by (rule local_op_inode [OF assms]) (simp_all add: b truncate_cache(2))
qed

lemma gas_truncate_local:
  assumes "vol_ok I s" and "ino \<in> I" and "\<And>bf n. sb_bread K bf n \<noteq> None"
  shows "local_op I ino s (gas_truncate K s ino)" "i_size (icache (gas_truncate K s ino) ino) = i_size (icache s ino)"
  using shrinks_local [OF assms(1,2) truncate_shrinks [OF assms]] local_op_refl [OF assms(1)]
    shrinks_fields(1) [OF truncate_shrinks [OF assms]]
  by (simp_all add: gas_truncate_def Let_def)

lemma write_failed_local:
  assumes ok: "vol_ok I s" and ino: "ino \<in> I" and read: "\<And>bf n. sb_bread K bf n \<noteq> None"
  shows "local_op I ino s (gas_write_failed K s ino to)"
    "i_size (icache (gas_write_failed K s ino to) ino) = i_size (icache s ino)"
proof -
  note t = truncate_pages_local(2,4) [OF ok, of ino "i_size (icache s ino)"]
  note g = gas_truncate_local [OF local_op_ok [OF t(1)] ino read]
  show "local_op I ino s (gas_write_failed K s ino to)"
    "i_size (icache (gas_write_failed K s ino to) ino) = i_size (icache s ino)"
    using local_op_trans [OF t(1) g(1)] local_op_refl [OF ok] g(2) t(2) by (simp_all add: gas_write_failed_def)
qed

lemma write_begin_local:
  assumes ok: "vol_ok I s" and ino: "ino \<in> I" and read: "\<And>bf n. sb_bread K bf n \<noteq> None"
  shows "\<exists>e s'. gas_write_begin K s ino pos len = Some (e, s') \<and> local_op I ino s s' \<and>
    i_size (icache s' ino) = i_size (icache s ino)"
proof -
  have "gas_get_block K s' ino b c \<noteq> None" if "buffer_calls (gas_get_block K) ino s s'" for s' b c
    using get_block_grows [OF local_op_ok [OF conjunct1 [OF buffer_calls_local [OF that ok ino]]] ino, of b c] by auto
  then have "block_write_begin K (gas_get_block K) s ino pos len \<noteq> None" by (rule write_begin_total)
  then obtain e s1 where w: "block_write_begin K (gas_get_block K) s ino pos len = Some (e, s1)" by auto
  have l: "local_op I ino s s1" "i_size (icache s1 ino) = i_size (icache s ino)"
    using buffer_calls_local [OF write_begin [OF w] ok ino] by blast+
  note f = write_failed_local [OF local_op_ok [OF l(1)] ino read, of "pos + len"]
  show ?thesis
    using w l f local_op_trans [OF l(1) f(1)] by (simp add: gas_write_begin_def)
qed

lemma write_end_local:
  assumes ok: "vol_ok I s" and ino: "ino \<in> I" and read: "\<And>bf n. sb_bread K bf n \<noteq> None"
    and w: "gas_write_end K s ino pos len copied = (r, s')"
  shows "local_op I ino s s'"
proof -
  obtain r0 s0 where g: "generic_write_end K s ino pos len copied = (r0, s0)" by fastforce
  obtain sz p d where s0: "s0 = upd_inode ino (\<lambda>i. i\<lparr>i_size := sz, i_dirty := d\<rparr>) (s\<lparr>pages := p, b_dirty := b_dirty s0\<rparr>)"
    and p: "\<And>i. i \<noteq> ino \<Longrightarrow> p i = pages s i" using generic_end [OF g] by blast
  have f: "sbi s0 = sbi s" "sb_blocksize s0 = sb_blocksize s" "sb_blocksize_bits s0 = sb_blocksize_bits s" "bufs s0 = bufs s"
    "icache s0 = (icache s)(ino := (icache s ino)\<lparr>i_size := sz, i_dirty := d\<rparr>)" "pages s0 = p"
    by (subst s0; simp)+
  define s1 where "s1 = mark_inode_dirty ino s0"
  have l: "local_op I ino s s1"
    by (rule local_op_inode [OF ok]) (simp_all add: s1_def f p)
  note wf = write_failed_local [OF local_op_ok [OF l] ino read, of "pos + len"]
  have "s' = s1 \<or> s' = gas_write_failed K s1 ino (pos + len)"
    using w g by (auto simp: gas_write_end_def Let_def s1_def)
  then show ?thesis using l local_op_trans [OF l wf(1)] by blast
qed

end

section \<open>Blocks beyond the end of the file\<close>

text \<open>The blocks a file of the given size needs.\<close>

definition end_block :: "fs \<Rightarrow> nat \<Rightarrow> nat" where
  "end_block s ino = (i_size (icache s ino) + 4095) div 4096"

text \<open>
  \<open>blocks_stay\<close>: the mapped blocks of a file are mapped as before, new ones may have come. \<open>blocks_cut\<close>: so are those before
  block \<open>n\<close>, and there is none from \<open>n\<close> on.
\<close>

definition blocks_stay :: "fs \<Rightarrow> fs \<Rightarrow> nat \<Rightarrow> bool" where
  "blocks_stay s s' ino \<longleftrightarrow> (\<forall>b<max_blocks. bmap s ino (file_path b) \<noteq> 0 \<longrightarrow> bmap s' ino (file_path b) = bmap s ino (file_path b))"

definition blocks_cut :: "fs \<Rightarrow> fs \<Rightarrow> nat \<Rightarrow> nat \<Rightarrow> bool" where
  "blocks_cut s s' ino n \<longleftrightarrow> (\<forall>b<max_blocks. if b < n
     then bmap s ino (file_path b) \<noteq> 0 \<longrightarrow> bmap s' ino (file_path b) = bmap s ino (file_path b)
     else bmap s' ino (file_path b) = 0)"

lemma blocks_stay_same: "bmap s' ino = bmap s ino \<Longrightarrow> blocks_stay s s' ino"
  by (simp add: blocks_stay_def)

lemma blocks_stay_trans: "blocks_stay s s1 ino \<Longrightarrow> blocks_stay s1 s2 ino \<Longrightarrow> blocks_stay s s2 ino"
  by (simp add: blocks_stay_def)

lemma blocks_stay_cut: "blocks_stay s s1 ino \<Longrightarrow> blocks_cut s1 s2 ino n \<Longrightarrow> blocks_cut s s2 ino n"
  by (auto simp: blocks_stay_def blocks_cut_def)

context page_cache
begin

lemma buffer_calls_stay:
  assumes "buffer_calls (gas_get_block K) ino s s'" and "vol_ok I s" and "ino \<in> I"
  shows "blocks_stay s s' ino"
  using assms
proof (induction rule: buffer_calls.induct)
  case (done_calls s)
  then show ?case by (simp add: blocks_stay_same)
next
  case (call_get_block s b create e m s1 s2)
  have g: "grows I ino s s1" using get_block_grows [OF call_get_block.prems, of b create] call_get_block.hyps(1) by auto
  have "blocks_stay s s1 ino"
    using g call_get_block.prems(2) unfolding grows_def blocks_stay_def by (meson data_path_node file_path_valid)
  then show ?case using call_get_block.IH [OF grows_simps(1) [OF g] call_get_block.prems(2)] blocks_stay_trans by blast
next
  case (fill_pages p s d s2)
  have l: "local_op I ino s (s\<lparr>pages := p, b_dirty := d\<rparr>)"
    by (rule local_op_inode [OF fill_pages.prems(1)]) (use fill_pages.hyps(1) in simp_all)
  have "blocks_stay s (s\<lparr>pages := p, b_dirty := d\<rparr>) ino" by (intro blocks_stay_same ext bmap_eqI) simp_all
  then show ?case using fill_pages.IH [OF local_op_ok [OF l] fill_pages.prems(2)] blocks_stay_trans by blast
qed

text \<open>The clean-up after a failed or short write up to \<open>to\<close>.\<close>

lemma write_failed_blocks:
  assumes ok: "vol_ok I s" and ino: "ino \<in> I" and read: "\<And>bf n. sb_bread K bf n \<noteq> None"
    and m: "S_ISREG (i_mode (icache s ino))" and n: "end_block s ino < unat (s_nblocks (sbi s))"
  shows "if i_size (icache s ino) < to then blocks_cut s (gas_write_failed K s ino to) ino (end_block s ino)
    else gas_write_failed K s ino to = s"
proof (cases "i_size (icache s ino) < to")
  case True
  define t where "t = truncate_pagecache K s ino (i_size (icache s ino))"
  have l: "local_op I ino s t" and i: "icache t = icache s"
    using truncate_pages_local(2,4) [OF ok] by (simp_all add: t_def)
  have f: "bufs t = bufs s" "sbi t = sbi s" unfolding t_def by (subst truncate_cache(1); simp)+
  have b: "bmap t = bmap s" by (intro ext bmap_eqI) (simp_all add: i f)
  note v = vol_ok_simps [OF local_op_ok [OF l]]
  have "(i_size (icache t ino) + 4095) div 4096 = end_block s ino" by (simp add: end_block_def i)
  from truncate_truncated [OF v(1,3,4,5) ino read this [symmetric]] have "truncated I ino t (gas_truncate_inode K t ino) (end_block s ino)"
    using n vol_ok_simps(6) [OF ok] by (simp add: f)
  moreover have "gas_write_failed K s ino to = gas_truncate_inode K t ino"
    using True m by (simp add: gas_write_failed_def gas_truncate_def t_def [symmetric] i)
  ultimately show ?thesis using True by (simp add: truncated_def blocks_cut_def b)
qed (simp add: gas_write_failed_def)

lemma write_begin_blocks:
  assumes ok: "vol_ok I s" and ino: "ino \<in> I" and read: "\<And>bf n. sb_bread K bf n \<noteq> None"
    and m: "S_ISREG (i_mode (icache s ino))" and n: "end_block s ino < unat (s_nblocks (sbi s))"
    and r: "gas_write_begin K s ino pos len = Some (e, s')"
  shows "if e \<noteq> None \<and> i_size (icache s ino) < pos + len then blocks_cut s s' ino (end_block s ino) else blocks_stay s s' ino"
proof -
  obtain s1 where w: "block_write_begin K (gas_get_block K) s ino pos len = Some (e, s1)"
    and s': "s' = (if e \<noteq> None then gas_write_failed K s1 ino (pos + len) else s1)"
    using r by (auto simp: gas_write_begin_def split: option.splits)
  note c = write_begin [OF w]
  have l: "local_op I ino s s1" and z: "i_size (icache s1 ino) = i_size (icache s ino)" using buffer_calls_local [OF c ok ino] by blast+
  have st: "blocks_stay s s1 ino" by (rule buffer_calls_stay [OF c ok ino])
  have h: "S_ISREG (i_mode (icache s1 ino))" "end_block s1 ino = end_block s ino" "s_nblocks (sbi s1) = s_nblocks (sbi s)"
    using l m z by (auto simp: local_op_def end_block_def)
  have n1: "end_block s1 ino < unat (s_nblocks (sbi s1))" using n h by simp
  have "if i_size (icache s1 ino) < pos + len then blocks_cut s1 (gas_write_failed K s1 ino (pos + len)) ino (end_block s1 ino)
    else gas_write_failed K s1 ino (pos + len) = s1"
    by (rule write_failed_blocks [OF local_op_ok [OF l] ino read h(1) n1])
  then show ?thesis using st blocks_stay_cut [OF st] h(2) z by (auto simp: s')
qed

lemma write_end_blocks:
  assumes ok: "vol_ok I s" and ino: "ino \<in> I" and read: "\<And>bf n. sb_bread K bf n \<noteq> None"
    and m: "S_ISREG (i_mode (icache s ino))" and n: "end_block s ino < unat (s_nblocks (sbi s))"
      "(pos + copied + 4095) div 4096 < unat (s_nblocks (sbi s))"
    and r: "gas_write_end K s ino pos len copied = (r, s')"
  shows "i_size (icache s' ino) \<in> {i_size (icache s ino), pos + copied} \<and>
    (if (word_of_int r :: u32) < word_of_nat len \<and> i_size (icache s' ino) < pos + len
     then blocks_cut s s' ino (end_block s' ino) else blocks_stay s s' ino)"
proof -
  obtain s0 where g: "generic_write_end K s ino pos len copied = (r, s0)"
    using r by (auto simp: gas_write_end_def Let_def split: prod.splits)
  obtain sz p d where s0: "s0 = upd_inode ino (\<lambda>i. i\<lparr>i_size := sz, i_dirty := d\<rparr>) (s\<lparr>pages := p, b_dirty := b_dirty s0\<rparr>)"
    and p: "\<And>i. i \<noteq> ino \<Longrightarrow> p i = pages s i" and sz: "sz \<in> {i_size (icache s ino), pos + copied}" using generic_end [OF g] by blast
  have f: "sbi s0 = sbi s" "sb_blocksize s0 = sb_blocksize s" "sb_blocksize_bits s0 = sb_blocksize_bits s" "bufs s0 = bufs s"
    "icache s0 = (icache s)(ino := (icache s ino)\<lparr>i_size := sz, i_dirty := d\<rparr>)" "pages s0 = p"
    by (subst s0; simp)+
  define s1 where "s1 = mark_inode_dirty ino s0"
  have l: "local_op I ino s s1" by (rule local_op_inode [OF ok]) (simp_all add: s1_def f p)
  have st: "blocks_stay s s1 ino" by (intro blocks_stay_same ext bmap_eqI) (simp_all add: s1_def f)
  have h: "S_ISREG (i_mode (icache s1 ino))" "i_size (icache s1 ino) = sz" "s_nblocks (sbi s1) = s_nblocks (sbi s)"
    using m by (simp_all add: s1_def f)
  have n1: "end_block s1 ino < unat (s_nblocks (sbi s1))" using n sz h by (auto simp: end_block_def)
  note wf = write_failed_local [OF local_op_ok [OF l] ino read, of "pos + len"]
  have c: "if i_size (icache s1 ino) < pos + len then blocks_cut s1 (gas_write_failed K s1 ino (pos + len)) ino (end_block s1 ino)
    else gas_write_failed K s1 ino (pos + len) = s1"
    by (rule write_failed_blocks [OF local_op_ok [OF l] ino read h(1) n1])
  have s': "s' = (if (word_of_int r :: u32) < word_of_nat len then gas_write_failed K s1 ino (pos + len) else s1)"
    using r g by (auto simp: gas_write_end_def Let_def s1_def)
  have z: "i_size (icache s' ino) = sz" using s' wf(2) h(2) by simp
  then have "end_block s' ino = end_block s1 ino" using h(2) by (simp add: end_block_def)
  then show ?thesis using st blocks_stay_cut [OF st] c s' z h(2) sz by (auto split: if_splits)
qed

end

section \<open>Eviction\<close>

context page_cache
begin

lemma truncate_pages_vol:
  assumes "vol_ok I s"
  shows "bmap (truncate_inode_pages K s ino n) = bmap s" "used_blocks (truncate_inode_pages K s ino n) = used_blocks s"
    "used_inodes (truncate_inode_pages K s ino n) = used_inodes s"
proof -
  have f: "icache (truncate_inode_pages K s ino n) = icache s" "sbi (truncate_inode_pages K s ino n) = sbi s"
    "bufs (truncate_inode_pages K s ino n) = bufs s"
    using truncate_pages_local(3,5,6) [OF assms] by blast+
  show "bmap (truncate_inode_pages K s ino n) = bmap s" by (intro ext bmap_eqI) (simp_all add: f)
  show "used_blocks (truncate_inode_pages K s ino n) = used_blocks s" "used_inodes (truncate_inode_pages K s ino n) = used_inodes s"
    by (simp_all add: used_blocks_def used_inodes_def f)
qed

text \<open>An inode with links loses its pages; one without links loses its blocks and its number.\<close>

lemma evict_linked:
  assumes ok: "vol_ok I s" and n: "i_nlink (icache s ino) \<noteq> 0"
  shows "local_op I ino s (gas_evict_inode K s ino)" "icache (gas_evict_inode K s ino) = icache s"
  using truncate_pages_local(1,3) [OF ok, of ino 0] n by (simp_all add: gas_evict_inode_def Let_def)

lemma evict_unlinked:
  assumes ok: "vol_ok I s" and ino: "ino \<in> I" and read: "\<And>bf n. sb_bread K bf n \<noteq> None"
    and n: "i_nlink (icache s ino) = 0" and m: "S_ISREG (i_mode (icache s ino)) \<or> S_ISDIR (i_mode (icache s ino)) \<or> S_ISLNK (i_mode (icache s ino))"
    and i: "i_ino (icache s ino) = ino" "1 \<le> ino" "ino < unat (s_ninodes (sbi s))"
  shows "vol_ok (I - {ino}) (gas_evict_inode K s ino)"
    "used_blocks (gas_evict_inode K s ino) = used_blocks s - tree_blocks s ino"
    "used_inodes (gas_evict_inode K s ino) = used_inodes s - {ino}"
    "\<And>k r. k \<in> I - {ino} \<Longrightarrow> node_path r \<Longrightarrow> bmap (gas_evict_inode K s ino) k r = bmap s k r"
    "\<And>k. k \<noteq> ino \<Longrightarrow> icache (gas_evict_inode K s ino) k = icache s k \<and> pages (gas_evict_inode K s ino) k = pages s k"
    "sbi (gas_evict_inode K s ino) = sbi s" "icache (gas_evict_inode K s ino) ino = (icache s ino)\<lparr>i_size := 0,
      i_mtime := i_mtime (icache (gas_evict_inode K s ino) ino), i_ctime := i_ctime (icache (gas_evict_inode K s ino) ino),
      i_dirty := i_dirty (icache (gas_evict_inode K s ino) ino), blkaddr := blkaddr (icache (gas_evict_inode K s ino) ino)\<rparr>"
proof -
  define s1 where "s1 = truncate_inode_pages K s ino 0"
  note t = truncate_pages_local [OF ok, of ino 0, folded s1_def] and tv = truncate_pages_vol [OF ok, of ino 0, folded s1_def]
  define s2 where "s2 = upd_inode ino (\<lambda>i. i\<lparr>i_size := 0\<rparr>) s1"
  have ba: "blkaddr (icache s2 k) = blkaddr (icache s1 k)" for k by (simp add: s2_def)
  have s2: "sbi s2 = sbi s1" "sb_blocksize s2 = sb_blocksize s1" "sb_blocksize_bits s2 = sb_blocksize_bits s1" "bufs s2 = bufs s1"
    by (simp_all add: s2_def)
  note c2 = vol_ok_cong [of s2 s1 UNIV, OF s2 ba]
  have ok2: "vol_ok I s2" using local_op_ok [OF t(1)] vol_ok_cong(1) [of s2 s1 I, OF s2 ba] by simp
  have tree2: "tree_blocks s2 ino = tree_blocks s ino"
    using c2(6) tree_blocks_cong [of s1 ino s] tv(1) by simp
  have sz: "i_size (icache s2 ino) = 0" by (simp add: s2_def)
  define s3 where "s3 = gas_truncate_inode K s2 ino"
  note sh = truncate_shrinks [OF ok2 ino read, folded s3_def]
  have te: "tree_blocks s3 ino = {}" unfolding s3_def by (rule truncate_empties [OF ok2 ino read sz])
  have i3: "i_ino (icache s3 ino) = ino" "i_nlink (icache s3 ino) = 0" "sbi s3 = sbi s"
    using shrinks_fields(3,4) [OF sh, of ino] n i(1) t(3,6) sh by (simp_all add: s2_def shrinks_def)
  have md: "i_mode (icache s2 ino) = i_mode (icache s ino)" by (simp add: s2_def t(3))
  have gt: "gas_truncate K s2 ino = s3"
    unfolding gas_truncate_def Let_def md s3_def using m by (simp only: if_False simp_thms)
  have n1: "i_nlink (icache s1 ino) = 0" using n t(3) by simp
  have e: "gas_evict_inode K s ino = gas_free_inode K s3 ino"
    unfolding gas_evict_inode_def Let_def s1_def [symmetric] n1 if_P [OF refl] s2_def [symmetric] gt i3(2) ..
  have ok3: "vol_ok I s3" using sh by (simp add: shrinks_def)
  note fr = free_inode_vol [OF ok3 i3(1) i(2) _ Diff_subset [of I "{ino}"]]
  have lt: "ino < unat (s_ninodes (sbi s3))" using i(3) i3(3) by simp
  note ff = free_inode_frame [of s3 ino, OF vol_ok_simps(3,7) [OF ok3] _ vol_ok_simps(2) [OF ok3], unfolded i3(1), OF lt]
  show "vol_ok (I - {ino}) (gas_evict_inode K s ino)" unfolding e using fr(1) lt by blast
  have ub2: "used_blocks s2 = used_blocks s" "used_inodes s2 = used_inodes s" using c2(2,3) tv(2,3) by simp_all
  have sub: "tree_blocks s ino \<subseteq> used_blocks s" by (rule tree_blocks_used [OF ok ino])
  have "used_blocks s3 = used_blocks s - tree_blocks s ino"
    using sh te tree2 ub2 unfolding shrinks_def by simp
  then show "used_blocks (gas_evict_inode K s ino) = used_blocks s - tree_blocks s ino"
    unfolding e using fr(3) lt by simp
  have "used_inodes s3 = used_inodes s" using sh ub2 unfolding shrinks_def by simp
  then show "used_inodes (gas_evict_inode K s ino) = used_inodes s - {ino}" unfolding e using fr(2) lt by simp
  show "bmap (gas_evict_inode K s ino) k r = bmap s k r" if k: "k \<in> I - {ino}" and r: "node_path r" for k r
  proof -
    have "bmap s3 k r = bmap s2 k r" using sh k r unfolding shrinks_def by blast
    also have "\<dots> = bmap s k r" using c2(5) tv(1) by simp
    finally show ?thesis unfolding e using fr(5) [of k r] k r lt by simp
  qed
  show "icache (gas_evict_inode K s ino) k = icache s k \<and> pages (gas_evict_inode K s ino) k = pages s k" if k: "k \<noteq> ino" for k
  proof -
    have "icache s3 k = icache s2 k" "pages s3 k = pages s2 k" using sh k unfolding shrinks_def by blast+
    moreover have "pages s1 k = pages s k" using truncate_pages(2) [OF k] by (simp add: s1_def)
    ultimately show ?thesis unfolding e using ff(2,3) k t(3) by (simp add: s2_def)
  qed
  show "sbi (gas_evict_inode K s ino) = sbi s" unfolding e using ff(1) i3(3) by simp
  have u: "icache s3 ino = (icache s2 ino)\<lparr>i_mtime := i_mtime (icache s3 ino), i_ctime := i_ctime (icache s3 ino),
       i_dirty := i_dirty (icache s3 ino), blkaddr := blkaddr (icache s3 ino)\<rparr>" using sh unfolding shrinks_def by blast
  have "icache s2 ino = (icache s ino)\<lparr>i_size := 0\<rparr>" by (simp add: s2_def t(3))
  then show "icache (gas_evict_inode K s ino) ino = (icache s ino)\<lparr>i_size := 0,
      i_mtime := i_mtime (icache (gas_evict_inode K s ino) ino), i_ctime := i_ctime (icache (gas_evict_inode K s ino) ino),
      i_dirty := i_dirty (icache (gas_evict_inode K s ino) ino), blkaddr := blkaddr (icache (gas_evict_inode K s ino) ino)\<rparr>"
    unfolding e ff(2) using u by simp
qed

end

section \<open>Reference services\<close>

text \<open>
  A buffer layer that only looks up or creates the blocks it is asked for, and a page cache that
  forgets pages.
\<close>

definition ref_drop_pages :: "fs \<Rightarrow> nat \<Rightarrow> nat \<Rightarrow> fs" where
  "ref_drop_pages s ino from = s\<lparr>pages := (pages s)(ino := (\<lambda>n. if from div 4096 \<le> n then (\<lambda>_. 0) else pages s ino n))\<rparr>"

definition ref_call :: "bool \<Rightarrow> get_block_fn \<Rightarrow> fs \<Rightarrow> nat \<Rightarrow> nat \<Rightarrow> (err \<times> fs) option" where
  "ref_call create gb s ino n = (case gb s ino (word_of_nat n) create of None \<Rightarrow> None | Some (e, m, s') \<Rightarrow> Some (e, s'))"

definition ref_bmap :: "get_block_fn \<Rightarrow> fs \<Rightarrow> nat \<Rightarrow> u64 \<Rightarrow> nat" where
  "ref_bmap gb s ino b = (case gb s ino b False of Some (_, Some (n, _), _) \<Rightarrow> n | _ \<Rightarrow> 0)"

definition ref_write_end :: "fs \<Rightarrow> nat \<Rightarrow> nat \<Rightarrow> nat \<Rightarrow> nat \<Rightarrow> int \<times> fs" where
  "ref_write_end s ino pos len copied =
     (int copied, upd_inode ino (\<lambda>i. i\<lparr>i_size := max (i_size i) (pos + copied), i_dirty := True\<rparr>) s)"

definition ref_page_fields where
  "ref_page_fields = page_services.fields ref_drop_pages ref_drop_pages (\<lambda>gb s ino n. ref_call True gb s ino n)
     (\<lambda>gb s ino. Some (None, s)) (\<lambda>gb s ino n. ref_call False gb s ino n) (\<lambda>gb s ino ns. Some (None, s))
     (\<lambda>gb rw s ino iov off. Some (0, s)) (\<lambda>gb s ino pos len. ref_call True gb s ino (pos div 4096)) ref_write_end ref_bmap"

definition ref_page_services :: page_services where
  "ref_page_services = itree_services.extend ref_tree_services ref_page_fields"

lemma ref_page_services_simps [simp]:
  "find_first_zero_bit ref_page_services = find_first_zero_bit makefs_bitops"
  "bit_set ref_page_services = bit_set makefs_bitops"
  "test_and_clear_bit ref_page_services = test_and_clear_bit makefs_bitops"
  "hweight16 ref_page_services = hweight16 makefs_bitops"
  "sb_bread ref_page_services bf n = Some (bf n)"
  "iget_locked ref_page_services s n = Iget_new (ref_fresh_inode n)"
  "new_decode_dev ref_page_services = ref_decode_dev" "new_encode_dev ref_page_services = ref_encode_dev"
  "init_special_inode ref_page_services = ref_special_inode"
  "new_inode ref_page_services s = Some (ref_fresh_inode 0)"
  "inode_init_owner ref_page_services = (\<lambda>i d m. i\<lparr>i_mode := m, i_uid := i_uid d, i_gid := i_gid d\<rparr>)"
  "block_truncate_page ref_page_services = ref_truncate_page"
  "truncate_inode_pages ref_page_services = ref_drop_pages"
  "truncate_pagecache ref_page_services = ref_drop_pages"
  "block_write_full_page ref_page_services = ref_call True"
  "mpage_writepages ref_page_services gb s ino = Some (None, s)"
  "mpage_readpage ref_page_services = ref_call False"
  "mpage_readpages ref_page_services gb s ino ns = Some (None, s)"
  "blockdev_direct_IO ref_page_services gb rw s ino iov off = Some (0, s)"
  "block_write_begin ref_page_services gb s ino pos len = ref_call True gb s ino (pos div 4096)"
  "generic_write_end ref_page_services = ref_write_end"
  "generic_block_bmap ref_page_services = ref_bmap"
  by (simp_all add: ref_page_services_def ref_page_fields_def ref_tree_services_def ref_alloc_services_def
      ref_inode_services_def bitops.extend_def inode_services.extend_def alloc_services.extend_def
      itree_services.extend_def inode_services.fields_def alloc_services.fields_def itree_services.fields_def
      page_services.fields_def fun_eq_iff)

lemma ref_call_buffer: "ref_call c gb s ino n = Some (e, s') \<Longrightarrow> buffer_calls gb ino s s'"
  by (auto simp: ref_call_def split: option.splits intro: call_get_block [OF _ done_calls])

lemma ref_call_total:
  assumes "\<And>s' b c. buffer_calls gb ino s s' \<Longrightarrow> gb s' ino b c \<noteq> None"
  shows "ref_call True gb s ino n \<noteq> None"
  using assms [OF done_calls, of "word_of_nat n" True] by (auto simp: ref_call_def)

lemma ref_write_end_shape:
  assumes "ref_write_end s ino pos len copied = (r, s')"
  shows "\<exists>sz p d. s' = upd_inode ino (\<lambda>i. i\<lparr>i_size := sz, i_dirty := d\<rparr>) (s\<lparr>pages := p, b_dirty := b_dirty s'\<rparr>) \<and>
    sz \<in> {i_size (icache s ino), pos + copied} \<and> (\<forall>i. i \<noteq> ino \<longrightarrow> p i = pages s i)"
proof (intro exI conjI)
  have s': "s' = upd_inode ino (\<lambda>i. i\<lparr>i_size := max (i_size i) (pos + copied), i_dirty := True\<rparr>) s"
    using assms by (simp add: ref_write_end_def)
  show "s' = upd_inode ino (\<lambda>i. i\<lparr>i_size := max (i_size (icache s ino)) (pos + copied), i_dirty := True\<rparr>)
      (s\<lparr>pages := pages s, b_dirty := b_dirty s'\<rparr>)"
    by (simp add: s' upd_inode_def)
qed (auto simp: max_def)

interpretation ref_pages: page_cache ref_page_services
proof unfold_locales
  show "block_write_begin ref_page_services gb s ino pos len \<noteq> None"
    if "\<And>s' b c. buffer_calls gb ino s s' \<Longrightarrow> gb s' ino b c \<noteq> None" for gb s ino pos len
    unfolding ref_page_services_simps by (rule ref_call_total) (rule that)
  show "\<exists>sz p d. s' = upd_inode ino (\<lambda>i. i\<lparr>i_size := sz, i_dirty := d\<rparr>) (s\<lparr>pages := p, b_dirty := b_dirty s'\<rparr>) \<and>
      sz \<in> {i_size (icache s ino), pos + copied} \<and> (\<forall>i. i \<noteq> ino \<longrightarrow> p i = pages s i)"
    if "generic_write_end ref_page_services s ino pos len copied = (r, s')" for s ino pos len copied r s'
    using ref_write_end_shape that by simp
qed (auto simp: makefs.ffzb makefs.bit_set makefs.test_and_clear_old makefs.test_and_clear_new makefs.hweight
      ref_decode_encode ref_special_inode_def ref_fresh_inode_def ref_truncate_page_def set_page_def
      ref_drop_pages_def done_calls ref_bmap_def dest: ref_call_buffer)

section \<open>The address space operations as a table\<close>

text \<open>
  \<^verbatim>\<open>gas_a_ops\<close> of \<^verbatim>\<open>src/kern/def.c\<close>: the calls the VFS makes on the pages of a file, each with the function
  the table names for it. \<open>Aop_undefined\<close> is a call that has no defined result.
\<close>

datatype aop =
    Writepage nat
  | Writepages
  | Readpage nat
  | Readpages "nat list"
  | Write_begin nat nat
  | Write_end nat nat nat
  | Bmap u64
  | Direct_IO bool "byte list list" nat

datatype aop_reply =
    Aop_undefined
  | Aop_done err fs
  | Aop_count int fs
  | Aop_block nat

fun aop_done :: "(err \<times> fs) option \<Rightarrow> aop_reply" where
  "aop_done None = Aop_undefined"
| "aop_done (Some (e, s)) = Aop_done e s"

fun aop_count :: "(int \<times> fs) option \<Rightarrow> aop_reply" where
  "aop_count None = Aop_undefined"
| "aop_count (Some (r, s)) = Aop_count r s"

fun gas_a_ops :: "'k page_services_scheme \<Rightarrow> fs \<Rightarrow> nat \<Rightarrow> aop \<Rightarrow> aop_reply" where
  "gas_a_ops K s ino (Readpage page) = aop_done (gas_readpage K s ino page)"
| "gas_a_ops K s ino (Readpages pgs) = aop_done (gas_readpages K s ino pgs)"
| "gas_a_ops K s ino (Writepage page) = aop_done (gas_writepage K s ino page)"
| "gas_a_ops K s ino Writepages = aop_done (gas_writepages K s ino)"
| "gas_a_ops K s ino (Write_begin pos len) = aop_done (gas_write_begin K s ino pos len)"
| "gas_a_ops K s ino (Write_end pos len copied) = aop_count (Some (gas_write_end K s ino pos len copied))"
| "gas_a_ops K s ino (Bmap blk) = Aop_block (gas_bmap K s ino blk)"
| "gas_a_ops K s ino (Direct_IO rw iov off) = aop_count (gas_direct_io K rw s ino iov off)"

text \<open>
  What a routine of the VFS can do to a file that works through such a table: call operations, fill pages,
  mark the inode dirty.
\<close>

inductive aop_calls :: "(fs \<Rightarrow> nat \<Rightarrow> aop \<Rightarrow> aop_reply) \<Rightarrow> nat \<Rightarrow> fs \<Rightarrow> fs \<Rightarrow> bool" for ops ino where
  no_call: "aop_calls ops ino s s"
| call_done: "ops s ino a = Aop_done e s1 \<Longrightarrow> aop_calls ops ino s1 s2 \<Longrightarrow> aop_calls ops ino s s2"
| call_count: "ops s ino a = Aop_count r s1 \<Longrightarrow> aop_calls ops ino s1 s2 \<Longrightarrow> aop_calls ops ino s s2"
| fill: "(\<And>i. i \<noteq> ino \<Longrightarrow> p i = pages s i) \<Longrightarrow> aop_calls ops ino (mark_inode_dirty ino (s\<lparr>pages := p, b_dirty := d\<rparr>)) s2 \<Longrightarrow>
    aop_calls ops ino s s2"

lemma aop_reply_iff [simp]:
  "aop_done r = Aop_done e s \<longleftrightarrow> r = Some (e, s)" "aop_done r \<noteq> Aop_count n s" "aop_done r \<noteq> Aop_block k"
  "aop_done r = Aop_undefined \<longleftrightarrow> r = None"
  by (cases r rule: aop_done.cases; simp)+

lemma aop_count_iff [simp]:
  "aop_count c = Aop_count n s \<longleftrightarrow> c = Some (n, s)" "aop_count c \<noteq> Aop_done e s" "aop_count c \<noteq> Aop_block k"
  "aop_count c = Aop_undefined \<longleftrightarrow> c = None"
  by (cases c rule: aop_count.cases; simp)+

context page_cache
begin

text \<open>Every operation of the table works on its file alone.\<close>

lemma a_ops_local:
  assumes ok: "vol_ok I s" and ino: "ino \<in> I" and read: "\<And>bf n. sb_bread K bf n \<noteq> None"
  shows "gas_a_ops K s ino a = Aop_done e s' \<Longrightarrow> local_op I ino s s'" "gas_a_ops K s ino a = Aop_count r s' \<Longrightarrow> local_op I ino s s'"
    "gas_a_ops K s ino (Write_begin pos len) \<noteq> Aop_undefined" "gas_a_ops K s ino (Write_end pos len copied) \<noteq> Aop_undefined"
proof -
  have calls: "local_op I ino s t" if "buffer_calls (gas_get_block K) ino s t" for t
    using buffer_calls_local [OF that ok ino] by blast
  have wb: "local_op I ino s t" if "gas_write_begin K s ino pos len = Some (e, t)" for pos len e t
    using write_begin_local [OF ok ino read, of pos len] that by auto
  show "gas_a_ops K s ino a = Aop_done e s' \<Longrightarrow> local_op I ino s s'"
    by (cases a) (simp_all add: gas_readpage_def gas_readpages_def gas_writepage_def gas_writepages_def
        calls [OF readpage] calls [OF readpages] calls [OF write_page] calls [OF write_pages] wb)
  show "gas_a_ops K s ino a = Aop_count r s' \<Longrightarrow> local_op I ino s s'"
    by (cases a) (simp_all add: gas_direct_io_def calls [OF direct] write_end_local [OF ok ino read])
  show "gas_a_ops K s ino (Write_begin pos len) \<noteq> Aop_undefined" using write_begin_local [OF ok ino read, of pos len] by auto
  show "gas_a_ops K s ino (Write_end pos len copied) \<noteq> Aop_undefined" by simp
qed

lemma aop_calls_local:
  assumes "aop_calls (gas_a_ops K) ino s s'" and "vol_ok I s" and "ino \<in> I" and read: "\<And>bf n. sb_bread K bf n \<noteq> None"
  shows "local_op I ino s s'"
  using assms(1-3)
proof (induction rule: aop_calls.induct)
  case (no_call s)
  then show ?case by (simp add: local_op_refl)
next
  case (call_done s a e s1 s2)
  have l: "local_op I ino s s1" by (rule a_ops_local(1) [OF call_done.prems read call_done.hyps(1)])
  show ?case using call_done.IH [OF local_op_ok [OF l] call_done.prems(2)] local_op_trans [OF l] by blast
next
  case (call_count s a r s1 s2)
  have l: "local_op I ino s s1" by (rule a_ops_local(2) [OF call_count.prems read call_count.hyps(1)])
  show ?case using call_count.IH [OF local_op_ok [OF l] call_count.prems(2)] local_op_trans [OF l] by blast
next
  case (fill p s d s2)
  have l: "local_op I ino s (mark_inode_dirty ino (s\<lparr>pages := p, b_dirty := d\<rparr>))"
    by (rule local_op_inode [OF fill.prems(1)]) (use fill.hyps(1) in simp_all)
  show ?case using fill.IH [OF local_op_ok [OF l] fill.prems(2)] local_op_trans [OF l] by blast
qed

end

end
