(* ===== verification/Gas_Dentry.thy ===== *)
theory Gas_Dentry
  imports Gas_State
begin

text \<open>
  C strings and the directory entry of \<^verbatim>\<open>src/kern/gas.h\<close>: 256 bytes of name followed by a
  little-endian inode number. The kernel module and the file system maker write the same entry; a
  directory page holds 15 of them.

  A name is the list of its bytes before the terminating NUL.
\<close>

section \<open>String functions\<close>

text \<open>The bytes of a string at \<open>p\<close>, of at most \<open>n\<close> bytes.\<close>

fun cstr :: "block \<Rightarrow> nat \<Rightarrow> nat \<Rightarrow> byte list" where
  "cstr b p 0 = []"
| "cstr b p (Suc n) = (if b p = 0 then [] else b p # cstr b (p + 1) n)"

text \<open>\<open>strlen\<close> on memory that ends \<open>n\<close> bytes after \<open>p\<close>: no result when it would run past the end.\<close>

fun strlen :: "block \<Rightarrow> nat \<Rightarrow> nat \<Rightarrow> nat option" where
  "strlen b p 0 = None"
| "strlen b p (Suc n) = (if b p = 0 then Some 0 else map_option Suc (strlen b (p + 1) n))"

text \<open>\<open>strncmp(b + p, name, n) == 0\<close>\<close>

definition strncmp_eq :: "block \<Rightarrow> nat \<Rightarrow> byte list \<Rightarrow> nat \<Rightarrow> bool" where
  "strncmp_eq b p name n \<longleftrightarrow> cstr b p n = take n name"

definition strncpy :: "block \<Rightarrow> nat \<Rightarrow> byte list \<Rightarrow> nat \<Rightarrow> block" where
  "strncpy b p name n = (\<lambda>q. if p \<le> q \<and> q < p + n then (if q - p < length name then name ! (q - p) else 0) else b q)"

definition strcpy :: "block \<Rightarrow> nat \<Rightarrow> byte list \<Rightarrow> block" where
  "strcpy b p name = strncpy b p name (length name + 1)"

definition name_ok :: "byte list \<Rightarrow> bool" where
  "name_ok name \<longleftrightarrow> name \<noteq> [] \<and> 0 \<notin> set name \<and> length name < GAS_MAX_NAME_LEN"

lemma length_cstr: "length (cstr b p n) \<le> n"
  by (induction b p n rule: cstr.induct) auto

lemma cstr_no_nul: "0 \<notin> set (cstr b p n)"
  by (induction b p n rule: cstr.induct) auto

lemma cstr_cong: "(\<And>q. p \<le> q \<Longrightarrow> q < p + n \<Longrightarrow> b q = c q) \<Longrightarrow> cstr b p n = cstr c p n"
proof (induction n arbitrary: p)
  case (Suc n)
  have "b p = c p" using Suc.prems by simp
  moreover have "cstr b (p + 1) n = cstr c (p + 1) n" by (rule Suc.IH) (use Suc.prems in auto)
  ultimately show ?case by simp
qed simp

lemma cstr_mono: "length (cstr b p n) < n \<Longrightarrow> n \<le> m \<Longrightarrow> cstr b p m = cstr b p n"
proof (induction n arbitrary: p m)
  case (Suc n)
  then obtain k where m: "m = Suc k" by (cases m) auto
  show ?case
  proof (cases "b p = 0")
    case False
    then have "cstr b (p + 1) k = cstr b (p + 1) n" using Suc.prems m by (intro Suc.IH) simp_all
    then show ?thesis using m by simp
  qed (simp add: m)
qed simp

lemma cstr_take: "m \<le> n \<Longrightarrow> cstr b p m = take m (cstr b p n)"
proof (induction m arbitrary: p n)
  case (Suc m)
  then show ?case by (cases n) auto
qed simp

lemma strlen_cstr: "length (cstr b p n) < n \<Longrightarrow> strlen b p n = Some (length (cstr b p n))"
  by (induction b p n rule: cstr.induct) auto

lemma map_cstr: "map b [p..<p + length (cstr b p n)] = cstr b p n"
proof (induction b p n rule: cstr.induct)
  case (2 b p n)
  show ?case
  proof (cases "b p = 0")
    case False
    have "[p..<p + Suc m] = p # [Suc p..<Suc p + m]" for m
      by (subst upt_conv_Cons) simp_all
    from this [of "length (cstr b (p + 1) n)"] show ?thesis using 2 False by simp
  qed simp
qed simp

lemma cstr_of_name:
  assumes "0 \<notin> set name" and "length name < n" and "\<And>i. i < length name \<Longrightarrow> b (p + i) = name ! i" and "b (p + length name) = 0"
  shows "cstr b p n = name"
  using assms
proof (induction name arbitrary: p n)
  case Nil
  then show ?case by (cases n) auto
next
  case (Cons x name)
  then obtain m where n: "n = Suc m" by (cases n) auto
  have "b p = x" using Cons.prems(3) [of 0] by simp
  moreover have "cstr b (p + 1) m = name"
  proof (rule Cons.IH)
    show "b (p + 1 + i) = name ! i" if "i < length name" for i using Cons.prems(3) [of "Suc i"] that by simp
    show "b (p + 1 + length name) = 0" using Cons.prems(4) by simp
  qed (use Cons.prems n in auto)
  ultimately show ?case using Cons.prems(1) n by auto
qed

section \<open>Directory entries\<close>

record gas_dir_entry =
  de_name :: "byte list"
  de_inode :: u32

definition load_dentry :: "block \<Rightarrow> nat \<Rightarrow> gas_dir_entry" where
  "load_dentry b p = \<lparr>de_name = cstr b p GAS_MAX_NAME_LEN, de_inode = get_le32 b (p + 256)\<rparr>"

text \<open>
  \<open>strncpy(de->de_name, name, GAS_MAX_NAME_LEN - 1); de->de_name[GAS_MAX_NAME_LEN - 1] = 0;\<close> and the
  store of the inode number.
\<close>

definition store_dentry :: "block \<Rightarrow> nat \<Rightarrow> gas_dir_entry \<Rightarrow> block" where
  "store_dentry b p de = put_le32 ((strncpy b p (de_name de) (GAS_MAX_NAME_LEN - 1))(p + (GAS_MAX_NAME_LEN - 1) := 0))
     (p + 256) (de_inode de)"

definition dentry_ok :: "gas_dir_entry \<Rightarrow> bool" where
  "dentry_ok de \<longleftrightarrow> 0 \<notin> set (de_name de) \<and> length (de_name de) < GAS_MAX_NAME_LEN"

interpretation dentry: stored_struct store_dentry load_dentry GAS_DIR_ENTRY_SIZE dentry_ok
proof
  show "load_dentry (store_dentry b p x) p = x" if "dentry_ok x" for b p x
  proof -
    have "cstr (store_dentry b p x) p 256 = de_name x"
      by (rule cstr_of_name) (use that in \<open>auto simp: dentry_ok_def store_dentry_def strncpy_def\<close>)
    then show ?thesis by (simp add: load_dentry_def) (simp add: store_dentry_def)
  qed
  show "store_dentry b p x q = b q" if "q < p \<or> p + GAS_DIR_ENTRY_SIZE \<le> q" for b p x q
    using that by (auto simp: store_dentry_def strncpy_def)
  show "load_dentry b p = load_dentry c p" if "\<And>q. p \<le> q \<Longrightarrow> q < p + GAS_DIR_ENTRY_SIZE \<Longrightarrow> b q = c q" for b c p
    using that by (auto simp: load_dentry_def intro!: cstr_cong get_le32_eqI)
qed

text \<open>Writing only the inode number leaves the name.\<close>

lemma load_dentry_put_inode:
  "load_dentry (put_le32 b (p + 256) v) p = (load_dentry b p)\<lparr>de_inode := v\<rparr>"
  by (auto simp: load_dentry_def intro: cstr_cong)

lemma load_dentry_put_inode_other:
  assumes "i \<noteq> j"
  shows "load_dentry (put_le32 b (260 * i + 256) v) (260 * j) = load_dentry b (260 * j)"
proof (rule dentry.load_cong)
  fix q
  assume "260 * j \<le> q" "q < 260 * j + GAS_DIR_ENTRY_SIZE"
  then show "put_le32 b (260 * i + 256) v q = b q"
    using dentry.slots_disjoint [OF assms, of 0] by (intro put_le32_frame) linarith
qed

end
