(* ===== verification/Gas_Dir.thy ===== *)
theory Gas_Dir
  imports Gas_Page Gas_Dentry
begin

text \<open>
  Directories (\<^verbatim>\<open>src/kern/gas_dir.c\<close>): a directory is a file of 260-byte entries, 15 to a page. A
  pointer to an entry is given by the page index and the offset in the page.

  A result of type \<open>option\<close> is \<open>None\<close> when the C code has no defined result, here when it reads an
  entry beyond the end of its page.
\<close>

section \<open>Kernel services\<close>

text \<open>
  Pages are pinned, locked and mapped around every access; with one call at a time this leaves no
  trace. \<open>read_mapping_page\<close> and \<open>grab_cache_page\<close> make a page present or fail;
  \<open>block_write_begin_page\<close> stands for \<open>__block_write_begin\<close>, \<open>block_write_end\<close> and \<open>write_one_page\<close>
  mark buffers or write them.
\<close>

record dir_services = page_services +
  read_mapping_page :: "fs \<Rightarrow> nat \<Rightarrow> nat \<Rightarrow> errno + fs"
  grab_cache_page :: "fs \<Rightarrow> nat \<Rightarrow> nat \<Rightarrow> fs option"
  block_write_begin_page :: "get_block_fn \<Rightarrow> fs \<Rightarrow> nat \<Rightarrow> nat \<Rightarrow> nat \<Rightarrow> nat \<Rightarrow> (err \<times> fs) option"
  block_write_end :: "fs \<Rightarrow> nat \<Rightarrow> nat \<Rightarrow> nat \<Rightarrow> nat \<Rightarrow> fs"
  write_one_page :: "fs \<Rightarrow> nat \<Rightarrow> nat \<Rightarrow> err \<times> fs"
  is_dirsync :: "fs \<Rightarrow> nat \<Rightarrow> bool"

section \<open>Pages and positions\<close>

definition gas_dir_pages :: "inode \<Rightarrow> nat" where
  "gas_dir_pages i = drop_bit PAGE_CACHE_SHIFT (i_size i + PAGE_CACHE_SIZE - 1)"

definition gas_dir_entry_page :: "nat \<Rightarrow> nat" where
  "gas_dir_entry_page pos = drop_bit PAGE_CACHE_SHIFT pos"

definition gas_dir_entry_offset :: "nat \<Rightarrow> nat" where
  "gas_dir_entry_offset pos = pos AND (PAGE_CACHE_SIZE - 1)"

definition gas_last_byte :: "inode \<Rightarrow> nat \<Rightarrow> nat" where
  "gas_last_byte i page_nr =
     (if page_nr = drop_bit PAGE_CACHE_SHIFT (i_size i) then i_size i AND (PAGE_CACHE_SIZE - 1) else PAGE_CACHE_SIZE)"

text \<open>The offsets visited by \<open>for (p = kaddr; p <= limit; p += sizeof)\<close>, \<open>limit\<close> one entry before
  \<open>last\<close>.\<close>

definition page_slots :: "nat \<Rightarrow> nat list" where
  "page_slots lst = map (\<lambda>k. GAS_DIR_ENTRY_SIZE * k) [0..<lst div GAS_DIR_ENTRY_SIZE]"

definition page_offset :: "nat \<Rightarrow> nat" where
  "page_offset n = PAGE_CACHE_SIZE * n"

section \<open>Chunks of a directory page\<close>

definition gas_dir_prepare_chunk :: "'k dir_services_scheme \<Rightarrow> fs \<Rightarrow> nat \<Rightarrow> nat \<Rightarrow> nat \<Rightarrow> nat \<Rightarrow> (err \<times> fs) option" where
  "gas_dir_prepare_chunk K s dir page pos len = block_write_begin_page K (gas_get_block K) s dir page pos len"

definition gas_dir_commit_chunk :: "'k dir_services_scheme \<Rightarrow> fs \<Rightarrow> nat \<Rightarrow> nat \<Rightarrow> nat \<Rightarrow> nat \<Rightarrow> err \<times> fs" where
  "gas_dir_commit_chunk K s dir page pos len =
     (let s = block_write_end K s dir page pos len;
          s = (if i_size (icache s dir) < pos + len
               then mark_inode_dirty dir (upd_inode dir (\<lambda>i. i\<lparr>i_size := pos + len\<rparr>) s) else s)
      in if is_dirsync K s dir then write_one_page K s dir page else (None, s))"

definition gas_dir_get_page :: "'k dir_services_scheme \<Rightarrow> fs \<Rightarrow> nat \<Rightarrow> nat \<Rightarrow> errno + fs" where
  "gas_dir_get_page K s dir n = read_mapping_page K s dir n"

section \<open>Iterating over a directory\<close>

text \<open>
  \<open>struct dir_context\<close>: the actor, which gets name, length, position, inode number and type and
  returns an \<open>int\<close>, the position, and the data of the structure the context is embedded in.
\<close>

record 'c dir_context =
  actor :: "'c \<Rightarrow> byte list \<Rightarrow> nat \<Rightarrow> nat \<Rightarrow> nat \<Rightarrow> nat \<Rightarrow> int \<times> 'c"
  ctx_pos :: nat
  ctx_data :: 'c

abbreviation (input) DT_UNKNOWN :: nat where "DT_UNKNOWN \<equiv> 0"

definition dir_emit :: "'c dir_context \<Rightarrow> byte list \<Rightarrow> nat \<Rightarrow> nat \<Rightarrow> nat \<Rightarrow> bool \<times> 'c dir_context" where
  "dir_emit ctx name len ino type =
     (let (r, d) = actor ctx (ctx_data ctx) name len (ctx_pos ctx) ino type in (r = 0, ctx\<lparr>ctx_data := d\<rparr>))"

text \<open>The entry at offset \<open>off\<close> of page data \<open>b\<close>.\<close>

definition gas_dir_emit :: "'c dir_context \<Rightarrow> block \<Rightarrow> nat \<Rightarrow> (bool \<times> 'c dir_context) option" where
  "gas_dir_emit ctx b off =
     (case strlen b off (PAGE_CACHE_SIZE - off) of
        None \<Rightarrow> None
      | Some len \<Rightarrow>
          if PAGE_CACHE_SIZE < off + GAS_DIR_ENTRY_SIZE then None
          else let ino = unat (get_le32 b (off + 256))
               in if ino = 0 then Some (True, ctx)
                  else Some (dir_emit ctx (map b [off..<off + len]) len ino DT_UNKNOWN))"

text \<open>The \<open>while\<close> loop over one page; the result says whether the actor stopped it.\<close>

function iterate_page :: "block \<Rightarrow> nat \<Rightarrow> nat \<Rightarrow> 'c dir_context \<Rightarrow> (bool \<times> 'c dir_context) option" where
  "iterate_page b sz off ctx =
     (if off < PAGE_CACHE_SIZE \<and> ctx_pos ctx < sz
      then case gas_dir_emit ctx b off of
             None \<Rightarrow> None
           | Some (False, ctx) \<Rightarrow> Some (True, ctx)
           | Some (True, ctx) \<Rightarrow>
               iterate_page b sz (off + GAS_DIR_ENTRY_SIZE) (ctx\<lparr>ctx_pos := ctx_pos ctx + GAS_DIR_ENTRY_SIZE\<rparr>)
      else Some (False, ctx))"
  by pat_completeness auto
termination by (relation "measure (\<lambda>(b, sz, off, ctx). 4096 - off)") auto

declare iterate_page.simps [simp del]

fun iterate_pages :: "'k dir_services_scheme \<Rightarrow> nat list \<Rightarrow> nat \<Rightarrow> fs \<Rightarrow> nat \<Rightarrow> 'c dir_context \<Rightarrow> (err \<times> 'c dir_context \<times> fs) option" where
  "iterate_pages K [] off s dir ctx = Some (None, ctx, s)"
| "iterate_pages K (pidx # ps) off s dir ctx =
     (case gas_dir_get_page K s dir pidx of
        Inl e \<Rightarrow> Some (Some e, ctx, s)
      | Inr s \<Rightarrow>
          (case iterate_page (pages s dir pidx) (i_size (icache s dir)) off ctx of
             None \<Rightarrow> None
           | Some (True, ctx) \<Rightarrow> Some (None, ctx, s)
           | Some (False, ctx) \<Rightarrow> iterate_pages K ps 0 s dir ctx))"

definition gas_iterate :: "'k dir_services_scheme \<Rightarrow> fs \<Rightarrow> nat \<Rightarrow> 'c dir_context \<Rightarrow> (err \<times> 'c dir_context \<times> fs) option" where
  "gas_iterate K s dir ctx =
     (let npages = gas_dir_pages (icache s dir); pidx = gas_dir_entry_page (ctx_pos ctx);
          off = gas_dir_entry_offset (ctx_pos ctx)
      in iterate_pages K [pidx..<npages] off s dir ctx)"

definition gas_readdir :: "'k dir_services_scheme \<Rightarrow> fs \<Rightarrow> nat \<Rightarrow> 'c dir_context \<Rightarrow> (err \<times> 'c dir_context \<times> fs) option" where
  "gas_readdir K s dir ctx = gas_iterate K s dir ctx"

record gas_filename_match =
  match_ino :: nat
  match_name :: "byte list"
  match_len :: nat

definition gas_match :: "gas_filename_match \<Rightarrow> byte list \<Rightarrow> nat \<Rightarrow> nat \<Rightarrow> nat \<Rightarrow> nat \<Rightarrow> int \<times> gas_filename_match" where
  "gas_match mt name len off ino type =
     (if len \<noteq> match_len mt then (0, mt)
      else if take len (match_name mt) = take len name then (1, mt\<lparr>match_ino := ino\<rparr>) else (0, mt))"

definition gas_inode_by_name :: "'k dir_services_scheme \<Rightarrow> fs \<Rightarrow> nat \<Rightarrow> byte list \<Rightarrow> (nat \<times> fs) option" where
  "gas_inode_by_name K s dir child =
     (let ctx = \<lparr>actor = gas_match, ctx_pos = 0,
            ctx_data = \<lparr>match_ino = 0, match_name = child, match_len = length child\<rparr>\<rparr>
      in map_option (\<lambda>(err, ctx, s). (match_ino (ctx_data ctx), s)) (gas_iterate K s dir ctx))"

section \<open>Adding, finding and deleting entries\<close>

text \<open>The scan of one page by \<^verbatim>\<open>gas_add_link\<close>: \<open>At_end\<close> is the entry at the end of the directory.\<close>

datatype scan = At_end nat | At_free nat | Exists | Page_full

fun add_scan :: "block \<Rightarrow> nat \<Rightarrow> byte list \<Rightarrow> nat list \<Rightarrow> scan" where
  "add_scan b dir_end name [] = Page_full"
| "add_scan b dir_end name (p # ps) =
     (if p = dir_end then At_end p
      else if get_le32 b (p + 256) = 0 then At_free p
      else if strncmp_eq b p name (GAS_MAX_NAME_LEN - 1) then Exists
      else add_scan b dir_end name ps)"

text \<open>From label \<open>got_it\<close> on.\<close>

definition add_got_it :: "'k dir_services_scheme \<Rightarrow> fs \<Rightarrow> nat \<Rightarrow> nat \<Rightarrow> nat \<Rightarrow> byte list \<Rightarrow> nat \<Rightarrow> (err \<times> fs) option" where
  "add_got_it K s dir n p name inode =
     (let pos = page_offset n + p
      in case gas_dir_prepare_chunk K s dir n pos GAS_DIR_ENTRY_SIZE of
           None \<Rightarrow> None
         | Some (Some e, s) \<Rightarrow> Some (Some e, s)
         | Some (None, s) \<Rightarrow>
             let ino = word_of_nat (i_ino (icache s inode));
                 s = set_page dir n (store_dentry (pages s dir n) p \<lparr>de_name = name, de_inode = ino\<rparr>) s;
                 (err, s) = gas_dir_commit_chunk K s dir n pos GAS_DIR_ENTRY_SIZE;
                 now = current_time_sec K;
                 s = mark_inode_dirty dir (upd_inode dir (\<lambda>i. i\<lparr>i_mtime := now, i_ctime := now\<rparr>) s)
             in Some (err, s))"

fun add_link_pages :: "'k dir_services_scheme \<Rightarrow> nat list \<Rightarrow> fs \<Rightarrow> nat \<Rightarrow> byte list \<Rightarrow> nat \<Rightarrow> (err \<times> fs) option" where
  "add_link_pages K [] s dir name inode = Some (Some EINVAL, s)"
| "add_link_pages K (n # ns) s dir name inode =
     (case gas_dir_get_page K s dir n of
        Inl e \<Rightarrow> Some (Some e, s)
      | Inr s \<Rightarrow>
          let dir_end = gas_last_byte (icache s dir) n
          in case add_scan (pages s dir n) dir_end name (page_slots PAGE_CACHE_SIZE) of
               At_end p \<Rightarrow> add_got_it K (set_page dir n (put_le32 (pages s dir n) (p + 256) 0) s) dir n p name inode
             | At_free p \<Rightarrow> add_got_it K s dir n p name inode
             | Exists \<Rightarrow> Some (Some EEXIST, s)
             | Page_full \<Rightarrow> add_link_pages K ns s dir name inode)"

definition gas_add_link :: "'k dir_services_scheme \<Rightarrow> fs \<Rightarrow> nat \<Rightarrow> byte list \<Rightarrow> nat \<Rightarrow> (err \<times> fs) option" where
  "gas_add_link K s dir name inode =
     (let npages = gas_dir_pages (icache s dir) in add_link_pages K [0..<npages + 1] s dir name inode)"

definition dot :: "byte list" where "dot = [46]"
definition dotdot :: "byte list" where "dotdot = [46, 46]"

definition gas_make_empty :: "'k dir_services_scheme \<Rightarrow> fs \<Rightarrow> nat \<Rightarrow> nat \<Rightarrow> (err \<times> fs) option" where
  "gas_make_empty K s inode dir =
     (case grab_cache_page K s inode 0 of
        None \<Rightarrow> Some (Some ENOMEM, s)
      | Some s \<Rightarrow>
          (case gas_dir_prepare_chunk K s inode 0 0 (2 * GAS_DIR_ENTRY_SIZE) of
             None \<Rightarrow> None
           | Some (Some e, s) \<Rightarrow> Some (Some e, s)
           | Some (None, s) \<Rightarrow>
               let b = memset (pages s inode 0) 0 PAGE_CACHE_SIZE;
                   b = put_le32 b 256 (word_of_nat (i_ino (icache s inode)));
                   b = strcpy b 0 dot;
                   b = put_le32 b (GAS_DIR_ENTRY_SIZE + 256) (word_of_nat (i_ino (icache s dir)));
                   b = strcpy b GAS_DIR_ENTRY_SIZE dotdot;
                   s = set_page inode 0 b s
               in Some (gas_dir_commit_chunk K s inode 0 0 (2 * GAS_DIR_ENTRY_SIZE))))"

definition find_in_page :: "block \<Rightarrow> nat \<Rightarrow> byte list \<Rightarrow> nat option" where
  "find_in_page b lst name =
     find (\<lambda>p. get_le32 b (p + 256) \<noteq> 0 \<and> strncmp_eq b p name GAS_MAX_NAME_LEN) (page_slots lst)"

fun find_pages :: "'k dir_services_scheme \<Rightarrow> nat list \<Rightarrow> fs \<Rightarrow> nat \<Rightarrow> byte list \<Rightarrow> (nat \<times> nat) option \<times> fs" where
  "find_pages K [] s dir name = (None, s)"
| "find_pages K (n # ns) s dir name =
     (case gas_dir_get_page K s dir n of
        Inl e \<Rightarrow> find_pages K ns s dir name
      | Inr s \<Rightarrow>
          (case find_in_page (pages s dir n) (gas_last_byte (icache s dir) n) name of
             None \<Rightarrow> find_pages K ns s dir name
           | Some p \<Rightarrow> (Some (n, p), s)))"

text \<open>The result is the entry: page index and offset.\<close>

definition gas_find_entry :: "'k dir_services_scheme \<Rightarrow> fs \<Rightarrow> nat \<Rightarrow> byte list \<Rightarrow> (nat \<times> nat) option \<times> fs" where
  "gas_find_entry K s dir name = find_pages K [0..<gas_dir_pages (icache s dir)] s dir name"

definition touch_dir :: "'k dir_services_scheme \<Rightarrow> nat \<Rightarrow> fs \<Rightarrow> fs" where
  "touch_dir K dir s =
     (let now = current_time_sec K
      in mark_inode_dirty dir (upd_inode dir (\<lambda>i. i\<lparr>i_mtime := now, i_ctime := now\<rparr>) s))"

definition gas_delete_entry :: "'k dir_services_scheme \<Rightarrow> fs \<Rightarrow> nat \<Rightarrow> nat \<times> nat \<Rightarrow> (err \<times> fs) option" where
  "gas_delete_entry K s dir de =
     (let (n, p) = de; pos = page_offset n + p
      in case gas_dir_prepare_chunk K s dir n pos GAS_DIR_ENTRY_SIZE of
           None \<Rightarrow> None
         | Some (Some e, s) \<Rightarrow> Some (Some e, touch_dir K dir s)
         | Some (None, s) \<Rightarrow>
             let s = set_page dir n (put_le32 (pages s dir n) (p + 256) 0) s;
                 (err, s) = gas_dir_commit_chunk K s dir n pos GAS_DIR_ENTRY_SIZE
             in Some (err, touch_dir K dir s))"

text \<open>An entry that makes a directory non-empty.\<close>

definition not_empty :: "block \<Rightarrow> nat \<Rightarrow> nat \<Rightarrow> bool" where
  "not_empty b i_no p \<longleftrightarrow> get_le32 b (p + 256) \<noteq> 0 \<and>
     (if b p \<noteq> 46 then True
      else if b (p + 1) = 0 then unat (get_le32 b (p + 256)) \<noteq> i_no
      else if b (p + 1) \<noteq> 46 then True
      else b (p + 2) \<noteq> 0)"

fun empty_pages :: "'k dir_services_scheme \<Rightarrow> nat list \<Rightarrow> fs \<Rightarrow> nat \<Rightarrow> bool \<times> fs" where
  "empty_pages K [] s dir = (True, s)"
| "empty_pages K (n # ns) s dir =
     (case gas_dir_get_page K s dir n of
        Inl e \<Rightarrow> empty_pages K ns s dir
      | Inr s \<Rightarrow>
          if \<exists>p\<in>set (page_slots (gas_last_byte (icache s dir) n)). not_empty (pages s dir n) (i_ino (icache s dir)) p
          then (False, s) else empty_pages K ns s dir)"

definition gas_empty_dir :: "'k dir_services_scheme \<Rightarrow> fs \<Rightarrow> nat \<Rightarrow> bool \<times> fs" where
  "gas_empty_dir K s dir = empty_pages K [0..<gas_dir_pages (icache s dir)] s dir"

text \<open>\<^verbatim>\<open>gas_set_link\<close> has the inode as a parameter and never stores its number.\<close>

definition gas_set_link :: "'k dir_services_scheme \<Rightarrow> fs \<Rightarrow> nat \<Rightarrow> nat \<times> nat \<Rightarrow> nat \<Rightarrow> fs option" where
  "gas_set_link K s dir de inode =
     (let (n, p) = de; pos = page_offset n + p
      in case gas_dir_prepare_chunk K s dir n pos GAS_DIR_ENTRY_SIZE of
           None \<Rightarrow> None
         | Some (Some e, s) \<Rightarrow> Some (touch_dir K dir s)
         | Some (None, s) \<Rightarrow>
             let (err, s) = gas_dir_commit_chunk K s dir n pos GAS_DIR_ENTRY_SIZE
             in Some (touch_dir K dir s))"

text \<open>\<open>..\<close> is taken to be the second entry.\<close>

definition gas_dotdot :: "'k dir_services_scheme \<Rightarrow> fs \<Rightarrow> nat \<Rightarrow> (nat \<times> nat) option \<times> fs" where
  "gas_dotdot K s dir =
     (case gas_dir_get_page K s dir 0 of Inl e \<Rightarrow> (None, s) | Inr s \<Rightarrow> (Some (0, GAS_DIR_ENTRY_SIZE), s))"

end
