(* ===== verification/Gas_Namei.thy ===== *)
theory Gas_Namei
  imports Gas_Dir
begin

text \<open>
  The operations on names (\<^verbatim>\<open>src/kern/gas_namei.c\<close>) and the tables that connect them to the VFS
  (\<^verbatim>\<open>src/kern/def.c\<close>). A dentry is given by the inode of its parent directory and its name, and by
  the inode it is attached to where the operation reads that; an operation that attaches an inode to the
  dentry (\<open>d_instantiate\<close>, \<open>d_add\<close>) returns it.
\<close>

section \<open>Kernel services\<close>

text \<open>
  \<open>iput\<close> drops a reference and, when it was the last and the inode has no links, evicts it, for which it
  gets \<^verbatim>\<open>gas_evict_inode\<close>; \<open>page_symlink\<close> writes the target as the contents of the new inode through
  the table of address space operations.
\<close>

record kstat =
  st_ino :: nat
  st_mode :: u16
  st_nlink :: u32
  st_size :: nat
  st_blocks :: u64
  st_blksize :: nat

record namei_services = dir_services +
  iput :: "(fs \<Rightarrow> nat \<Rightarrow> fs) \<Rightarrow> fs \<Rightarrow> nat \<Rightarrow> fs"
  new_valid_dev :: "u32 \<Rightarrow> bool"
  page_symlink :: "(fs \<Rightarrow> nat \<Rightarrow> aop \<Rightarrow> aop_reply) \<Rightarrow> fs \<Rightarrow> nat \<Rightarrow> byte list \<Rightarrow> nat \<Rightarrow> (err \<times> fs) option"
  generic_fillattr :: "inode \<Rightarrow> kstat"

section \<open>Link counts\<close>

definition inc_nlink :: "nat \<Rightarrow> fs \<Rightarrow> fs" where
  "inc_nlink ino = upd_inode ino (\<lambda>i. i\<lparr>i_nlink := i_nlink i + 1\<rparr>)"

definition drop_nlink :: "nat \<Rightarrow> fs \<Rightarrow> fs" where
  "drop_nlink ino = upd_inode ino (\<lambda>i. i\<lparr>i_nlink := i_nlink i - 1\<rparr>)"

definition inode_inc_link_count :: "nat \<Rightarrow> fs \<Rightarrow> fs" where
  "inode_inc_link_count ino s = mark_inode_dirty ino (inc_nlink ino s)"

definition inode_dec_link_count :: "nat \<Rightarrow> fs \<Rightarrow> fs" where
  "inode_dec_link_count ino s = mark_inode_dirty ino (drop_nlink ino s)"

text \<open>\<^verbatim>\<open>gas_set_inode\<close> on an inode of the state, and the release of the last reference.\<close>

definition set_inode :: "'k namei_services_scheme \<Rightarrow> nat \<Rightarrow> u32 \<Rightarrow> fs \<Rightarrow> fs" where
  "set_inode K ino rdev = upd_inode ino (\<lambda>i. gas_set_inode K i rdev)"

definition put_inode :: "'k namei_services_scheme \<Rightarrow> nat \<Rightarrow> fs \<Rightarrow> fs" where
  "put_inode K ino s = iput K (gas_evict_inode K) s ino"

section \<open>Operations\<close>

text \<open>The result of an operation: the error, the inode the new dentry is attached to, the state.\<close>

type_synonym op_result = "(err \<times> nat option \<times> fs) option"

definition add_nondir :: "'k namei_services_scheme \<Rightarrow> fs \<Rightarrow> nat \<Rightarrow> byte list \<Rightarrow> nat \<Rightarrow> op_result" where
  "add_nondir K s dir name inode =
     (case gas_add_link K s dir name inode of
        None \<Rightarrow> None
      | Some (None, s) \<Rightarrow> Some (None, Some inode, s)
      | Some (Some e, s) \<Rightarrow> Some (Some e, None, put_inode K inode s))"

definition gas_mknod :: "'k namei_services_scheme \<Rightarrow> fs \<Rightarrow> nat \<Rightarrow> byte list \<Rightarrow> u16 \<Rightarrow> u32 \<Rightarrow> op_result" where
  "gas_mknod K s dir name mode rdev =
     (if \<not> new_valid_dev K rdev then Some (Some EINVAL, None, s)
      else case gas_new_inode K s dir mode of
             Some (Some inode, None, s) \<Rightarrow>
               let s = set_inode K inode rdev s; s = mark_inode_dirty inode s
               in add_nondir K s dir name inode
           | Some (_, err, s) \<Rightarrow> Some (err, None, s)
           | None \<Rightarrow> None)"

definition mkdir_out_fail :: "'k namei_services_scheme \<Rightarrow> errno \<Rightarrow> nat \<Rightarrow> nat \<Rightarrow> fs \<Rightarrow> op_result" where
  "mkdir_out_fail K e dir inode s =
     (let s = inode_dec_link_count inode s; s = inode_dec_link_count inode s; s = put_inode K inode s
      in Some (Some e, None, inode_dec_link_count dir s))"

definition gas_mkdir :: "'k namei_services_scheme \<Rightarrow> fs \<Rightarrow> nat \<Rightarrow> byte list \<Rightarrow> u16 \<Rightarrow> op_result" where
  "gas_mkdir K s dir name mode =
     (let s = inode_inc_link_count dir s
      in case gas_new_inode K s dir (S_IFDIR OR mode) of
           None \<Rightarrow> None
         | Some (None, err, s) \<Rightarrow> Some (err, None, inode_dec_link_count dir s)
         | Some (Some inode, _, s) \<Rightarrow>
             let s = inode_inc_link_count inode s; s = set_inode K inode 0 s
             in case gas_make_empty K s inode dir of
                  None \<Rightarrow> None
                | Some (Some e, s) \<Rightarrow> mkdir_out_fail K e dir inode s
                | Some (None, s) \<Rightarrow>
                    (case gas_add_link K s dir name inode of
                       None \<Rightarrow> None
                     | Some (Some e, s) \<Rightarrow> mkdir_out_fail K e dir inode s
                     | Some (None, s) \<Rightarrow> Some (None, Some inode, s)))"

definition gas_lookup :: "'k namei_services_scheme \<Rightarrow> fs \<Rightarrow> nat \<Rightarrow> byte list \<Rightarrow> op_result" where
  "gas_lookup K s dir name =
     (if GAS_MAX_NAME_LEN \<le> length name then Some (Some ENAMETOOLONG, None, s)
      else case gas_inode_by_name K s dir name of
             None \<Rightarrow> None
           | Some (ino, s) \<Rightarrow>
               if ino \<noteq> 0
               then (case gas_iget K s ino of
                       (Inl e, s) \<Rightarrow> Some (Some e, None, s)
                     | (Inr inode, s) \<Rightarrow> Some (None, Some inode, s))
               else Some (None, None, s))"

definition gas_create :: "'k namei_services_scheme \<Rightarrow> fs \<Rightarrow> nat \<Rightarrow> byte list \<Rightarrow> u16 \<Rightarrow> op_result" where
  "gas_create K s dir name mode =
     (case gas_new_inode K s dir mode of
        Some (Some inode, None, s) \<Rightarrow>
          let s = set_inode K inode 0 s; s = mark_inode_dirty inode s
          in add_nondir K s dir name inode
      | Some (_, err, s) \<Rightarrow> Some (err, None, s)
      | None \<Rightarrow> None)"

definition gas_symlink :: "'k namei_services_scheme \<Rightarrow> fs \<Rightarrow> nat \<Rightarrow> byte list \<Rightarrow> byte list \<Rightarrow> op_result" where
  "gas_symlink K s dir name symname =
     (let i = length symname + 1
      in if sb_blocksize s < i then Some (Some ENAMETOOLONG, None, s)
         else case gas_new_inode K s dir (S_IFLNK OR 0x1FF) of
                None \<Rightarrow> None
              | Some (None, err, s) \<Rightarrow> Some (err, None, s)
              | Some (Some inode, _, s) \<Rightarrow>
                  let s = set_inode K inode 0 s
                  in case page_symlink K (gas_a_ops K) s inode symname i of
                       None \<Rightarrow> None
                     | Some (Some e, s) \<Rightarrow> Some (Some e, None, put_inode K inode (inode_dec_link_count inode s))
                     | Some (None, s) \<Rightarrow> add_nondir K s dir name inode)"

definition gas_link :: "'k namei_services_scheme \<Rightarrow> fs \<Rightarrow> nat \<Rightarrow> nat \<Rightarrow> byte list \<Rightarrow> op_result" where
  "gas_link K s inode dir name =
     (let s = upd_inode inode (\<lambda>i. i\<lparr>i_ctime := current_time_sec K\<rparr>) s;
          s = inode_inc_link_count inode s
      in add_nondir K s dir name inode)"

definition gas_unlink :: "'k namei_services_scheme \<Rightarrow> fs \<Rightarrow> nat \<Rightarrow> byte list \<Rightarrow> nat \<Rightarrow> (err \<times> fs) option" where
  "gas_unlink K s dir name inode =
     (case gas_find_entry K s dir name of
        (None, s) \<Rightarrow> Some (Some ENOENT, s)
      | (Some de, s) \<Rightarrow>
          (case gas_delete_entry K s dir de of
             None \<Rightarrow> None
           | Some (Some e, s) \<Rightarrow> Some (Some e, s)
           | Some (None, s) \<Rightarrow>
               let s = upd_inode inode (\<lambda>i. i\<lparr>i_ctime := i_ctime (icache s dir)\<rparr>) s
               in Some (None, inode_dec_link_count inode s)))"

definition gas_rmdir :: "'k namei_services_scheme \<Rightarrow> fs \<Rightarrow> nat \<Rightarrow> byte list \<Rightarrow> nat \<Rightarrow> (err \<times> fs) option" where
  "gas_rmdir K s dir name inode =
     (case gas_empty_dir K s inode of
        (False, s) \<Rightarrow> Some (Some ENOTEMPTY, s)
      | (True, s) \<Rightarrow>
          (case gas_unlink K s dir name inode of
             None \<Rightarrow> None
           | Some (Some e, s) \<Rightarrow> Some (Some e, s)
           | Some (None, s) \<Rightarrow> Some (None, inode_dec_link_count inode (inode_dec_link_count dir s))))"

text \<open>The tail of \<^verbatim>\<open>gas_rename\<close> once the new name is in place.\<close>

definition rename_finish ::
  "'k namei_services_scheme \<Rightarrow> fs \<Rightarrow> nat \<Rightarrow> nat \<Rightarrow> nat \<times> nat \<Rightarrow> nat \<Rightarrow> (nat \<times> nat) option \<Rightarrow> (err \<times> fs) option" where
  "rename_finish K s old_dir old_inode old_de new_dir dir_de =
     (case gas_delete_entry K s old_dir old_de of
        None \<Rightarrow> None
      | Some (_, s) \<Rightarrow>
          let s = mark_inode_dirty old_inode s
          in case dir_de of
               None \<Rightarrow> Some (None, s)
             | Some de \<Rightarrow>
                 (case gas_set_link K s old_inode de new_dir of
                    None \<Rightarrow> None
                  | Some s \<Rightarrow> Some (None, inode_dec_link_count old_dir s)))"

definition gas_rename ::
  "'k namei_services_scheme \<Rightarrow> fs \<Rightarrow> nat \<Rightarrow> byte list \<Rightarrow> nat \<Rightarrow> nat \<Rightarrow> byte list \<Rightarrow> nat option \<Rightarrow> (err \<times> fs) option" where
  "gas_rename K s old_dir old_name old_inode new_dir new_name target =
     (case gas_find_entry K s old_dir old_name of
        (None, s) \<Rightarrow> Some (Some ENOENT, s)
      | (Some old_de, s) \<Rightarrow>
          let is_dir = S_ISDIR (i_mode (icache s old_inode));
              (dir_de, s) = (if is_dir then gas_dotdot K s old_inode else (None, s))
          in if is_dir \<and> dir_de = None then Some (Some EIO, s)
             else case target of
                    Some ni \<Rightarrow>
                      let (ok, s) = (if dir_de \<noteq> None then gas_empty_dir K s ni else (True, s))
                      in if \<not> ok then Some (Some ENOTEMPTY, s)
                         else (case gas_find_entry K s new_dir new_name of
                                 (None, s) \<Rightarrow> Some (Some ENOENT, s)
                               | (Some new_de, s) \<Rightarrow>
                                   (case gas_set_link K s new_dir new_de old_inode of
                                      None \<Rightarrow> None
                                    | Some s \<Rightarrow>
                                        let s = upd_inode ni (\<lambda>i. i\<lparr>i_ctime := current_time_sec K\<rparr>) s;
                                            s = (if dir_de \<noteq> None then drop_nlink ni s else s);
                                            s = inode_dec_link_count ni s
                                        in rename_finish K s old_dir old_inode old_de new_dir dir_de))
                  | None \<Rightarrow>
                      (case gas_add_link K s new_dir new_name old_inode of
                         None \<Rightarrow> None
                       | Some (Some e, s) \<Rightarrow> Some (Some e, s)
                       | Some (None, s) \<Rightarrow>
                           let s = (if dir_de \<noteq> None then inode_inc_link_count new_dir s else s)
                           in rename_finish K s old_dir old_inode old_de new_dir dir_de))"

definition gas_getattr :: "'k namei_services_scheme \<Rightarrow> fs \<Rightarrow> nat \<Rightarrow> kstat" where
  "gas_getattr K s inode =
     (let stat = generic_fillattr K (icache s inode);
          blks = word_of_nat (sb_blocksize s div 512) * ucast (gas_blocks (st_size stat) s)
      in stat\<lparr>st_blocks := blks, st_blksize := sb_blocksize s\<rparr>)"

section \<open>The operation tables\<close>

text \<open>
  The entries of \<open>gas_dir_inode_ops\<close>, \<open>gas_file_inode_ops\<close>, \<open>gas_symlink_inode_ops\<close> that are functions of
  this file system. A call of the VFS on an inode goes through the table \<^verbatim>\<open>gas_set_inode\<close> gave it;
  an operation the table lacks is refused, here by no result of the call. There is no entry for
  \<^verbatim>\<open>gas_rename\<close>.
\<close>

datatype vfs_op =
    Op_create "byte list" u16
  | Op_lookup "byte list"
  | Op_link nat "byte list"
  | Op_unlink "byte list" nat
  | Op_symlink "byte list" "byte list"
  | Op_mknod "byte list" u16 u32
  | Op_mkdir "byte list" u16
  | Op_rmdir "byte list" nat
  | Op_rename "byte list" nat nat "byte list" "nat option"
  | Op_getattr

datatype vfs_reply =
    Not_supported
  | Undefined
  | Replied err "nat option" fs
  | Attributes kstat

fun reply_of :: "op_result \<Rightarrow> vfs_reply" where
  "reply_of None = Undefined"
| "reply_of (Some (e, d, s)) = Replied e d s"

fun reply_plain :: "(err \<times> fs) option \<Rightarrow> vfs_reply" where
  "reply_plain None = Undefined"
| "reply_plain (Some (e, s)) = Replied e None s"

fun gas_dir_inode_ops :: "'k namei_services_scheme \<Rightarrow> fs \<Rightarrow> nat \<Rightarrow> vfs_op \<Rightarrow> vfs_reply" where
  "gas_dir_inode_ops K s dir (Op_create name mode) = reply_of (gas_create K s dir name mode)"
| "gas_dir_inode_ops K s dir (Op_lookup name) = reply_of (gas_lookup K s dir name)"
| "gas_dir_inode_ops K s dir (Op_link inode name) = reply_of (gas_link K s inode dir name)"
| "gas_dir_inode_ops K s dir (Op_unlink name inode) = reply_plain (gas_unlink K s dir name inode)"
| "gas_dir_inode_ops K s dir (Op_symlink name symname) = reply_of (gas_symlink K s dir name symname)"
| "gas_dir_inode_ops K s dir (Op_mknod name mode rdev) = reply_of (gas_mknod K s dir name mode rdev)"
| "gas_dir_inode_ops K s dir (Op_mkdir name mode) = reply_of (gas_mkdir K s dir name mode)"
| "gas_dir_inode_ops K s dir (Op_rmdir name inode) = reply_plain (gas_rmdir K s dir name inode)"
| "gas_dir_inode_ops K s dir Op_getattr = Attributes (gas_getattr K s dir)"
| "gas_dir_inode_ops K s dir (Op_rename _ _ _ _ _) = Not_supported"

fun gas_file_inode_ops :: "'k namei_services_scheme \<Rightarrow> fs \<Rightarrow> nat \<Rightarrow> vfs_op \<Rightarrow> vfs_reply" where
  "gas_file_inode_ops K s ino Op_getattr = Attributes (gas_getattr K s ino)"
| "gas_file_inode_ops K s ino _ = Not_supported"

fun gas_symlink_inode_ops :: "'k namei_services_scheme \<Rightarrow> fs \<Rightarrow> nat \<Rightarrow> vfs_op \<Rightarrow> vfs_reply" where
  "gas_symlink_inode_ops K s ino Op_getattr = Attributes (gas_getattr K s ino)"
| "gas_symlink_inode_ops K s ino _ = Not_supported"

definition vfs_call :: "'k namei_services_scheme \<Rightarrow> fs \<Rightarrow> nat \<Rightarrow> vfs_op \<Rightarrow> vfs_reply" where
  "vfs_call K s ino oper =
     (case i_op (icache s ino) of
        Dir_iops \<Rightarrow> gas_dir_inode_ops K s ino oper
      | File_iops \<Rightarrow> gas_file_inode_ops K s ino oper
      | Symlink_iops \<Rightarrow> gas_symlink_inode_ops K s ino oper
      | _ \<Rightarrow> Not_supported)"

end
