(* ===== verification/Gas_Dir_Map.thy ===== *)
theory Gas_Dir_Map
  imports Gas_Dir
begin

text \<open>
  What the operations of \<^verbatim>\<open>src/kern/gas_dir.c\<close> do to a directory seen as a finite map from names to
  inode numbers. The entries of a directory are numbered through its pages, 15 to a page.
\<close>

section \<open>Slots\<close>

definition dslot :: "fs \<Rightarrow> nat \<Rightarrow> nat \<Rightarrow> gas_dir_entry" where
  "dslot s dir m = load_dentry (pages s dir (m div 15)) (GAS_DIR_ENTRY_SIZE * (m mod 15))"

definition nslots :: "inode \<Rightarrow> nat" where
  "nslots i = 15 * (i_size i div PAGE_CACHE_SIZE) + i_size i mod PAGE_CACHE_SIZE div GAS_DIR_ENTRY_SIZE"

definition live :: "fs \<Rightarrow> nat \<Rightarrow> nat \<Rightarrow> bool" where
  "live s dir m \<longleftrightarrow> de_inode (dslot s dir m) \<noteq> 0"

definition dir_map :: "fs \<Rightarrow> nat \<Rightarrow> byte list \<Rightarrow> u32 option" where
  "dir_map s dir name = map_option (\<lambda>m. de_inode (dslot s dir m))
     (find (\<lambda>m. live s dir m \<and> de_name (dslot s dir m) = name) [0..<nslots (icache s dir)])"

text \<open>The live entries in order.\<close>

definition dir_list :: "fs \<Rightarrow> nat \<Rightarrow> (byte list \<times> u32) list" where
  "dir_list s dir = map (\<lambda>m. (de_name (dslot s dir m), de_inode (dslot s dir m)))
     (filter (live s dir) [0..<nslots (icache s dir)])"

text \<open>The size of a directory with \<open>n\<close> slots.\<close>

definition dir_size :: "nat \<Rightarrow> nat" where
  "dir_size n = (if n = 0 then 0 else PAGE_CACHE_SIZE * ((n - 1) div 15) + GAS_DIR_ENTRY_SIZE * ((n - 1) mod 15 + 1))"

text \<open>
  A well-formed directory: its size ends after a slot, every entry's name is terminated, no name occurs
  twice among the live entries, and what lies beyond the end reads as free entries.
\<close>

definition dir_wf :: "fs \<Rightarrow> nat \<Rightarrow> bool" where
  "dir_wf s dir \<longleftrightarrow> (\<exists>n. i_size (icache s dir) = dir_size n) \<and>
     (\<forall>m<nslots (icache s dir). dentry_ok (dslot s dir m)) \<and>
     (\<forall>m<nslots (icache s dir). \<forall>k<nslots (icache s dir). live s dir m \<longrightarrow> live s dir k \<longrightarrow>
        de_name (dslot s dir m) = de_name (dslot s dir k) \<longrightarrow> m = k) \<and>
     (\<forall>m\<ge>nslots (icache s dir). \<not> live s dir m)"

section \<open>Sizes, pages and slots\<close>

lemma nslots_dir_size: "i_size i = dir_size n \<Longrightarrow> nslots i = n"
proof (cases "n = 0")
  case False
  assume "i_size i = dir_size n"
  then have sz: "i_size i = 260 * ((n - 1) mod 15 + 1) + (n - 1) div 15 * 4096" using False by (simp add: dir_size_def)
  have r: "260 * ((n - 1) mod 15 + 1) < 4096"
  proof -
    have "(n - 1) mod 15 + 1 \<le> 15" by (simp add: Suc_le_eq)
    then have "260 * ((n - 1) mod 15 + 1) \<le> 260 * 15" by (rule mult_le_mono2)
    then show ?thesis by linarith
  qed
  have d: "i_size i div 4096 = (n - 1) div 15" "i_size i mod 4096 = 260 * ((n - 1) mod 15 + 1)"
    unfolding sz using r by (simp_all only: div_mult_self3 mod_mult_self3 div_mult_self1 mod_mult_self1 div_less mod_less)
  have "260 * ((n - 1) mod 15 + 1) div 260 = (n - 1) mod 15 + 1" by (rule nonzero_mult_div_cancel_left) simp
  then have "nslots i = 15 * ((n - 1) div 15) + (n - 1) mod 15 + 1" unfolding nslots_def d by simp
  then show "nslots i = n" using False by simp
qed (simp add: dir_size_def nslots_def)

lemma and_4095: "n AND (4096 - 1) = n mod (4096::nat)"
  using take_bit_eq_mask [of 12 n] take_bit_eq_mod [of 12 n] by (simp add: mask_eq_exp_minus_1)

lemma page_slots_full: "page_slots PAGE_CACHE_SIZE = map ((*) GAS_DIR_ENTRY_SIZE) [0..<15]"
  by (simp add: page_slots_def)

lemma page_slots_part: "page_slots (GAS_DIR_ENTRY_SIZE * r) = map ((*) GAS_DIR_ENTRY_SIZE) [0..<r]"
  by (simp add: page_slots_def)

text \<open>The last page of a directory of \<open>n > 0\<close> slots is page \<open>(n - 1) div 15\<close>.\<close>

lemma dir_geometry:
  assumes "i_size i = dir_size n"
  shows "gas_dir_pages i = (if n = 0 then 0 else (n - 1) div 15 + 1)"
    and "n \<noteq> 0 \<Longrightarrow> gas_last_byte i k = (if k = (n - 1) div 15 then GAS_DIR_ENTRY_SIZE * ((n - 1) mod 15 + 1) else PAGE_CACHE_SIZE)"
    and "n = 0 \<Longrightarrow> gas_last_byte i k = (if k = 0 then 0 else PAGE_CACHE_SIZE)"
proof -
  define r where "r = 260 * ((n - 1) mod 15 + 1)"
  have "(n - 1) mod 15 + 1 \<le> 15" by (simp add: Suc_le_eq)
  then have "r \<le> 260 * 15" unfolding r_def by (rule mult_le_mono2)
  then have r: "0 < r" "r < 4096" by (simp_all add: r_def)
  have d: "i_size i div 4096 = (n - 1) div 15" "i_size i mod 4096 = r" "(i_size i + 4095) div 4096 = (n - 1) div 15 + 1"
    if "n \<noteq> 0"
  proof -
    have sz: "i_size i = r + (n - 1) div 15 * 4096" using that assms by (simp add: dir_size_def r_def)
    show "i_size i div 4096 = (n - 1) div 15" "i_size i mod 4096 = r" unfolding sz using r by simp_all
    have "i_size i + 4095 = (r - 1) + ((n - 1) div 15 + 1) * 4096" using sz r by simp
    then show "(i_size i + 4095) div 4096 = (n - 1) div 15 + 1" using r by (simp only: div_mult_self3) simp
  qed
  show "gas_dir_pages i = (if n = 0 then 0 else (n - 1) div 15 + 1)"
    using d(3) assms by (auto simp: gas_dir_pages_def drop_bit_eq_div dir_size_def)
  show "n \<noteq> 0 \<Longrightarrow> gas_last_byte i k = (if k = (n - 1) div 15 then GAS_DIR_ENTRY_SIZE * ((n - 1) mod 15 + 1) else PAGE_CACHE_SIZE)"
    using d(1,2) unfolding gas_last_byte_def and_4095 by (simp add: drop_bit_eq_div r_def)
  show "n = 0 \<Longrightarrow> gas_last_byte i k = (if k = 0 then 0 else PAGE_CACHE_SIZE)"
    using assms by (simp add: gas_last_byte_def dir_size_def)
qed

section \<open>What the operations rely on\<close>

text \<open>
  The page cache and the buffer layer as the directory code uses them: \<open>pages\<close> is what a page reads as,
  so reading a page does not change the state; preparing a chunk of a page that has been read changes it
  only by a call of the \<open>get_block\<close> function for the block of the page; finishing a chunk changes dirty
  marks only. (\<^verbatim>\<open>gas_make_empty\<close> prepares a page it has not read, and then overwrites it as a whole.)
\<close>

locale directory_io = page_cache K for K :: "'k dir_services_scheme" +
  assumes read_mapping: "read_mapping_page K s ino n = Inr s' \<Longrightarrow> s' = s"
    and grab_page: "grab_cache_page K s ino n = Some s' \<Longrightarrow> s' = s"
    and prepare_total: "(\<And>b. gb s ino b True \<noteq> None) \<Longrightarrow> block_write_begin_page K gb s ino n pos len \<noteq> None"
    and prepare: "block_write_begin_page K gb s ino n pos len = Some (e, s') \<Longrightarrow>
      \<exists>s1. (s1 = s \<or> (\<exists>e' m. gb s ino (word_of_nat n) True = Some (e', m, s1))) \<and> s' = s1\<lparr>b_dirty := b_dirty s'\<rparr>"
    and end_chunk: "block_write_end K s ino n pos len = s\<lparr>b_dirty := b_dirty (block_write_end K s ino n pos len)\<rparr>"
    and write_one: "write_one_page K s ino n = (e, s') \<Longrightarrow> s' = s\<lparr>b_dirty := b_dirty s'\<rparr>"

text \<open>No page of the directory is unreadable.\<close>

definition pages_readable :: "'k dir_services_scheme \<Rightarrow> fs \<Rightarrow> nat \<Rightarrow> bool" where
  "pages_readable K s dir \<longleftrightarrow> (\<forall>n. \<exists>s'. read_mapping_page K s dir n = Inr s')"

section \<open>Finding an entry\<close>

lemma find_map: "find P (map f xs) = map_option f (find (P \<circ> f) xs)"
  by (induction xs) auto

lemma find_append: "find P (xs @ ys) = (case find P xs of None \<Rightarrow> find P ys | Some x \<Rightarrow> Some x)"
  by (induction xs) auto

lemma find_cong: "(\<And>x. x \<in> set xs \<Longrightarrow> P x = Q x) \<Longrightarrow> find P xs = find Q xs"
  by (induction xs) auto

lemma find_shift: "find P [a + i..<a + j] = map_option ((+) a) (find (P \<circ> (+) a) [i..<j])"
proof -
  have "[a + i..<a + j] = map ((+) a) [i..<j]" by (rule nth_equalityI) auto
  then show ?thesis by (simp only: find_map)
qed

lemma slot_index: "j < 15 \<Longrightarrow> (15 * k + j) div 15 = k \<and> (15 * k + j) mod 15 = (j::nat)"
  by simp

lemma dslot_page: "j < 15 \<Longrightarrow> dslot s dir (15 * k + j) = load_dentry (pages s dir k) (GAS_DIR_ENTRY_SIZE * j)"
  by (simp add: dslot_def)

lemma strncmp_name: "length name < GAS_MAX_NAME_LEN \<Longrightarrow> strncmp_eq b p name GAS_MAX_NAME_LEN \<longleftrightarrow> de_name (load_dentry b p) = name"
  by (simp add: strncmp_eq_def load_dentry_def)

lemma find_in_page_slots:
  assumes "length name < GAS_MAX_NAME_LEN" and "r \<le> 15"
  shows "find_in_page (pages s dir k) (GAS_DIR_ENTRY_SIZE * r) name =
    map_option (\<lambda>m. GAS_DIR_ENTRY_SIZE * (m mod 15))
      (find (\<lambda>m. live s dir m \<and> de_name (dslot s dir m) = name) [15 * k..<15 * k + r])"
proof -
  have "find (\<lambda>m. live s dir m \<and> de_name (dslot s dir m) = name) [15 * k + 0..<15 * k + r] =
      map_option ((+) (15 * k)) (find (\<lambda>j. get_le32 (pages s dir k) (260 * j + 256) \<noteq> 0 \<and>
        strncmp_eq (pages s dir k) (260 * j) name GAS_MAX_NAME_LEN) [0..<r])"
    unfolding find_shift
    by (rule arg_cong [of _ _ "map_option ((+) (15 * k))"], rule find_cong)
      (use assms in \<open>auto simp: live_def dslot_page strncmp_name load_dentry_def [THEN arg_cong [of _ _ de_inode], simplified]\<close>)
  moreover have "\<And>j. find P [0..<r] = Some j \<Longrightarrow> j < 15" for P
    using assms(2) by (auto simp: find_Some_iff)
  ultimately show ?thesis
    by (auto simp: find_in_page_def page_slots_part find_map o_def option.map_comp intro!: map_option_cong)
qed

context directory_io
begin

lemma find_pages_slots:
  assumes name: "length name < GAS_MAX_NAME_LEN" and rd: "pages_readable K s dir"
    and sz: "i_size (icache s dir) = dir_size n" and k: "k \<le> gas_dir_pages (icache s dir)" "15 * k \<le> n \<or> n = 0"
  shows "find_pages K [k..<gas_dir_pages (icache s dir)] s dir name =
    (map_option (\<lambda>m. (m div 15, GAS_DIR_ENTRY_SIZE * (m mod 15)))
       (find (\<lambda>m. live s dir m \<and> de_name (dslot s dir m) = name) [15 * k..<n]), s)"
  using k
proof (induction "gas_dir_pages (icache s dir) - k" arbitrary: k)
  case 0
  then have "k = gas_dir_pages (icache s dir)" by simp
  moreover have "n \<le> 15 * gas_dir_pages (icache s dir)"
  proof (cases "n = 0")
    case False
    have "n - 1 < 15 * ((n - 1) div 15) + 15" using mult_div_mod_eq [of 15 "n - 1"] mod_less_divisor [of 15 "n - 1"] by linarith
    then show ?thesis using False dir_geometry(1) [OF sz] by simp
  qed simp
  ultimately show ?case by simp
next
  case (Suc d)
  then have kp: "k < gas_dir_pages (icache s dir)" by simp
  then have n: "n \<noteq> 0" "k \<le> (n - 1) div 15" using dir_geometry(1) [OF sz] by (auto split: if_splits)
  define r where "r = (if k = (n - 1) div 15 then (n - 1) mod 15 + 1 else 15)"
  have r: "r \<le> 15" by (simp add: r_def Suc_le_eq)
  have lst: "find_in_page (pages s dir k) (gas_last_byte (icache s dir) k) name =
      find_in_page (pages s dir k) (260 * r) name"
    using dir_geometry(2) [OF sz n(1), of k] page_slots_full page_slots_part [of 15]
    by (simp add: r_def find_in_page_def)
  have last_page: "n = 15 * k + r" if "k = (n - 1) div 15"
    using that n(1) mult_div_mod_eq [of 15 "n - 1"] by (simp add: r_def)
  have le: "15 * k + r \<le> n"
  proof (cases "k = (n - 1) div 15")
    case False
    then have "k + 1 \<le> (n - 1) div 15" using n(2) by simp
    then have "15 * (k + 1) \<le> 15 * ((n - 1) div 15)" by (rule mult_le_mono2)
    also have "\<dots> \<le> n - 1" by simp
    finally show ?thesis using False by (simp add: r_def)
  qed (use last_page in simp)
  obtain s' where s': "read_mapping_page K s dir k = Inr s'" using rd by (auto simp: pages_readable_def)
  then have "s' = s" by (rule read_mapping)
  with s' have get: "gas_dir_get_page K s dir k = Inr s" by (simp add: gas_dir_get_page_def)
  have split: "[15 * k..<n] = [15 * k..<15 * k + r] @ [15 * k + r..<n]" using le upt_add_eq_append [of "15 * k" "15 * k + r" "n - (15 * k + r)"] by simp
  let ?P = "\<lambda>m. live s dir m \<and> de_name (dslot s dir m) = name"
  have up: "[k..<gas_dir_pages (icache s dir)] = k # [Suc k..<gas_dir_pages (icache s dir)]" using kp by (rule upt_conv_Cons)
  show ?case
  proof (cases "find ?P [15 * k..<15 * k + r]")
    case (Some m)
    then have "m < 15 * k + r" "15 * k \<le> m" by (auto simp: find_Some_iff)
    then have "m div 15 = k" using r by (intro div_nat_eqI) auto
    then show ?thesis unfolding up using Some get find_in_page_slots [OF name r, of s dir k]
      by (simp add: lst split find_append)
  next
    case None
    have rest: "15 * k + r = 15 * Suc k \<or> Suc k = gas_dir_pages (icache s dir) \<and> n = 15 * k + r"
      using last_page dir_geometry(1) [OF sz] n by (auto simp: r_def)
    have "find_pages K [Suc k..<gas_dir_pages (icache s dir)] s dir name =
        (map_option (\<lambda>m. (m div 15, 260 * (m mod 15))) (find ?P [15 * k + r..<n]), s)"
      using rest
    proof
      assume a: "15 * k + r = 15 * Suc k"
      have "15 * Suc k \<le> n" using le unfolding a .
      then show ?thesis unfolding a using Suc.hyps(2) kp by (intro Suc.hyps(1)) auto
    qed simp
    then show ?thesis unfolding up using None get find_in_page_slots [OF name r, of s dir k]
      by (simp add: lst split find_append)
  qed
qed

lemma find_entry_slots:
  assumes "length name < GAS_MAX_NAME_LEN" and "pages_readable K s dir" and "dir_wf s dir"
  shows "gas_find_entry K s dir name = (map_option (\<lambda>m. (m div 15, GAS_DIR_ENTRY_SIZE * (m mod 15)))
     (find (\<lambda>m. live s dir m \<and> de_name (dslot s dir m) = name) [0..<nslots (icache s dir)]), s)"
proof -
  obtain n where n: "i_size (icache s dir) = dir_size n" using assms(3) by (auto simp: dir_wf_def)
  show ?thesis
    using find_pages_slots [OF assms(1,2) n, of 0] nslots_dir_size [OF n] by (simp add: gas_find_entry_def)
qed

end

section \<open>The steps of a change\<close>

context directory_io
begin

lemma b_dirty_local: "vol_ok I s \<Longrightarrow> local_op I ino s (s\<lparr>b_dirty := d\<rparr>)"
  by (rule local_op_inode) simp_all

lemma prepare_chunk_local:
  assumes ok: "vol_ok I s" and dir: "dir \<in> I"
  shows "\<exists>e s'. gas_dir_prepare_chunk K s dir n pos len = Some (e, s') \<and> local_op I dir s s' \<and> pages s' = pages s \<and>
    i_size (icache s' dir) = i_size (icache s dir)"
proof -
  have "gas_get_block K s dir b True \<noteq> None" for b using get_block_grows [OF ok dir, of b True] by auto
  then have "block_write_begin_page K (gas_get_block K) s dir n pos len \<noteq> None" by (rule prepare_total)
  then obtain e s' where r: "block_write_begin_page K (gas_get_block K) s dir n pos len = Some (e, s')" by auto
  obtain s1 where s1: "s1 = s \<or> (\<exists>e' m. gas_get_block K s dir (word_of_nat n) True = Some (e', m, s1))"
    and s': "s' = s1\<lparr>b_dirty := b_dirty s'\<rparr>" using prepare [OF r] by blast
  have g: "grows I dir s s1"
    using s1 get_block_grows [OF ok dir, of "word_of_nat n" True] grows_refl [OF ok dir] by auto
  have "local_op I dir s1 s'" by (subst s') (rule b_dirty_local [OF grows_simps(1) [OF g]])
  moreover have "pages s' = pages s1" "icache s' = icache s1" by (subst s'; simp)+
  ultimately show ?thesis
    using r grows_simps(3,7) [OF g] local_op_trans [OF grows_local [OF ok dir g]] by (simp add: gas_dir_prepare_chunk_def)
qed

lemma touch_dir_local:
  assumes "vol_ok I s"
  shows "local_op I dir s (touch_dir K dir s)" "pages (touch_dir K dir s) = pages s"
    "i_size (icache (touch_dir K dir s) dir) = i_size (icache s dir)"
  using local_op_inode [OF assms, of "touch_dir K dir s" dir] by (simp_all add: touch_dir_def Let_def)

lemma set_page_local: "vol_ok I s \<Longrightarrow> local_op I dir s (set_page dir n b s)"
  by (rule local_op_inode) simp_all

lemma commit_chunk_local:
  assumes ok: "vol_ok I s" and r: "gas_dir_commit_chunk K s dir n pos len = (e, s')"
  shows "local_op I dir s s'" "pages s' = pages s" "i_size (icache s' dir) = max (i_size (icache s dir)) (pos + len)"
proof -
  define s1 where "s1 = block_write_end K s dir n pos len"
  define s2 where "s2 = (if i_size (icache s1 dir) < pos + len
      then mark_inode_dirty dir (upd_inode dir (\<lambda>i. i\<lparr>i_size := pos + len\<rparr>) s1) else s1)"
  have e1: "s1 = s\<lparr>b_dirty := b_dirty s1\<rparr>" unfolding s1_def by (rule end_chunk)
  have s1: "pages s1 = pages s" "icache s1 = icache s" by (subst e1; simp)+
  have l1: "local_op I dir s s1" by (subst e1) (rule b_dirty_local [OF ok])
  have s2: "local_op I dir s1 s2" "pages s2 = pages s1" "i_size (icache s2 dir) = max (i_size (icache s1 dir)) (pos + len)"
    using local_op_inode [OF local_op_ok [OF l1], of s2 dir] by (simp_all add: s2_def)
  have "e = None \<and> s' = s2 \<or> write_one_page K s2 dir n = (e, s')"
    using r by (auto simp: gas_dir_commit_chunk_def Let_def s1_def [symmetric] s2_def [symmetric] split: if_splits)
  then have "local_op I dir s2 s' \<and> pages s' = pages s2 \<and> icache s' = icache s2"
  proof
    assume "write_one_page K s2 dir n = (e, s')"
    from write_one [OF this] have s': "s' = s2\<lparr>b_dirty := b_dirty s'\<rparr>" .
    have "pages s' = pages s2" "icache s' = icache s2" by (subst s'; simp)+
    moreover have "local_op I dir s2 s'" by (subst s') (rule b_dirty_local [OF local_op_ok [OF s2(1)]])
    ultimately show ?thesis by blast
  qed (use local_op_refl local_op_ok [OF s2(1)] in blast)
  then show "local_op I dir s s'" "pages s' = pages s" "i_size (icache s' dir) = max (i_size (icache s dir)) (pos + len)"
    using s1 l1 s2 local_op_trans by (blast, simp, simp)
qed

end

section \<open>Slots after a change\<close>

lemma dslot_cong: "pages s' dir = pages s dir \<Longrightarrow> dslot s' dir = dslot s dir"
  by (rule ext) (simp add: dslot_def)

lemma live_cong: "dslot s' dir = dslot s dir \<Longrightarrow> live s' dir = live s dir"
  by (simp add: live_def fun_eq_iff)

lemma dslot_store:
  assumes "dentry_ok de"
  shows "dslot (set_page dir (m div 15) (store_dentry (pages s dir (m div 15)) (GAS_DIR_ENTRY_SIZE * (m mod 15)) de) s) dir k =
    (if k = m then de else dslot s dir k)"
proof (cases "k div 15 = m div 15")
  case True
  have "m mod 15 = k mod 15 \<longleftrightarrow> k = m" using True by (metis mult_div_mod_eq)
  then show ?thesis
    using dentry.load_store_slot [OF assms, of "pages s dir (m div 15)" 0 "m mod 15" "k mod 15"] True
    by (simp add: dslot_def)
next
  case False
  then show ?thesis by (auto simp: dslot_def)
qed

lemma dslot_put_inode:
  "dslot (set_page dir (m div 15) (put_le32 (pages s dir (m div 15)) (GAS_DIR_ENTRY_SIZE * (m mod 15) + 256) v) s) dir k =
    (if k = m then (dslot s dir k)\<lparr>de_inode := v\<rparr> else dslot s dir k)"
proof (cases "k div 15 = m div 15")
  case True
  have "m mod 15 = k mod 15 \<longleftrightarrow> k = m" using True by (metis mult_div_mod_eq)
  then show ?thesis
    using load_dentry_put_inode_other [of "m mod 15" "k mod 15"] True
    by (auto simp: dslot_def load_dentry_put_inode)
next
  case False
  then show ?thesis by (auto simp: dslot_def)
qed

text \<open>Where a slot ends.\<close>

lemma slot_end: "GAS_DIR_ENTRY_SIZE * (m mod 15) + GAS_DIR_ENTRY_SIZE + page_offset (m div 15) = dir_size (Suc m)"
  by (simp add: dir_size_def page_offset_def)

lemma dir_size_less: "dir_size m < dir_size (Suc m)"
proof (cases "m = 0")
  case False
  define j where "j = m - 1"
  have m: "m = Suc j" using False by (simp add: j_def)
  have "j mod 15 < 15" by simp
  then show ?thesis
    unfolding m dir_size_def by (auto simp: mod_Suc div_Suc)
qed (simp add: dir_size_def)

lemma dir_size_mono: "strict_mono dir_size"
  by (simp add: strict_mono_Suc_iff dir_size_less)

lemma dir_size_inj: "dir_size m = dir_size n \<longleftrightarrow> m = n"
  using dir_size_mono by (rule strict_mono_eq)

lemma max_dir_size: "max (dir_size m) (dir_size n) = dir_size (max m n)"
  using strict_mono_less_eq [OF dir_size_mono] by (simp add: max_def)

section \<open>Adding an entry\<close>

text \<open>The slots at which the scan of \<^verbatim>\<open>gas_add_link\<close> stops: free ones, and the one with the name.\<close>

definition stops :: "fs \<Rightarrow> nat \<Rightarrow> byte list \<Rightarrow> nat \<Rightarrow> bool" where
  "stops s dir name m \<longleftrightarrow> \<not> live s dir m \<or> de_name (dslot s dir m) = name"

definition scan_at :: "bool \<Rightarrow> fs \<Rightarrow> nat \<Rightarrow> nat \<Rightarrow> scan" where
  "scan_at end s dir m = (if end then At_end (GAS_DIR_ENTRY_SIZE * (m mod 15))
     else if live s dir m then Exists else At_free (GAS_DIR_ENTRY_SIZE * (m mod 15)))"

lemma strncmp_short:
  assumes "dentry_ok (load_dentry b p)" and "length name < GAS_MAX_NAME_LEN"
  shows "strncmp_eq b p name (GAS_MAX_NAME_LEN - 1) \<longleftrightarrow> de_name (load_dentry b p) = name"
proof -
  have "length (cstr b p 256) \<le> 255" using assms(1) by (simp add: dentry_ok_def load_dentry_def)
  then have "cstr b p 255 = cstr b p 256" using cstr_take [of 255 256 b p] by simp
  then show ?thesis using assms(2) by (simp add: strncmp_eq_def load_dentry_def)
qed

lemma add_scan_slots:
  assumes name: "length name < GAS_MAX_NAME_LEN" and ok: "\<And>m. m \<in> {15 * k + i..<15 * k + 15} \<Longrightarrow> m < n \<Longrightarrow> dentry_ok (dslot s dir m)"
    and free: "\<And>m. n \<le> m \<Longrightarrow> \<not> live s dir m"
    and e: "\<And>j. j < 15 \<Longrightarrow> GAS_DIR_ENTRY_SIZE * j = dir_end \<longleftrightarrow> E (15 * k + j)" "\<And>m. E m \<Longrightarrow> m = n" and i: "i \<le> 15"
  shows "add_scan (pages s dir k) dir_end name (map ((*) GAS_DIR_ENTRY_SIZE) [i..<15]) =
    (case find (stops s dir name) [15 * k + i..<15 * k + 15] of None \<Rightarrow> Page_full | Some m \<Rightarrow> scan_at (E m) s dir m)"
  using i ok
proof (induction "15 - i" arbitrary: i)
  case 0
  then show ?case by simp
next
  case (Suc d)
  then have i: "i < 15" by simp
  let ?m = "15 * k + i" and ?b = "pages s dir k" and ?p = "GAS_DIR_ENTRY_SIZE * i"
  have up: "[i..<15] = i # [Suc i..<15]" "[?m..<15 * k + 15] = ?m # [Suc ?m..<15 * k + 15]" using i by (simp_all add: upt_conv_Cons)
  have sl: "dslot s dir ?m = load_dentry ?b ?p" using i by (simp add: dslot_page)
  have lv: "live s dir ?m \<longleftrightarrow> get_le32 ?b (?p + 256) \<noteq> 0" by (simp add: live_def sl load_dentry_def)
  have md: "?m mod 15 = i" using i by simp
  have ih: "add_scan ?b dir_end name (map ((*) GAS_DIR_ENTRY_SIZE) [Suc i..<15]) =
      (case find (stops s dir name) [Suc ?m..<15 * k + 15] of None \<Rightarrow> Page_full | Some m \<Rightarrow> scan_at (E m) s dir m)"
    using Suc.hyps(1) [of "Suc i"] Suc.hyps(2) i Suc.prems(2) by simp
  show ?case
  proof (cases "E ?m")
    case True
    then have "\<not> live s dir ?m" using free e(2) by simp
    then show ?thesis unfolding up using True e(1) [OF i] md by (simp add: stops_def scan_at_def)
  next
    case False
    then have ne: "?p \<noteq> dir_end" using e(1) [OF i] by simp
    show ?thesis
    proof (cases "live s dir ?m")
      case True
      then have "?m < n" using free by (meson not_le)
      then have "dentry_ok (load_dentry ?b ?p)" using Suc.prems(2) [of ?m] i sl by simp
      then have "strncmp_eq ?b ?p name 255 \<longleftrightarrow> de_name (dslot s dir ?m) = name"
        using strncmp_short [OF _ name, of ?b ?p] sl by simp
      then show ?thesis unfolding up using True False ne md lv ih by (simp add: stops_def scan_at_def)
    next
      case nl: False
      then show ?thesis unfolding up using False ne md lv by (simp add: stops_def scan_at_def)
    qed
  qed
qed

text \<open>The entry at the end of the directory, if it is in page \<open>k\<close>.\<close>

lemma dir_end_slot:
  assumes "i_size i = dir_size n" and "j < 15"
  shows "GAS_DIR_ENTRY_SIZE * j = gas_last_byte i k \<longleftrightarrow> 15 * k + j = n \<and> (n = 0 \<or> n mod 15 \<noteq> 0)"
proof (cases "n = 0")
  case True
  then show ?thesis using dir_geometry(3) [OF assms(1)] assms(2) by auto
next
  case False
  define h where "h = n - 1"
  have n: "n = Suc h" using False by (simp add: h_def)
  have p: "260 * j < 4096" using assms(2) by linarith
  have q: "15 * (h div 15) + h mod 15 = h" by simp
  have "GAS_DIR_ENTRY_SIZE * j = gas_last_byte i k \<longleftrightarrow> k = h div 15 \<and> j = h mod 15 + 1"
    using dir_geometry(2) [OF assms(1) False, of k] p by (auto simp: h_def)
  also have "\<dots> \<longleftrightarrow> 15 * k + j = n \<and> n mod 15 \<noteq> 0"
  proof
    assume "k = h div 15 \<and> j = h mod 15 + 1"
    then show "15 * k + j = n \<and> n mod 15 \<noteq> 0" using q assms(2) n by (auto simp: mod_Suc)
  next
    assume a: "15 * k + j = n \<and> n mod 15 \<noteq> 0"
    then have "j \<noteq> 0" by auto
    then obtain j' where j: "j = Suc j'" by (cases j) auto
    then have "h = 15 * k + j'" using a n by simp
    then show "k = h div 15 \<and> j = h mod 15 + 1" using j assms(2) by simp
  qed
  finally show ?thesis using False by simp
qed

context directory_io
begin

lemma get_page_readable: "pages_readable K s dir \<Longrightarrow> gas_dir_get_page K s dir k = Inr s"
  using read_mapping by (fastforce simp: pages_readable_def gas_dir_get_page_def)

lemma add_link_pages_slots:
  assumes name: "length name < GAS_MAX_NAME_LEN" and rd: "pages_readable K s dir" and wf: "dir_wf s dir"
    and k: "k \<le> l"
  shows "add_link_pages K [k..<l] s dir name inode =
    (case find (stops s dir name) [15 * k..<15 * l] of
       None \<Rightarrow> Some (Some EINVAL, s)
     | Some m \<Rightarrow> if live s dir m then Some (Some EEXIST, s)
         else add_got_it K s dir (m div 15) (GAS_DIR_ENTRY_SIZE * (m mod 15)) name inode)"
  using k
proof (induction "l - k" arbitrary: k)
  case 0
  then show ?case by simp
next
  case (Suc d)
  then have kl: "k < l" by simp
  obtain n where n: "i_size (icache s dir) = dir_size n" using wf by (auto simp: dir_wf_def)
  have ns: "nslots (icache s dir) = n" by (rule nslots_dir_size [OF n])
  have free: "\<And>m. n \<le> m \<Longrightarrow> \<not> live s dir m" and ok: "\<And>m. m < n \<Longrightarrow> dentry_ok (dslot s dir m)"
    using wf by (simp_all add: dir_wf_def ns)
  define E where "E m \<longleftrightarrow> m = n \<and> (n = 0 \<or> n mod 15 \<noteq> 0)" for m
  have sc: "add_scan (pages s dir k) (gas_last_byte (icache s dir) k) name (page_slots PAGE_CACHE_SIZE) =
      (case find (stops s dir name) [15 * k..<15 * k + 15] of None \<Rightarrow> Page_full | Some m \<Rightarrow> scan_at (E m) s dir m)"
    unfolding page_slots_full
    using add_scan_slots [OF name ok free, where k = k and i = 0 and dir_end = "gas_last_byte (icache s dir) k" and E = E] dir_end_slot [OF n]
    by (auto simp: E_def)
  have up: "[k..<l] = k # [Suc k..<l]" using kl by (rule upt_conv_Cons)
  have split: "[15 * k..<15 * l] = [15 * k..<15 * k + 15] @ [15 * Suc k..<15 * l]"
    using upt_add_eq_append [of "15 * k" "15 * k + 15" "15 * l - (15 * k + 15)"] kl by (simp add: add.commute [of 15])
  show ?case
  proof (cases "find (stops s dir name) [15 * k..<15 * k + 15]")
    case None
    then show ?thesis unfolding up split using get_page_readable [OF rd, of k] sc Suc.hyps(1) [of "Suc k"] Suc.hyps(2) kl
      by (simp add: find_append Let_def del: upt_Suc)
  next
    case (Some m)
    then have m: "m < 15 * k + 15" "15 * k \<le> m" by (auto simp: find_Some_iff)
    have dm: "m div 15 = k" by (intro div_nat_eqI) (use m in auto)
    have same: "set_page dir k (put_le32 (pages s dir k) (GAS_DIR_ENTRY_SIZE * (m mod 15) + 256) 0) s = s" if "\<not> live s dir m"
    proof -
      have "get_le32 (pages s dir k) (GAS_DIR_ENTRY_SIZE * (m mod 15) + 256) = 0"
        using that dm by (simp add: live_def dslot_def load_dentry_def)
      then have "put_le32 (pages s dir k) (GAS_DIR_ENTRY_SIZE * (m mod 15) + 256) 0 = pages s dir k"
        using put_get_le32 by metis
      then show ?thesis by (simp add: set_page_def)
    qed
    have "\<not> live s dir m" if "E m" using that free by (simp add: E_def)
    then show ?thesis unfolding up split using get_page_readable [OF rd, of k] sc Some dm same
      by (cases "E m") (auto simp: find_append Let_def scan_at_def)
  qed
qed

lemma add_link_slots:
  assumes name: "length name < GAS_MAX_NAME_LEN" and rd: "pages_readable K s dir" and wf: "dir_wf s dir"
  shows "\<exists>m\<le>nslots (icache s dir). stops s dir name m \<and> (\<forall>k<m. \<not> stops s dir name k) \<and>
    gas_add_link K s dir name inode = (if live s dir m then Some (Some EEXIST, s)
      else add_got_it K s dir (m div 15) (GAS_DIR_ENTRY_SIZE * (m mod 15)) name inode)"
proof -
  obtain n where n: "i_size (icache s dir) = dir_size n" using wf by (auto simp: dir_wf_def)
  have ns: "nslots (icache s dir) = n" by (rule nslots_dir_size [OF n])
  let ?l = "gas_dir_pages (icache s dir) + 1"
  have "n < 15 * ?l"
    using dir_geometry(1) [OF n] mult_div_mod_eq [of 15 "n - 1"] mod_less_divisor [of 15 "n - 1"] by (auto split: if_splits)
  moreover have st: "stops s dir name n" using wf by (simp add: dir_wf_def ns stops_def)
  ultimately obtain m where m: "find (stops s dir name) [15 * 0..<15 * ?l] = Some m"
    by (cases "find (stops s dir name) [15 * 0..<15 * ?l]") (auto simp: find_None_iff simp del: upt_Suc)
  then obtain j where "j < 15 * ?l" "m = j" "stops s dir name m" "\<And>i. i < j \<Longrightarrow> \<not> stops s dir name i"
    by (auto simp: find_Some_iff simp del: upt_Suc)
  then have mm: "stops s dir name m" "\<And>i. i < m \<Longrightarrow> \<not> stops s dir name i" by blast+
  have "m \<le> n" using st mm(2) by (meson not_le)
  then show ?thesis
    using mm add_link_pages_slots [OF name rd wf, of 0 ?l inode] m ns by (auto simp: gas_add_link_def simp del: upt_Suc)
qed

end

section \<open>The directory as a map\<close>

lemma dir_wf_simps:
  assumes "dir_wf s dir"
  shows "i_size (icache s dir) = dir_size (nslots (icache s dir))"
    "m < nslots (icache s dir) \<Longrightarrow> dentry_ok (dslot s dir m)"
    "live s dir m \<Longrightarrow> live s dir k \<Longrightarrow> de_name (dslot s dir m) = de_name (dslot s dir k) \<Longrightarrow> m = k"
    "live s dir m \<Longrightarrow> m < nslots (icache s dir)"
proof -
  show l: "live s dir m \<Longrightarrow> m < nslots (icache s dir)" for m using assms by (auto simp: dir_wf_def not_le [symmetric])
  show "live s dir m \<Longrightarrow> live s dir k \<Longrightarrow> de_name (dslot s dir m) = de_name (dslot s dir k) \<Longrightarrow> m = k"
    using assms l by (simp add: dir_wf_def)
  show "i_size (icache s dir) = dir_size (nslots (icache s dir))" using assms nslots_dir_size by (auto simp: dir_wf_def)
qed (use assms in \<open>simp add: dir_wf_def\<close>)

lemma dir_wfI:
  assumes "i_size (icache s dir) = dir_size n" and "\<And>m. m < n \<Longrightarrow> dentry_ok (dslot s dir m)"
    and "\<And>m k. live s dir m \<Longrightarrow> live s dir k \<Longrightarrow> de_name (dslot s dir m) = de_name (dslot s dir k) \<Longrightarrow> m = k"
    and "\<And>m. live s dir m \<Longrightarrow> m < n"
  shows "dir_wf s dir" "nslots (icache s dir) = n"
proof -
  show n: "nslots (icache s dir) = n" by (rule nslots_dir_size [OF assms(1)])
  have "\<forall>m\<ge>n. \<not> live s dir m" using assms(4) by (auto simp: not_le [symmetric])
  then show "dir_wf s dir" unfolding dir_wf_def n using assms by blast
qed

lemma dir_map_Some:
  assumes "dir_wf s dir"
  shows "dir_map s dir name = Some v \<longleftrightarrow> (\<exists>m. live s dir m \<and> de_name (dslot s dir m) = name \<and> de_inode (dslot s dir m) = v)"
proof
  assume "dir_map s dir name = Some v"
  then show "\<exists>m. live s dir m \<and> de_name (dslot s dir m) = name \<and> de_inode (dslot s dir m) = v"
    by (auto simp: dir_map_def find_Some_iff)
next
  assume "\<exists>m. live s dir m \<and> de_name (dslot s dir m) = name \<and> de_inode (dslot s dir m) = v"
  then obtain m where m: "live s dir m" "de_name (dslot s dir m) = name" "de_inode (dslot s dir m) = v" by blast
  have lt: "m < nslots (icache s dir)" by (rule dir_wf_simps(4) [OF assms m(1)])
  have "find (\<lambda>m. live s dir m \<and> de_name (dslot s dir m) = name) [0..<nslots (icache s dir)] \<noteq> None"
    unfolding find_None_iff using m lt by auto
  then obtain k where k: "find (\<lambda>m. live s dir m \<and> de_name (dslot s dir m) = name) [0..<nslots (icache s dir)] = Some k" by auto
  then have "live s dir k" "de_name (dslot s dir k) = name" by (auto simp: find_Some_iff)
  then have "k = m" using dir_wf_simps(3) [OF assms _ m(1), of k] m(2) by simp
  then show "dir_map s dir name = Some v" using k m(3) by (simp add: dir_map_def)
qed

lemma dir_map_None:
  assumes "dir_wf s dir"
  shows "dir_map s dir name = None \<longleftrightarrow> (\<forall>m. live s dir m \<longrightarrow> de_name (dslot s dir m) \<noteq> name)"
proof -
  have "dir_map s dir name = None \<longleftrightarrow> (\<forall>v. dir_map s dir name \<noteq> Some v)" by auto
  then show ?thesis unfolding dir_map_Some [OF assms] by blast
qed

lemma option_eqI: "(\<And>v. x = Some v \<longleftrightarrow> y = Some v) \<Longrightarrow> x = y"
  by (cases x; cases y) auto

text \<open>A directory whose pages and size are the same is the same.\<close>

lemma dir_same:
  assumes "pages s' dir = pages s dir" and "i_size (icache s' dir) = i_size (icache s dir)"
  shows "dir_map s' dir = dir_map s dir" "dir_wf s' dir = dir_wf s dir" "dir_list s' dir = dir_list s dir"
proof -
  have n: "nslots (icache s' dir) = nslots (icache s dir)" by (simp add: nslots_def assms)
  have d: "dslot s' dir = dslot s dir" by (rule dslot_cong [OF assms(1)])
  note l = live_cong [OF d]
  show "dir_map s' dir = dir_map s dir" by (rule ext) (simp add: dir_map_def n d l)
  show "dir_wf s' dir = dir_wf s dir" unfolding dir_wf_def n d l assms(2) ..
  show "dir_list s' dir = dir_list s dir" by (simp add: dir_list_def n d l)
qed

text \<open>An entry written to a free slot, and an entry whose inode number is cleared.\<close>

lemma dir_insert:
  assumes wf: "dir_wf s dir" and m: "m \<le> nslots (icache s dir)" and free: "\<not> live s dir m"
    and ds: "dslot s' dir = (dslot s dir)(m := \<lparr>de_name = name, de_inode = v\<rparr>)" and v: "v \<noteq> 0"
    and name: "0 \<notin> set name" "length name < GAS_MAX_NAME_LEN" and new: "dir_map s dir name = None"
    and sz: "i_size (icache s' dir) = max (i_size (icache s dir)) (dir_size (Suc m))"
  shows "dir_wf s' dir" "dir_map s' dir = (dir_map s dir)(name \<mapsto> v)"
proof -
  note w = dir_wf_simps [OF wf] and new' = new [unfolded dir_map_None [OF wf]]
  have lv: "live s' dir k \<longleftrightarrow> k = m \<or> live s dir k" for k by (simp add: live_def ds v)
  have dn: "k \<noteq> m \<Longrightarrow> dslot s' dir k = dslot s dir k" "dslot s' dir m = \<lparr>de_name = name, de_inode = v\<rparr>" for k by (simp_all add: ds)
  show wf': "dir_wf s' dir"
  proof (rule dir_wfI(1))
    show "i_size (icache s' dir) = dir_size (max (nslots (icache s dir)) (Suc m))"
      unfolding sz w(1) by (rule max_dir_size)
    show "dentry_ok (dslot s' dir k)" if "k < max (nslots (icache s dir)) (Suc m)" for k
      using that w(2) [of k] name m by (cases "k = m") (auto simp: dn dentry_ok_def)
    show "j = k" if "live s' dir j" "live s' dir k" "de_name (dslot s' dir j) = de_name (dslot s' dir k)" for j k
      using that w(3) [of j k] new' lv by (cases "j = m"; cases "k = m") (auto simp: dn)
    show "k < max (nslots (icache s dir)) (Suc m)" if "live s' dir k" for k
      using that w(4) [of k] by (auto simp: lv)
  qed
  show "dir_map s' dir = (dir_map s dir)(name \<mapsto> v)"
  proof (intro ext option_eqI)
    fix nm u
    show "dir_map s' dir nm = Some u \<longleftrightarrow> ((dir_map s dir)(name \<mapsto> v)) nm = Some u"
    proof (cases "nm = name")
      case True
      have "dir_map s' dir name = Some v" unfolding dir_map_Some [OF wf'] using lv dn(2) by (intro exI [of _ m]) simp
      then show ?thesis using True by auto
    next
      case False
      have "dir_map s' dir nm = Some u \<longleftrightarrow> dir_map s dir nm = Some u"
        unfolding dir_map_Some [OF wf'] dir_map_Some [OF wf]
      proof
        assume "\<exists>k. live s' dir k \<and> de_name (dslot s' dir k) = nm \<and> de_inode (dslot s' dir k) = u"
        then obtain k where k: "live s' dir k" "de_name (dslot s' dir k) = nm" "de_inode (dslot s' dir k) = u" by blast
        then have "k \<noteq> m" using dn(2) False by auto
        then show "\<exists>k. live s dir k \<and> de_name (dslot s dir k) = nm \<and> de_inode (dslot s dir k) = u"
          using k lv dn(1) by auto
      next
        assume "\<exists>k. live s dir k \<and> de_name (dslot s dir k) = nm \<and> de_inode (dslot s dir k) = u"
        then obtain k where k: "live s dir k" "de_name (dslot s dir k) = nm" "de_inode (dslot s dir k) = u" by blast
        then have "k \<noteq> m" using free by blast
        then show "\<exists>k. live s' dir k \<and> de_name (dslot s' dir k) = nm \<and> de_inode (dslot s' dir k) = u"
          using k lv dn(1) by (intro exI [of _ k]) simp
      qed
      then show ?thesis using False by simp
    qed
  qed
qed

lemma dir_remove:
  assumes wf: "dir_wf s dir" and lm: "live s dir m"
    and ds: "dslot s' dir = (dslot s dir)(m := (dslot s dir m)\<lparr>de_inode := 0\<rparr>)"
    and sz: "i_size (icache s' dir) = i_size (icache s dir)"
  shows "dir_wf s' dir" "dir_map s' dir = (dir_map s dir)(de_name (dslot s dir m) := None)"
proof -
  note w = dir_wf_simps [OF wf]
  have lv: "live s' dir k \<longleftrightarrow> k \<noteq> m \<and> live s dir k" for k by (simp add: live_def ds)
  have dn: "k \<noteq> m \<Longrightarrow> dslot s' dir k = dslot s dir k" "de_name (dslot s' dir k) = de_name (dslot s dir k)" for k by (simp_all add: ds)
  show wf': "dir_wf s' dir"
  proof (rule dir_wfI(1))
    show "i_size (icache s' dir) = dir_size (nslots (icache s dir))" unfolding sz by (rule w(1))
    show "dentry_ok (dslot s' dir k)" if "k < nslots (icache s dir)" for k
      using w(2) [OF that] by (simp add: dentry_ok_def dn)
    show "j = k" if "live s' dir j" "live s' dir k" "de_name (dslot s' dir j) = de_name (dslot s' dir k)" for j k
      using that w(3) [of j k] by (simp add: lv dn)
    show "k < nslots (icache s dir)" if "live s' dir k" for k using that w(4) by (simp add: lv)
  qed
  show "dir_map s' dir = (dir_map s dir)(de_name (dslot s dir m) := None)"
  proof (intro ext option_eqI)
    fix nm u
    have "dir_map s' dir nm = Some u \<longleftrightarrow> nm \<noteq> de_name (dslot s dir m) \<and> dir_map s dir nm = Some u"
      unfolding dir_map_Some [OF wf'] dir_map_Some [OF wf] using lv dn w(3) lm by metis
    then show "dir_map s' dir nm = Some u \<longleftrightarrow> ((dir_map s dir)(de_name (dslot s dir m) := None)) nm = Some u" by simp
  qed
qed

section \<open>Operations on the map\<close>

lemma local_op_ino: "local_op I ino s s' \<Longrightarrow> i_ino (icache s' k) = i_ino (icache s k)"
  by (cases "k = ino") (simp_all add: local_op_def)

context directory_io
begin

text \<open>Writing the entry of a free slot, whatever the other slots hold.\<close>

lemma add_got_it_cases:
  assumes ok: "vol_ok I s" and dir: "dir \<in> I" and name: "0 \<notin> set name" "length name < GAS_MAX_NAME_LEN"
    and v: "v = word_of_nat (i_ino (icache s inode))"
  shows "\<exists>e1 s1 e s'. gas_dir_prepare_chunk K s dir (m div 15) (page_offset (m div 15) + GAS_DIR_ENTRY_SIZE * (m mod 15)) GAS_DIR_ENTRY_SIZE =
      Some (e1, s1) \<and>
    add_got_it K s dir (m div 15) (GAS_DIR_ENTRY_SIZE * (m mod 15)) name inode = Some (e, s') \<and> local_op I dir s s' \<and>
    (if e1 = None
     then dslot s' dir = (dslot s dir)(m := \<lparr>de_name = name, de_inode = v\<rparr>) \<and>
       i_size (icache s' dir) = max (i_size (icache s dir)) (dir_size (Suc m))
     else e = e1 \<and> s' = s1 \<and> pages s' = pages s \<and> i_size (icache s' dir) = i_size (icache s dir))"
proof -
  define n p where "n = m div 15" and "p = GAS_DIR_ENTRY_SIZE * (m mod 15)"
  define pos where "pos = page_offset n + p"
  have pos: "pos + GAS_DIR_ENTRY_SIZE = dir_size (Suc m)" using slot_end [of m] by (simp add: pos_def n_def p_def)
  obtain e1 s1 where c: "gas_dir_prepare_chunk K s dir n pos GAS_DIR_ENTRY_SIZE = Some (e1, s1)" and
    l1: "local_op I dir s s1" and f1: "pages s1 = pages s" "i_size (icache s1 dir) = i_size (icache s dir)"
    using prepare_chunk_local [OF ok dir] by blast
  show ?thesis
  proof (cases e1)
    case (Some e)
    then show ?thesis
      using c l1 f1 by (simp add: add_got_it_def Let_def n_def [symmetric] p_def [symmetric] pos_def [symmetric] del: split_paired_Ex)
  next
    case None
    let ?de = "\<lparr>de_name = name, de_inode = v\<rparr>"
    define s2 where "s2 = set_page dir n (store_dentry (pages s1 dir n) p ?de) s1"
    obtain e3 s3 where r3: "gas_dir_commit_chunk K s2 dir n pos GAS_DIR_ENTRY_SIZE = (e3, s3)" by fastforce
    have l2: "local_op I dir s1 s2" unfolding s2_def by (rule set_page_local [OF local_op_ok [OF l1]])
    note c3 = commit_chunk_local [OF local_op_ok [OF l2] r3]
    define s4 where "s4 = touch_dir K dir s3"
    note t4 = touch_dir_local [OF local_op_ok [OF c3(1)], of dir, folded s4_def]
    have vi: "word_of_nat (i_ino (icache s1 inode)) = v" using local_op_ino [OF l1] v by simp
    have res: "add_got_it K s dir n p name inode = Some (e3, s4)"
      unfolding add_got_it_def Let_def pos_def [symmetric] c None option.case prod.case vi s2_def [symmetric] r3
      by (simp add: s4_def touch_dir_def Let_def)
    have "dslot s4 dir = dslot s2 dir" by (rule dslot_cong) (simp add: t4(2) c3(2))
    moreover have "dslot s2 dir k = (if k = m then ?de else dslot s1 dir k)" for k
      unfolding s2_def n_def p_def by (rule dslot_store) (use name in \<open>simp add: dentry_ok_def\<close>)
    moreover have "dslot s1 dir = dslot s dir" by (rule dslot_cong) (simp add: f1)
    ultimately have ds: "dslot s4 dir = (dslot s dir)(m := ?de)" by (auto simp: fun_eq_iff)
    have sz: "i_size (icache s4 dir) = max (i_size (icache s dir)) (dir_size (Suc m))"
      using t4(3) c3(3) f1(2) pos by (simp add: s2_def)
    have "local_op I dir s s4" using l1 l2 c3(1) t4(1) local_op_trans by blast
    then show ?thesis using c None res ds sz unfolding n_def p_def pos_def by auto
  qed
qed

lemma add_got_it_slots:
  assumes "vol_ok I s" and "dir \<in> I" and "0 \<notin> set name" "length name < GAS_MAX_NAME_LEN"
    and "v = word_of_nat (i_ino (icache s inode))"
  shows "\<exists>e s'. add_got_it K s dir (m div 15) (GAS_DIR_ENTRY_SIZE * (m mod 15)) name inode = Some (e, s') \<and>
    local_op I dir s s' \<and>
    (dslot s' dir = (dslot s dir)(m := \<lparr>de_name = name, de_inode = v\<rparr>) \<and>
       i_size (icache s' dir) = max (i_size (icache s dir)) (dir_size (Suc m)) \<or>
     e \<noteq> None \<and> pages s' = pages s \<and> i_size (icache s' dir) = i_size (icache s dir))"
proof -
  obtain e1 s1 e s' where r: "add_got_it K s dir (m div 15) (GAS_DIR_ENTRY_SIZE * (m mod 15)) name inode = Some (e, s')" "local_op I dir s s'"
    and c: "if e1 = None
     then dslot s' dir = (dslot s dir)(m := \<lparr>de_name = name, de_inode = v\<rparr>) \<and>
       i_size (icache s' dir) = max (i_size (icache s dir)) (dir_size (Suc m))
     else e = e1 \<and> s' = s1 \<and> pages s' = pages s \<and> i_size (icache s' dir) = i_size (icache s dir)"
    using add_got_it_cases [OF assms, of m] by blast
  show ?thesis using r c by (cases e1) auto
qed

lemma add_got_it_map:
  assumes ok: "vol_ok I s" and dir: "dir \<in> I" and wf: "dir_wf s dir" and name: "0 \<notin> set name" "length name < GAS_MAX_NAME_LEN"
    and m: "m \<le> nslots (icache s dir)" "\<not> live s dir m" and new: "dir_map s dir name = None"
    and v: "v = word_of_nat (i_ino (icache s inode))" "v \<noteq> 0"
  shows "\<exists>e s'. add_got_it K s dir (m div 15) (GAS_DIR_ENTRY_SIZE * (m mod 15)) name inode = Some (e, s') \<and>
    local_op I dir s s' \<and> dir_wf s' dir \<and>
    (dir_map s' dir = (dir_map s dir)(name \<mapsto> v) \<or> e \<noteq> None \<and> dir_map s' dir = dir_map s dir)"
proof -
  obtain e s' where r: "add_got_it K s dir (m div 15) (GAS_DIR_ENTRY_SIZE * (m mod 15)) name inode = Some (e, s')"
    "local_op I dir s s'" and o: "dslot s' dir = (dslot s dir)(m := \<lparr>de_name = name, de_inode = v\<rparr>) \<and>
       i_size (icache s' dir) = max (i_size (icache s dir)) (dir_size (Suc m)) \<or>
     e \<noteq> None \<and> pages s' = pages s \<and> i_size (icache s' dir) = i_size (icache s dir)"
    using add_got_it_slots [OF ok dir name v(1)] by blast
  from o show ?thesis
  proof
    assume "dslot s' dir = (dslot s dir)(m := \<lparr>de_name = name, de_inode = v\<rparr>) \<and>
      i_size (icache s' dir) = max (i_size (icache s dir)) (dir_size (Suc m))"
    then show ?thesis using r dir_insert [OF wf m _ v(2) name new] by blast
  next
    assume a: "e \<noteq> None \<and> pages s' = pages s \<and> i_size (icache s' dir) = i_size (icache s dir)"
    then have "pages s' dir = pages s dir" "i_size (icache s' dir) = i_size (icache s dir)" by simp_all
    from dir_same [OF this] show ?thesis using r wf a by auto
  qed
qed

lemma stops_new: "dir_wf s dir \<Longrightarrow> dir_map s dir name = None \<Longrightarrow> stops s dir name m \<longleftrightarrow> \<not> live s dir m"
  by (auto simp: stops_def dir_map_None)

lemma add_link_map:
  assumes ok: "vol_ok I s" and dir: "dir \<in> I" and wf: "dir_wf s dir" and rd: "pages_readable K s dir"
    and name: "0 \<notin> set name" "length name < GAS_MAX_NAME_LEN" and new: "dir_map s dir name = None"
    and v: "v = word_of_nat (i_ino (icache s inode))" "v \<noteq> 0"
  shows "\<exists>e s'. gas_add_link K s dir name inode = Some (e, s') \<and> local_op I dir s s' \<and> dir_wf s' dir \<and>
    (dir_map s' dir = (dir_map s dir)(name \<mapsto> v) \<or> e \<noteq> None \<and> dir_map s' dir = dir_map s dir)"
proof -
  obtain m where m: "m \<le> nslots (icache s dir)" "stops s dir name m"
    and r: "gas_add_link K s dir name inode = (if live s dir m then Some (Some EEXIST, s)
      else add_got_it K s dir (m div 15) (GAS_DIR_ENTRY_SIZE * (m mod 15)) name inode)"
    using add_link_slots [OF name(2) rd wf] by blast
  have free: "\<not> live s dir m" using m(2) stops_new [OF wf new] by blast
  show ?thesis using add_got_it_map [OF ok dir wf name m(1) free new v] unfolding r if_not_P [OF free] .
qed

text \<open>A full directory refuses a name it has.\<close>

lemma add_link_exists:
  assumes wf: "dir_wf s dir" and rd: "pages_readable K s dir" and name: "length name < GAS_MAX_NAME_LEN"
    and old: "dir_map s dir name \<noteq> None" and full: "\<And>m. m < nslots (icache s dir) \<Longrightarrow> live s dir m"
  shows "gas_add_link K s dir name inode = Some (Some EEXIST, s)"
proof -
  obtain m where m: "m \<le> nslots (icache s dir)" "\<forall>k<m. \<not> stops s dir name k"
    and r: "gas_add_link K s dir name inode = (if live s dir m then Some (Some EEXIST, s)
      else add_got_it K s dir (m div 15) (GAS_DIR_ENTRY_SIZE * (m mod 15)) name inode)"
    using add_link_slots [OF name rd wf] by blast
  obtain k where k: "live s dir k" "de_name (dslot s dir k) = name" using old unfolding dir_map_None [OF wf] by blast
  then have "m \<le> k" using m(2) by (meson not_le stops_def)
  then have "m < nslots (icache s dir)" using dir_wf_simps(4) [OF wf k(1)] by simp
  then show ?thesis using r full by simp
qed

lemma find_entry_map:
  assumes wf: "dir_wf s dir" and rd: "pages_readable K s dir" and name: "length name < GAS_MAX_NAME_LEN"
  shows "\<exists>d. gas_find_entry K s dir name = (d, s) \<and>
    (case d of None \<Rightarrow> dir_map s dir name = None
     | Some (n, p) \<Rightarrow> \<exists>m. n = m div 15 \<and> p = GAS_DIR_ENTRY_SIZE * (m mod 15) \<and> live s dir m \<and> de_name (dslot s dir m) = name \<and>
         dir_map s dir name = Some (de_inode (load_dentry (pages s dir n) p)))"
proof (cases "find (\<lambda>m. live s dir m \<and> de_name (dslot s dir m) = name) [0..<nslots (icache s dir)]")
  case None
  then show ?thesis using find_entry_slots [OF name rd wf] by (simp add: dir_map_def)
next
  case (Some m)
  then have "live s dir m" "de_name (dslot s dir m) = name" by (auto simp: find_Some_iff)
  then show ?thesis using Some find_entry_slots [OF name rd wf] by (auto simp: dir_map_def dslot_def)
qed

lemma delete_entry_map:
  assumes ok: "vol_ok I s" and dir: "dir \<in> I" and wf: "dir_wf s dir" and m: "live s dir m"
  shows "\<exists>e s'. gas_delete_entry K s dir (m div 15, GAS_DIR_ENTRY_SIZE * (m mod 15)) = Some (e, s') \<and>
    local_op I dir s s' \<and> dir_wf s' dir \<and>
    (dir_map s' dir = (dir_map s dir)(de_name (dslot s dir m) := None) \<or> e \<noteq> None \<and> dir_map s' dir = dir_map s dir)"
proof -
  define n p where "n = m div 15" and "p = GAS_DIR_ENTRY_SIZE * (m mod 15)"
  define pos where "pos = page_offset n + p"
  have pos: "pos + GAS_DIR_ENTRY_SIZE = dir_size (Suc m)" using slot_end [of m] by (simp add: pos_def n_def p_def)
  note w = dir_wf_simps [OF wf]
  obtain e1 s1 where c: "gas_dir_prepare_chunk K s dir n pos GAS_DIR_ENTRY_SIZE = Some (e1, s1)" and
    l1: "local_op I dir s s1" and f1: "pages s1 = pages s" "i_size (icache s1 dir) = i_size (icache s dir)"
    using prepare_chunk_local [OF ok dir] by blast
  show ?thesis
  proof (cases e1)
    case (Some e)
    note t = touch_dir_local [OF local_op_ok [OF l1], of dir]
    have "local_op I dir s (touch_dir K dir s1)" by (rule local_op_trans [OF l1 t(1)])
    moreover have "pages (touch_dir K dir s1) dir = pages s dir" "i_size (icache (touch_dir K dir s1) dir) = i_size (icache s dir)"
      using t(2,3) f1 by simp_all
    note dir_same [OF this]
    moreover have "gas_delete_entry K s dir (n, p) = Some (Some e, touch_dir K dir s1)"
      using c Some by (simp add: gas_delete_entry_def Let_def pos_def)
    ultimately show ?thesis using wf unfolding n_def p_def by (intro exI [of _ "Some e"] exI [of _ "touch_dir K dir s1"]) simp
  next
    case None
    define s2 where "s2 = set_page dir n (put_le32 (pages s1 dir n) (p + 256) 0) s1"
    obtain e3 s3 where r3: "gas_dir_commit_chunk K s2 dir n pos GAS_DIR_ENTRY_SIZE = (e3, s3)" by fastforce
    have l2: "local_op I dir s1 s2" unfolding s2_def by (rule set_page_local [OF local_op_ok [OF l1]])
    note c3 = commit_chunk_local [OF local_op_ok [OF l2] r3]
    define s4 where "s4 = touch_dir K dir s3"
    note t4 = touch_dir_local [OF local_op_ok [OF c3(1)], of dir, folded s4_def]
    have res: "gas_delete_entry K s dir (n, p) = Some (e3, s4)"
      using c None r3 by (simp add: gas_delete_entry_def Let_def pos_def s2_def s4_def)
    have "dslot s4 dir = dslot s2 dir" by (rule dslot_cong) (simp add: t4(2) c3(2))
    moreover have "dslot s2 dir k = (if k = m then (dslot s1 dir k)\<lparr>de_inode := 0\<rparr> else dslot s1 dir k)" for k
      unfolding s2_def n_def p_def by (rule dslot_put_inode)
    moreover have "dslot s1 dir = dslot s dir" by (rule dslot_cong) (simp add: f1)
    ultimately have ds: "dslot s4 dir = (dslot s dir)(m := (dslot s dir m)\<lparr>de_inode := 0\<rparr>)" by (auto simp: fun_eq_iff)
    have "dir_size (Suc m) \<le> i_size (icache s dir)"
      using w(1) w(4) [OF m] strict_mono_less_eq [OF dir_size_mono] by simp
    then have sz: "i_size (icache s4 dir) = i_size (icache s dir)" using t4(3) c3(3) f1(2) pos by (simp add: s2_def)
    have "local_op I dir s s4" using l1 l2 c3(1) t4(1) local_op_trans by blast
    then show ?thesis using res dir_remove [OF wf m ds sz] by (auto simp: n_def p_def)
  qed
qed

end

end
