(* ===== verification/Gas_Dir_Iterate.thy ===== *)
theory Gas_Dir_Iterate
  imports Gas_Dir_Map
begin

text \<open>
  Reading a directory: \<^verbatim>\<open>gas_iterate\<close> with any actor against a walk over the list of entries, the lookup
  of a name built on it, the test for emptiness and the initial contents of a directory
  (\<^verbatim>\<open>src/kern/gas_dir.c\<close>). The walk is right for directories of one page; beyond 15 slots the loop leaves
  the page.
\<close>

section \<open>Emitting one entry\<close>

lemma emit_slot:
  assumes ok: "dentry_ok (load_dentry b off)" and off: "off + GAS_DIR_ENTRY_SIZE \<le> PAGE_CACHE_SIZE"
  shows "gas_dir_emit ctx b off = Some (let d = load_dentry b off in
    if de_inode d = 0 then (True, ctx) else dir_emit ctx (de_name d) (length (de_name d)) (unat (de_inode d)) DT_UNKNOWN)"
proof -
  have len: "length (cstr b off 256) < 256" using ok by (simp add: dentry_ok_def load_dentry_def)
  have big: "256 \<le> 4096 - off" using off by simp
  have c: "cstr b off (4096 - off) = cstr b off 256" by (rule cstr_mono [OF len big])
  have "length (cstr b off (4096 - off)) < 4096 - off" unfolding c using len big by linarith
  from strlen_cstr [OF this] have "strlen b off (4096 - off) = Some (length (cstr b off 256))" unfolding c .
  moreover have "map b [off..<off + length (cstr b off 256)] = cstr b off 256" by (rule map_cstr)
  moreover have "unat v = 0 \<longleftrightarrow> v = 0" for v :: u32 by (simp add: unat_eq_0)
  ultimately show ?thesis using off unfolding gas_dir_emit_def load_dentry_def Let_def by simp
qed

text \<open>An offset from which an entry would not fit into the page.\<close>

lemma emit_overrun: "PAGE_CACHE_SIZE < off + GAS_DIR_ENTRY_SIZE \<Longrightarrow> gas_dir_emit ctx b off = None"
  by (simp add: gas_dir_emit_def split: option.split)

section \<open>The walk over the entries\<close>

fun visit :: "'c dir_context \<Rightarrow> gas_dir_entry list \<Rightarrow> bool \<times> 'c dir_context" where
  "visit ctx [] = (False, ctx)"
| "visit ctx (d # ds) =
     (let (go, ctx') = (if de_inode d = 0 then (True, ctx)
        else dir_emit ctx (de_name d) (length (de_name d)) (unat (de_inode d)) DT_UNKNOWN)
      in if go then visit (ctx'\<lparr>ctx_pos := ctx_pos ctx' + GAS_DIR_ENTRY_SIZE\<rparr>) ds else (True, ctx'))"

lemma dir_emit_pos: "ctx_pos (snd (dir_emit ctx name len ino ty)) = ctx_pos ctx"
  by (simp add: dir_emit_def split: prod.split)

text \<open>
  The loop over a page visits the entries up to the end of the directory, in a directory that goes on
  (\<open>n > 15\<close>) up to the fifteenth, and is then at offset 3900.
\<close>

lemma iterate_page_visit:
  assumes sz: "sz = dir_size n" and ok: "\<And>j. j < 15 \<Longrightarrow> j < n \<Longrightarrow> dentry_ok (load_dentry b (GAS_DIR_ENTRY_SIZE * j))"
    and i: "i \<le> 15" "i \<le> n" and pos: "ctx_pos ctx = GAS_DIR_ENTRY_SIZE * i"
  shows "iterate_page b sz (GAS_DIR_ENTRY_SIZE * i) ctx =
    (let (stop, ctx') = visit ctx (map (\<lambda>j. load_dentry b (GAS_DIR_ENTRY_SIZE * j)) [i..<min n 15])
     in if stop \<or> n \<le> 15 then Some (stop, ctx') else None)"
  using i pos
proof (induction "15 - i" arbitrary: i ctx)
  case 0
  then have i: "i = 15" by simp
  have "i < n \<longleftrightarrow> 3900 < sz"
    using strict_mono_less [OF dir_size_mono, of 15 n] sz i by (simp add: dir_size_def)
  then show ?case
    using 0 i emit_overrun [of 3900 ctx b] by (subst iterate_page.simps) auto
next
  case (Suc d)
  then have i: "i < 15" by simp
  let ?p = "GAS_DIR_ENTRY_SIZE * i"
  have szi: "?p = dir_size i" if "i \<noteq> 0"
    using that i by (cases i) (simp_all add: dir_size_def)
  have less: "?p < sz \<longleftrightarrow> i < n"
  proof (cases "i = 0")
    case True
    then show ?thesis using dir_size_mono sz by (simp add: strict_mono_less [OF dir_size_mono, of 0 n, simplified dir_size_def, simplified] dir_size_def)
  qed (use szi strict_mono_less [OF dir_size_mono, of i n] sz in simp)
  show ?case
  proof (cases "i < n")
    case False
    then show ?thesis using Suc.prems less i by (subst iterate_page.simps) simp
  next
    case True
    have p: "?p + 260 \<le> 4096" using i by linarith
    let ?d = "load_dentry b ?p"
    have e: "gas_dir_emit ctx b ?p = Some (let d = ?d in if de_inode d = 0 then (True, ctx)
        else dir_emit ctx (de_name d) (length (de_name d)) (unat (de_inode d)) DT_UNKNOWN)"
      by (rule emit_slot [OF ok [OF i True] p])
    obtain go ctx' where g: "(let d = ?d in if de_inode d = 0 then (True, ctx)
        else dir_emit ctx (de_name d) (length (de_name d)) (unat (de_inode d)) DT_UNKNOWN) = (go, ctx')" by fastforce
    have cp: "ctx_pos ctx' = ctx_pos ctx"
      using g dir_emit_pos [of ctx "de_name ?d" "length (de_name ?d)" "unat (de_inode ?d)" DT_UNKNOWN] by (auto simp: Let_def split: if_splits)
    have up: "[i..<min n 15] = i # [Suc i..<min n 15]" using True i by (simp add: upt_conv_Cons)
    have ih: "iterate_page b sz (?p + 260) (ctx'\<lparr>ctx_pos := ctx_pos ctx' + 260\<rparr>) =
      (let (stop, c) = visit (ctx'\<lparr>ctx_pos := ctx_pos ctx' + 260\<rparr>) (map (\<lambda>j. load_dentry b (GAS_DIR_ENTRY_SIZE * j)) [Suc i..<min n 15])
       in if stop \<or> n \<le> 15 then Some (stop, c) else None)"
      using Suc.hyps(1) [of "Suc i" "ctx'\<lparr>ctx_pos := ctx_pos ctx' + 260\<rparr>"] Suc.hyps(2) i True Suc.prems(3) cp
      by (simp add: add.commute)
    have lt: "?p < 4096" "ctx_pos ctx < sz" using p Suc.prems(3) less True by simp_all
    show ?thesis
      unfolding up using g ih
      by (subst iterate_page.simps) (simp add: lt e Let_def split: bool.split)
  qed
qed

context directory_io
begin

lemma iterate_visit:
  assumes wf: "dir_wf s dir" and rd: "pages_readable K s dir" and i: "i \<le> nslots (icache s dir)" "i \<le> 15"
    and pos: "ctx_pos ctx = GAS_DIR_ENTRY_SIZE * i"
  shows "gas_iterate K s dir ctx =
    (let (stop, ctx') = visit ctx (map (dslot s dir) [i..<min (nslots (icache s dir)) 15])
     in if stop \<or> nslots (icache s dir) \<le> 15 then Some (None, ctx', s) else None)"
proof -
  define n where "n = nslots (icache s dir)"
  have sz: "i_size (icache s dir) = dir_size n" using dir_wf_simps(1) [OF wf] by (simp add: n_def)
  have p: "260 * i < 4096" using i(2) by linarith
  have q: "gas_dir_entry_page (ctx_pos ctx) = 0" "gas_dir_entry_offset (ctx_pos ctx) = 260 * i"
    unfolding gas_dir_entry_page_def gas_dir_entry_offset_def and_4095 pos using p by (simp_all add: drop_bit_eq_div)
  have ok: "dentry_ok (load_dentry (pages s dir 0) (GAS_DIR_ENTRY_SIZE * j))" if "j < 15" "j < n" for j
    using dir_wf_simps(2) [OF wf, of j] dslot_page [OF that(1), of s dir 0] that by (simp add: n_def)
  have ds: "map (dslot s dir) [i..<min n 15] = map (\<lambda>j. load_dentry (pages s dir 0) (GAS_DIR_ENTRY_SIZE * j)) [i..<min n 15]"
    using dslot_page [of _ s dir 0] by simp
  have it: "iterate_page (pages s dir 0) (i_size (icache s dir)) (GAS_DIR_ENTRY_SIZE * i) ctx =
    (let (stop, ctx') = visit ctx (map (dslot s dir) [i..<min n 15]) in if stop \<or> n \<le> 15 then Some (stop, ctx') else None)"
    unfolding sz ds by (rule iterate_page_visit [OF refl ok i(2) _ pos]) (use i(1) in \<open>simp_all add: n_def\<close>)
  show ?thesis
  proof (cases "n = 0")
    case True
    then show ?thesis using i(1) q dir_geometry(1) [OF sz] by (simp add: gas_iterate_def Let_def n_def [symmetric])
  next
    case False
    obtain stop c where v: "visit ctx (map (dslot s dir) [i..<min n 15]) = (stop, c)" by fastforce
    have up: "[0..<gas_dir_pages (icache s dir)] = 0 # [1..<gas_dir_pages (icache s dir)]"
      using dir_geometry(1) [OF sz] False by (simp add: upt_conv_Cons)
    have one: "n \<le> 15 \<Longrightarrow> gas_dir_pages (icache s dir) = 1" using dir_geometry(1) [OF sz] False by simp
    show ?thesis
      unfolding gas_iterate_def Let_def q up n_def [symmetric] v
      using get_page_readable [OF rd, of 0] it v one by (cases stop) (auto simp: Let_def)
  qed
qed

section \<open>Looking up a name\<close>

lemma visit_match:
  assumes "actor ctx = gas_match" and "match_len (ctx_data ctx) = length (match_name (ctx_data ctx))"
  shows "visit ctx ds = (case find (\<lambda>d. de_inode d \<noteq> 0 \<and> de_name d = match_name (ctx_data ctx)) ds of
      None \<Rightarrow> (False, ctx\<lparr>ctx_pos := ctx_pos ctx + GAS_DIR_ENTRY_SIZE * length ds\<rparr>)
    | Some d \<Rightarrow> (True, snd (visit ctx ds)))
    \<and> (case find (\<lambda>d. de_inode d \<noteq> 0 \<and> de_name d = match_name (ctx_data ctx)) ds of
      None \<Rightarrow> True | Some d \<Rightarrow> match_ino (ctx_data (snd (visit ctx ds))) = unat (de_inode d))"
  using assms
proof (induction ds arbitrary: ctx)
  case Nil
  then show ?case by simp
next
  case (Cons d ds)
  let ?n = "match_name (ctx_data ctx)"
  have m: "dir_emit ctx (de_name d) (length (de_name d)) u DT_UNKNOWN =
      (if de_name d = ?n then (False, ctx\<lparr>ctx_data := (ctx_data ctx)\<lparr>match_ino := u\<rparr>\<rparr>) else (True, ctx))" for u
    using Cons.prems by (auto simp: dir_emit_def gas_match_def)
  let ?c = "ctx\<lparr>ctx_pos := ctx_pos ctx + GAS_DIR_ENTRY_SIZE\<rparr>"
  have ih: "visit ?c ds = (case find (\<lambda>d. de_inode d \<noteq> 0 \<and> de_name d = ?n) ds of
      None \<Rightarrow> (False, ?c\<lparr>ctx_pos := ctx_pos ?c + GAS_DIR_ENTRY_SIZE * length ds\<rparr>)
    | Some d \<Rightarrow> (True, snd (visit ?c ds)))
    \<and> (case find (\<lambda>d. de_inode d \<noteq> 0 \<and> de_name d = ?n) ds of
      None \<Rightarrow> True | Some d \<Rightarrow> match_ino (ctx_data (snd (visit ?c ds))) = unat (de_inode d))"
    using Cons.IH [of ?c] Cons.prems by simp
  show ?case
  proof (cases "de_inode d \<noteq> 0 \<and> de_name d = ?n")
    case True
    then show ?thesis using m by (simp add: Let_def)
  next
    case False
    then have "visit ctx (d # ds) = visit ?c ds" using m by (auto simp: Let_def)
    moreover have "find (\<lambda>d. de_inode d \<noteq> 0 \<and> de_name d = ?n) (d # ds) = find (\<lambda>d. de_inode d \<noteq> 0 \<and> de_name d = ?n) ds"
      using False by auto
    moreover have "?c\<lparr>ctx_pos := ctx_pos ?c + 260 * length ds\<rparr> = ctx\<lparr>ctx_pos := ctx_pos ctx + 260 * length (d # ds)\<rparr>" by simp
    ultimately show ?thesis using ih by (simp only:)
  qed
qed

lemma find_slots:
  "find (\<lambda>d. de_inode d \<noteq> 0 \<and> de_name d = name) (map (dslot s dir) xs) =
    map_option (dslot s dir) (find (\<lambda>m. live s dir m \<and> de_name (dslot s dir m) = name) xs)"
  by (simp add: find_map o_def live_def)

lemma inode_by_name_map:
  assumes wf: "dir_wf s dir" and rd: "pages_readable K s dir"
  shows "nslots (icache s dir) \<le> 15 \<Longrightarrow> gas_inode_by_name K s dir name =
      Some (case dir_map s dir name of None \<Rightarrow> 0 | Some v \<Rightarrow> unat v, s)"
    and "15 < nslots (icache s dir) \<Longrightarrow> (\<And>m. m < 15 \<Longrightarrow> live s dir m \<Longrightarrow> de_name (dslot s dir m) \<noteq> name) \<Longrightarrow>
      gas_inode_by_name K s dir name = None"
proof -
  let ?n = "nslots (icache s dir)"
  define ctx where "ctx = \<lparr>actor = gas_match, ctx_pos = 0, ctx_data = \<lparr>match_ino = 0, match_name = name, match_len = length name\<rparr>\<rparr>"
  have c: "actor ctx = gas_match" "match_len (ctx_data ctx) = length (match_name (ctx_data ctx))" "match_name (ctx_data ctx) = name"
    "match_ino (ctx_data ctx) = 0" "ctx_pos ctx = GAS_DIR_ENTRY_SIZE * 0" by (simp_all add: ctx_def)
  note v = visit_match [OF c(1,2), unfolded c(3), of "map (dslot s dir) [0..<min ?n 15]", unfolded find_slots]
  note it = iterate_visit [OF wf rd _ _ c(5)]
  have b: "gas_inode_by_name K s dir name = map_option (\<lambda>(err, ctx, s). (match_ino (ctx_data ctx), s)) (gas_iterate K s dir ctx)"
    by (simp add: gas_inode_by_name_def ctx_def)
  show "gas_inode_by_name K s dir name = Some (case dir_map s dir name of None \<Rightarrow> 0 | Some v \<Rightarrow> unat v, s)" if n: "?n \<le> 15"
  proof (cases "find (\<lambda>m. live s dir m \<and> de_name (dslot s dir m) = name) [0..<?n]")
    case None
    then show ?thesis using v n it c(4) unfolding b by (simp add: dir_map_def min_absorb1)
  next
    case (Some m)
    then obtain ctx' where "visit ctx (map (dslot s dir) [0..<?n]) = (True, ctx')" "match_ino (ctx_data ctx') = unat (de_inode (dslot s dir m))"
      using v n by (cases "visit ctx (map (dslot s dir) [0..<?n])") (simp add: min_absorb1)
    then show ?thesis using n it Some unfolding b by (simp add: dir_map_def min_absorb1)
  qed
  show "gas_inode_by_name K s dir name = None" if n: "15 < ?n" and no: "\<And>m. m < 15 \<Longrightarrow> live s dir m \<Longrightarrow> de_name (dslot s dir m) \<noteq> name"
  proof -
    have "find (\<lambda>m. live s dir m \<and> de_name (dslot s dir m) = name) [0..<15] = None"
      using no by (auto simp: find_None_iff simp del: upt_rec_numeral)
    then show ?thesis using v n it unfolding b by (simp add: min_absorb2 del: upt_rec_numeral)
  qed
qed

end

section \<open>Emptiness\<close>

text \<open>What an empty directory may hold: \<open>.\<close> for itself, and \<open>..\<close>.\<close>

definition harmless :: "nat \<Rightarrow> gas_dir_entry \<Rightarrow> bool" where
  "harmless i_no d \<longleftrightarrow> de_name d = dotdot \<or> de_name d = dot \<and> unat (de_inode d) = i_no"

lemma not_empty_entry: "not_empty b i_no p \<longleftrightarrow> de_inode (load_dentry b p) \<noteq> 0 \<and> \<not> harmless i_no (load_dentry b p)"
proof -
  have u: "cstr b p 256 = (if b p = 0 then [] else b p # (if b (p + 1) = 0 then [] else b (p + 1) #
      (if b (p + 2) = 0 then [] else b (p + 2) # cstr b (p + 3) 253)))"
    by (simp add: eval_nat_numeral)
  have "cstr b p 256 = [46] \<longleftrightarrow> b p = 46 \<and> b (p + 1) = 0" "cstr b p 256 = [46, 46] \<longleftrightarrow> b p = 46 \<and> b (p + 1) = 46 \<and> b (p + 2) = 0"
    unfolding u by auto
  then show ?thesis by (auto simp: not_empty_def harmless_def load_dentry_def dot_def dotdot_def)
qed

text \<open>The slots that the loops over a page with limit \<^verbatim>\<open>gas_last_byte\<close> see.\<close>

lemma page_slots_last:
  assumes sz: "i_size i = dir_size n" and k: "k < gas_dir_pages i"
  shows "set (page_slots (gas_last_byte i k)) = (\<lambda>m. GAS_DIR_ENTRY_SIZE * (m mod 15)) ` {m. m div 15 = k \<and> m < n}"
proof -
  have n: "n \<noteq> 0" "k \<le> (n - 1) div 15" using k dir_geometry(1) [OF sz] by (auto split: if_splits)
  define h where "h = n - 1"
  have h: "n = Suc h" using n by (simp add: h_def)
  define r where "r = (if k = h div 15 then h mod 15 + 1 else 15)"
  have ps: "page_slots (gas_last_byte i k) = map ((*) GAS_DIR_ENTRY_SIZE) [0..<r]"
    using dir_geometry(2) [OF sz n(1), of k] page_slots_full page_slots_part [of "h mod 15 + 1"] by (simp add: r_def h_def)
  have q: "15 * (h div 15) + h mod 15 = h" "h mod 15 < 15" by simp_all
  have in_page: "15 * k + j < n \<longleftrightarrow> j < r" if "j < 15" for j
  proof (cases "k = h div 15")
    case True
    then have "15 * k + h mod 15 = h" using q(1) by simp
    then show ?thesis unfolding r_def if_P [OF True] h by linarith
  next
    case False
    then have "Suc k \<le> h div 15" using n(2) by (simp add: h_def)
    then have "15 * Suc k \<le> 15 * (h div 15)" by (rule mult_le_mono2)
    then show ?thesis using False q that h by (simp add: r_def)
  qed
  have r: "r \<le> 15" using q(2) by (auto simp: r_def)
  show ?thesis
  proof (intro equalityI subsetI)
    fix p
    assume "p \<in> set (page_slots (gas_last_byte i k))"
    then obtain j where j: "j < r" "p = 260 * j" unfolding ps by auto
    then have "15 * k + j \<in> {m. m div 15 = k \<and> m < n}" "p = 260 * ((15 * k + j) mod 15)"
      using in_page [of j] r by simp_all
    then show "p \<in> (\<lambda>m. 260 * (m mod 15)) ` {m. m div 15 = k \<and> m < n}" by blast
  next
    fix p
    assume "p \<in> (\<lambda>m. 260 * (m mod 15)) ` {m. m div 15 = k \<and> m < n}"
    then obtain m where m: "m div 15 = k" "m < n" "p = 260 * (m mod 15)" by blast
    have "m = 15 * k + m mod 15" using m(1) by (metis mult_div_mod_eq)
    then have "m mod 15 < r" using in_page [of "m mod 15"] m(2) by simp
    then show "p \<in> set (page_slots (gas_last_byte i k))" unfolding ps m(3) by auto
  qed
qed

context directory_io
begin

lemma empty_pages_iff:
  assumes rd: "pages_readable K s dir"
  shows "empty_pages K ks s dir =
    ((\<forall>k\<in>set ks. \<forall>p\<in>set (page_slots (gas_last_byte (icache s dir) k)). \<not> not_empty (pages s dir k) (i_ino (icache s dir)) p), s)"
  by (induction ks) (auto simp: get_page_readable [OF rd])

lemma empty_dir_iff:
  assumes wf: "dir_wf s dir" and rd: "pages_readable K s dir"
  shows "gas_empty_dir K s dir =
    ((\<forall>name v. dir_map s dir name = Some v \<longrightarrow> harmless (i_ino (icache s dir)) \<lparr>de_name = name, de_inode = v\<rparr>), s)"
proof -
  define n where "n = nslots (icache s dir)"
  note w = dir_wf_simps [OF wf, folded n_def]
  have pg: "m div 15 < gas_dir_pages (icache s dir)" if "m < n" for m
  proof -
    have "m div 15 \<le> (n - 1) div 15" using that by (intro div_le_mono) simp
    then show ?thesis using dir_geometry(1) [OF w(1)] that by simp
  qed
  have e: "not_empty (pages s dir (m div 15)) (i_ino (icache s dir)) (GAS_DIR_ENTRY_SIZE * (m mod 15)) \<longleftrightarrow>
      live s dir m \<and> \<not> harmless (i_ino (icache s dir)) (dslot s dir m)" for m
    by (simp add: not_empty_entry live_def dslot_def)
  have "(\<forall>k\<in>set [0..<gas_dir_pages (icache s dir)]. \<forall>p\<in>set (page_slots (gas_last_byte (icache s dir) k)).
      \<not> not_empty (pages s dir k) (i_ino (icache s dir)) p) \<longleftrightarrow>
    (\<forall>m<n. \<not> not_empty (pages s dir (m div 15)) (i_ino (icache s dir)) (GAS_DIR_ENTRY_SIZE * (m mod 15)))"
  proof -
    have "(\<forall>k\<in>set [0..<gas_dir_pages (icache s dir)]. \<forall>p\<in>set (page_slots (gas_last_byte (icache s dir) k)).
        \<not> not_empty (pages s dir k) (i_ino (icache s dir)) p) \<longleftrightarrow>
      (\<forall>k<gas_dir_pages (icache s dir). \<forall>m. m div 15 = k \<longrightarrow> m < n \<longrightarrow>
        \<not> not_empty (pages s dir k) (i_ino (icache s dir)) (GAS_DIR_ENTRY_SIZE * (m mod 15)))"
      using page_slots_last [OF w(1)] by (auto simp: atLeast0LessThan)
    then show ?thesis using pg by blast
  qed
  also have "\<dots> \<longleftrightarrow> (\<forall>m. live s dir m \<longrightarrow> harmless (i_ino (icache s dir)) (dslot s dir m))"
    unfolding e using w(4) by blast
  also have "\<dots> \<longleftrightarrow> (\<forall>name v. dir_map s dir name = Some v \<longrightarrow> harmless (i_ino (icache s dir)) \<lparr>de_name = name, de_inode = v\<rparr>)"
    unfolding dir_map_Some [OF wf] by (auto simp: harmless_def)
  finally show ?thesis by (simp add: gas_empty_dir_def empty_pages_iff [OF rd])
qed

end

section \<open>The initial directory\<close>

definition first_page :: "block \<Rightarrow> u32 \<Rightarrow> u32 \<Rightarrow> block" where
  "first_page b self up = strcpy (put_le32 (strcpy (put_le32 (memset b 0 PAGE_CACHE_SIZE) 256 self) 0 dot)
     (GAS_DIR_ENTRY_SIZE + 256) up) GAS_DIR_ENTRY_SIZE dotdot"

lemma first_page_slots:
  "load_dentry (first_page b self up) 0 = \<lparr>de_name = dot, de_inode = self\<rparr>"
  "load_dentry (first_page b self up) 260 = \<lparr>de_name = dotdot, de_inode = up\<rparr>"
  "2 \<le> j \<Longrightarrow> j < 15 \<Longrightarrow> de_inode (load_dentry (first_page b self up) (260 * j)) = 0"
proof -
  have z: "first_page b self up q = 0" if "520 \<le> q" "q < 4096" for q
    using that by (auto simp: first_page_def strcpy_def strncpy_def memset_def dot_def dotdot_def)
  have n0: "cstr (first_page b self up) 0 256 = dot"
    by (rule cstr_of_name) (auto simp: first_page_def strcpy_def strncpy_def memset_def dot_def dotdot_def)
  have n1: "cstr (first_page b self up) 260 256 = dotdot"
    by (rule cstr_of_name) (auto simp: first_page_def strcpy_def strncpy_def memset_def dot_def dotdot_def less_Suc_eq)
  have i0: "get_le32 (first_page b self up) 256 = get_le32 (put_le32 (memset b 0 4096) 256 self) 256"
    by (rule get_le32_eqI) (auto simp: first_page_def strcpy_def strncpy_def dot_def dotdot_def)
  have "get_le32 (strcpy c 260 dotdot) 516 = get_le32 c 516" for c
    by (rule get_le32_eqI) (auto simp: strcpy_def strncpy_def dotdot_def)
  then have i1: "get_le32 (first_page b self up) 516 = up" unfolding first_page_def by simp
  show "load_dentry (first_page b self up) 0 = \<lparr>de_name = dot, de_inode = self\<rparr>"
    "load_dentry (first_page b self up) 260 = \<lparr>de_name = dotdot, de_inode = up\<rparr>"
    using n0 n1 i0 i1 by (simp_all add: load_dentry_def)
  show "de_inode (load_dentry (first_page b self up) (260 * j)) = 0" if "2 \<le> j" "j < 15"
  proof -
    have "get_le32 (first_page b self up) (260 * j + 256) = get_le32 (\<lambda>_. 0) (260 * j + 256)"
      by (rule get_le32_eqI) (rule z, use that in linarith, use that in linarith)
    then show ?thesis by (simp add: load_dentry_def get_le32_def)
  qed
qed

lemma two_slot_dir:
  assumes sz: "i_size (icache s ino) = dir_size 2"
    and d: "dslot s ino 0 = \<lparr>de_name = dot, de_inode = v\<rparr>" "dslot s ino 1 = \<lparr>de_name = dotdot, de_inode = u\<rparr>"
    and dead: "\<And>m. 2 \<le> m \<Longrightarrow> \<not> live s ino m" and vu: "v \<noteq> 0" "u \<noteq> 0"
  shows "dir_wf s ino" "nslots (icache s ino) = 2" "dir_map s ino = [dot \<mapsto> v, dotdot \<mapsto> u]"
proof -
  have lv: "live s ino m \<longleftrightarrow> m = 0 \<or> m = 1" for m
    using dead [of m] d(1,2) vu by (cases "2 \<le> m") (auto simp: live_def less_2_cases_iff not_le)
  have ne: "dot \<noteq> dotdot" by (simp add: dot_def dotdot_def)
  have 1: "dentry_ok (dslot s ino m)" if "m < 2" for m
    using that d(1,2) by (auto simp: less_2_cases_iff dentry_ok_def dot_def dotdot_def)
  have 2: "m = k" if "live s ino m" "live s ino k" "de_name (dslot s ino m) = de_name (dslot s ino k)" for m k
    using that d(1,2) ne by (auto simp: lv)
  have 3: "m < 2" if "live s ino m" for m using that by (auto simp: lv)
  show wf: "dir_wf s ino" "nslots (icache s ino) = 2" by (rule dir_wfI [OF sz 1 2 3]; assumption)+
  show "dir_map s ino = [dot \<mapsto> v, dotdot \<mapsto> u]"
    by (intro ext option_eqI) (use d(1,2) ne in \<open>auto simp: dir_map_Some [OF wf(1)] lv ex_disj_distrib conj_disj_distribR\<close>)
qed

lemma first_page_dir:
  assumes sz: "i_size (icache s ino) = dir_size 2"
    and ds: "\<And>m. m < 15 \<Longrightarrow> dslot s ino m = load_dentry (first_page b v u) (GAS_DIR_ENTRY_SIZE * m)"
    and rest: "\<And>m. 15 \<le> m \<Longrightarrow> \<not> live s ino m" and vu: "v \<noteq> 0" "u \<noteq> 0"
  shows "dir_wf s ino" "nslots (icache s ino) = 2" "dir_map s ino = [dot \<mapsto> v, dotdot \<mapsto> u]"
proof -
  have d: "dslot s ino 0 = \<lparr>de_name = dot, de_inode = v\<rparr>" "dslot s ino 1 = \<lparr>de_name = dotdot, de_inode = u\<rparr>"
    "\<And>m. 2 \<le> m \<Longrightarrow> m < 15 \<Longrightarrow> \<not> live s ino m"
    using first_page_slots [where b = b and self = v and up = u] ds by (simp_all add: live_def)
  have dead: "\<not> live s ino m" if "2 \<le> m" for m using d(3) rest that by (meson not_le)
  show "dir_wf s ino" "nslots (icache s ino) = 2" "dir_map s ino = [dot \<mapsto> v, dotdot \<mapsto> u]"
    by (rule two_slot_dir [OF sz d(1,2) dead vu]; assumption)+
qed

context directory_io
begin

lemma make_empty_map:
  assumes ok: "vol_ok I s" and ino: "ino \<in> I" and sz: "i_size (icache s ino) = 0" and rest: "\<And>m. 15 \<le> m \<Longrightarrow> \<not> live s ino m"
    and v: "v = word_of_nat (i_ino (icache s ino))" "v \<noteq> 0" and u: "u = word_of_nat (i_ino (icache s dir))" "u \<noteq> 0"
  shows "\<exists>e s'. gas_make_empty K s ino dir = Some (e, s') \<and> local_op I ino s s' \<and>
    (dir_wf s' ino \<and> nslots (icache s' ino) = 2 \<and> dir_map s' ino = [dot \<mapsto> v, dotdot \<mapsto> u] \<or>
     e \<noteq> None \<and> pages s' = pages s \<and> i_size (icache s' ino) = 0)"
proof (cases "grab_cache_page K s ino 0")
  case None
  then show ?thesis using local_op_refl [OF ok] sz by (simp add: gas_make_empty_def)
next
  case (Some g)
  then have g: "g = s" by (rule grab_page)
  obtain e1 s1 where c: "gas_dir_prepare_chunk K s ino 0 0 520 = Some (e1, s1)" and
    l1: "local_op I ino s s1" and f1: "pages s1 = pages s" "i_size (icache s1 ino) = i_size (icache s ino)"
    using prepare_chunk_local [OF ok ino] by blast
  show ?thesis
  proof (cases e1)
    case e: (Some e)
    then show ?thesis using Some g c l1 f1 sz by (simp add: gas_make_empty_def)
  next
    case None
    have w: "word_of_nat (i_ino (icache s1 ino)) = v" "word_of_nat (i_ino (icache s1 dir)) = u"
      using local_op_ino [OF l1] v u by simp_all
    define s2 where "s2 = set_page ino 0 (first_page (pages s1 ino 0) v u) s1"
    obtain e3 s3 where r3: "gas_dir_commit_chunk K s2 ino 0 0 520 = (e3, s3)" by fastforce
    have l2: "local_op I ino s1 s2" unfolding s2_def by (rule set_page_local [OF local_op_ok [OF l1]])
    note c3 = commit_chunk_local [OF local_op_ok [OF l2] r3]
    have res: "gas_make_empty K s ino dir = Some (e3, s3)"
      using Some g c None r3 by (simp add: gas_make_empty_def Let_def w s2_def first_page_def)
    have "dslot s3 ino = dslot s2 ino" by (rule dslot_cong) (simp add: c3(2))
    moreover have "dslot s2 ino m = load_dentry (first_page (pages s1 ino 0) v u) (260 * m)" if "m < 15" for m
      using that by (simp add: dslot_def s2_def)
    moreover have "dslot s2 ino m = dslot s ino m" if "15 \<le> m" for m
    proof -
      have "m div 15 \<noteq> 0" using that by (simp add: div_eq_0_iff)
      then show ?thesis by (simp add: dslot_def s2_def f1)
    qed
    ultimately have d: "\<And>m. m < 15 \<Longrightarrow> dslot s3 ino m = load_dentry (first_page (pages s1 ino 0) v u) (260 * m)"
      "\<And>m. 15 \<le> m \<Longrightarrow> \<not> live s3 ino m" using rest by (simp_all add: live_def)
    have "i_size (icache s3 ino) = dir_size 2" using c3(3) f1(2) sz by (simp add: s2_def dir_size_def)
    note wf = first_page_dir [OF this d v(2) u(2)]
    show ?thesis using res wf local_op_trans [OF l1 local_op_trans [OF l2 c3(1)]] by blast
  qed
qed

end

end
