(* ===== verification/Gas_Life.thy ===== *)
theory Gas_Life
  imports Gas_Page
begin

text \<open>
  The life of the files of a mounted volume: a step relation with the operations of
  \<^verbatim>\<open>src/kern/gas_inode.c\<close>, \<^verbatim>\<open>src/kern/bitmap.c\<close>, \<^verbatim>\<open>src/kern/gas_itree.c\<close> and
  \<^verbatim>\<open>src/kern/gas_page.c\<close> that change blocks, inodes or their bitmaps, and the invariant that every
  reachable state has: no block is lost and none has two owners.
\<close>

section \<open>The invariant\<close>

text \<open>
  \<open>I\<close> are the files of the volume. Number 0 and the padding of the inode map stay busy, so a new inode
  has a number between 1 and \<open>s_ninodes\<close>.
\<close>

definition inode_zone :: "fs \<Rightarrow> nat set" where
  "inode_zone s = {1..<unat (s_ninodes (sbi s))}"

definition ino_inv :: "fs \<Rightarrow> bool" where
  "ino_inv s \<longleftrightarrow> {..<BITS_PER_BLOCK * unat (s_iam_blocks (sbi s))} - inode_zone s \<subseteq> used_inodes s"

definition files_ok :: "nat set \<Rightarrow> fs \<Rightarrow> bool" where
  "files_ok I s \<longleftrightarrow> vol_ok I s \<and> ino_inv s \<and> I \<subseteq> used_inodes s \<inter> inode_zone s \<and> (\<forall>i\<in>I. i_ino (icache s i) = i)"

lemma files_ok_simps:
  assumes "files_ok I s"
  shows "vol_ok I s" "ino_inv s" "I \<subseteq> used_inodes s" "I \<subseteq> inode_zone s" "i \<in> I \<Longrightarrow> i_ino (icache s i) = i"
    "i \<in> I \<Longrightarrow> 1 \<le> i" "i \<in> I \<Longrightarrow> i < unat (s_ninodes (sbi s))"
  using assms by (auto simp: files_ok_def inode_zone_def)

lemma local_op_files:
  assumes "files_ok I s" and l: "local_op I ino s s'"
  shows "files_ok I s'"
proof -
  have z: "inode_zone s' = inode_zone s" "s_iam_blocks (sbi s') = s_iam_blocks (sbi s)" "used_inodes s' = used_inodes s"
    using l by (auto simp: inode_zone_def local_op_def)
  have "i_ino (icache s' i) = i_ino (icache s i)" for i
    using l by (cases "i = ino") (simp_all add: local_op_def)
  then show ?thesis using assms(1) local_op_ok [OF l] by (simp add: files_ok_def ino_inv_def z)
qed

section \<open>Inodes enter and leave\<close>

context inode_alloc
begin

lemma new_inode_files:
  assumes ok: "files_ok I s" and r: "gas_new_inode K s dir mode = Some (Some ino, e, s')"
  shows "files_ok (insert ino I) s'" "unowned (insert ino I) s' = unowned I s" "ino \<notin> I"
proof -
  note v = vol_ok_simps [OF files_ok_simps(1) [OF ok]]
  have lay: "set (s_bam_bh (sbi s)) \<inter> set (s_iam_bh (sbi s)) = {}" using v(3) by (simp add: layout_wf_def)
  note f = gas_new_inode_found [OF v(2) lay r]
  note n = new_inode_vol [OF files_ok_simps(1,3) [OF ok] r]
  show "unowned (insert ino I) s' = unowned I s" "ino \<notin> I" by (rule n)+
  have z: "inode_zone s' = inode_zone s" "s_iam_blocks (sbi s') = s_iam_blocks (sbi s)"
    by (simp_all add: inode_zone_def f(14))
  have "ino \<in> inode_zone s" using f(2,18) files_ok_simps(2) [OF ok] by (auto simp: ino_inv_def)
  moreover have "ino_inv s'" using files_ok_simps(2) [OF ok] by (auto simp: ino_inv_def z n(4))
  moreover have "i_ino (icache s' i) = i" if "i \<in> insert ino I" for i
    using that f(5,11) files_ok_simps(5) [OF ok] by (cases "i = ino") auto
  ultimately show "files_ok (insert ino I) s'"
    using n(2,4) files_ok_simps(3,4) [OF ok] by (auto simp: files_ok_def z)
qed

lemma new_inode_fails:
  assumes "files_ok I s" and "gas_new_inode K s dir mode = Some (None, e, s')"
  shows "s' = s"
  using assms(2)
  by (cases rule: gas_new_inode_cases [OF vol_ok_simps(2) [OF files_ok_simps(1) [OF assms(1)]], of dir mode]) auto

end

context buffer_cache
begin

text \<open>Writing an inode back touches its own block of the inode list only.\<close>

lemma write_inode_local:
  assumes ok: "files_ok I s" and ino: "ino \<in> I" and w: "gas_write_inode K s ino sync = (e, s')"
  shows "files_ok I s'" "unowned I s' = unowned I s" "\<And>i r. i \<in> I \<Longrightarrow> node_path r \<Longrightarrow> bmap s' i r = bmap s i r"
    "used_inodes s' = used_inodes s"
proof -
  note v = vol_ok_simps [OF files_ok_simps(1) [OF ok]]
  have iw: "itable_wf (sbi s)" using v(3) by (simp add: layout_wf_def)
  obtain r s1 where u: "gas_update_inode K s ino = (r, s1)" by fastforce
  have same: "sbi s' = sbi s1" "bufs s' = bufs s1" "icache s' = icache s1" "sb_blocksize s' = sb_blocksize s1"
    "sb_blocksize_bits s' = sb_blocksize_bits s1"
    using w u by (auto simp: gas_write_inode_def sync_dirty_buffer_def split: option.splits if_splits)
  have s1: "sbi s1 = sbi s" "icache s1 = icache s" "sb_blocksize s1 = sb_blocksize s" "sb_blocksize_bits s1 = sb_blocksize_bits s"
    using u by (auto simp: gas_update_inode_def split: option.splits)
  have blk: "bufs s1 m = bufs s m" if "m \<in> data_zone s \<union> set (s_bam_bh (sbi s)) \<union> set (s_iam_bh (sbi s))" for m
  proof (cases r)
    case None
    then show ?thesis using gas_update_inode_None u by auto
  next
    case (Some bh)
    note d = gas_update_inode_disk [OF u [unfolded Some] iw]
    have b: "bh = gas_inode_block (sbi s) ino" using d(3) files_ok_simps(5) [OF ok ino] by simp
    have "ino < 64 * unat (s_inode_blocks (sbi s))"
      using files_ok_simps(7) [OF ok ino] v(7) by (simp add: itable_area_def)
    then have "ino div 64 < unat (s_inode_blocks (sbi s))" by (simp add: less_mult_imp_div_less mult.commute)
    then have "bh \<notin> data_zone s" using v(7) unfolding b inode_location(1) [OF iw] by (simp add: itable_area_def data_zone_def)
    then have "m \<noteq> bh" using that layout_wf_inode_block [OF v(3), of ino] b by auto
    then show ?thesis by (rule d(4))
  qed
  have f: "sbi s' = sbi s" "icache s' = icache s" "sb_blocksize s' = sb_blocksize s" "sb_blocksize_bits s' = sb_blocksize_bits s"
    by (simp_all add: same s1)
  have bz: "bufs s' m = bufs s m" if "m \<in> data_zone s \<union> set (s_bam_bh (sbi s)) \<union> set (s_iam_bh (sbi s))" for m
    using blk [OF that] by (simp add: same)
  have ub: "used_blocks s' = used_blocks s" unfolding used_blocks_def f by (rule map_bits_cong) (use bz in blast)
  show ui: "used_inodes s' = used_inodes s" unfolding used_inodes_def f by (rule map_bits_cong) (use bz in blast)
  have zone: "data_zone s' = data_zone s" "inode_zone s' = inode_zone s" by (simp_all add: data_zone_def inode_zone_def f)
  show b: "bmap s' i r = bmap s i r" if "i \<in> I" "node_path r" for i r
    by (rule bmap_data_cong [OF v(5) that(1) _ _ that(2)]) (simp_all add: f bz)
  then have "tree_blocks s' i = tree_blocks s i" if "i \<in> I" for i using that by (intro tree_blocks_cong) blast
  then show "unowned I s' = unowned I s" by (simp add: unowned_def ub)
  have "tree_wf I s'"
    unfolding tree_wf_def
  proof (intro conjI ballI allI impI)
    fix i q
    assume a: "i \<in> I" "node_path q" "bmap s' i q \<noteq> 0"
    then show "unat (bmap s' i q) \<in> data_zone s' \<inter> used_blocks s'"
      using tree_wf_node [OF v(5) a(1,2)] b [OF a(1,2)] by (simp add: zone ub)
  next
    fix i j q r
    assume a: "i \<in> I" "j \<in> I" "node_path q" "node_path r" "bmap s' i q \<noteq> 0" "bmap s' i q = bmap s' j r"
    then show "i = j" "q = r"
      using tree_wf_inj [OF v(5) a(1-4)] a(5,6) b [OF a(1,3)] b [OF a(2,4)] by metis+
  qed
  moreover have "alloc_inv s'" "layout_wf s'" "tree_geom s'" "iam_wf s'"
    using v(1-4) by (simp_all add: alloc_inv_def bam_wf_def bam_bits_def layout_wf_def tree_geom_def iam_wf_def f ub zone)
  ultimately show "files_ok I s'"
    using ok v(6,7) by (simp add: files_ok_def vol_ok_def ino_inv_def f ui zone)
qed

end

section \<open>Steps\<close>

text \<open>
  One operation on the files of the volume. \<open>set_links\<close> is the change of a link count by the operations
  on names; a file leaves the volume when it is evicted without links.
\<close>

inductive volume_step :: "'k page_services_scheme \<Rightarrow> nat set \<times> fs \<Rightarrow> nat set \<times> fs \<Rightarrow> bool" for K where
  make_inode: "gas_new_inode K s dir mode = Some (Some ino, e, s') \<Longrightarrow> volume_step K (I, s) (insert ino I, s')"
| make_fails: "gas_new_inode K s dir mode = Some (None, e, s') \<Longrightarrow> volume_step K (I, s) (I, s')"
| map_block: "ino \<in> I \<Longrightarrow> gas_get_block K s ino b create = Some (e, m, s') \<Longrightarrow> volume_step K (I, s) (I, s')"
| truncate: "ino \<in> I \<Longrightarrow> volume_step K (I, s) (I, gas_truncate K s ino)"
| begin_write: "ino \<in> I \<Longrightarrow> gas_write_begin K s ino pos len = Some (e, s') \<Longrightarrow> volume_step K (I, s) (I, s')"
| end_write: "ino \<in> I \<Longrightarrow> gas_write_end K s ino pos len copied = (r, s') \<Longrightarrow> volume_step K (I, s) (I, s')"
| write_page: "ino \<in> I \<Longrightarrow> gas_writepage K s ino n = Some (e, s') \<Longrightarrow> volume_step K (I, s) (I, s')"
| write_pages: "ino \<in> I \<Longrightarrow> gas_writepages K s ino = Some (e, s') \<Longrightarrow> volume_step K (I, s) (I, s')"
| read_page: "ino \<in> I \<Longrightarrow> gas_readpage K s ino n = Some (e, s') \<Longrightarrow> volume_step K (I, s) (I, s')"
| read_pages: "ino \<in> I \<Longrightarrow> gas_readpages K s ino ns = Some (e, s') \<Longrightarrow> volume_step K (I, s) (I, s')"
| direct_io: "ino \<in> I \<Longrightarrow> gas_direct_io K rw s ino iov off = Some (r, s') \<Longrightarrow> volume_step K (I, s) (I, s')"
| write_inode: "ino \<in> I \<Longrightarrow> gas_write_inode K s ino sync = (e, s') \<Longrightarrow> volume_step K (I, s) (I, s')"
| set_links: "ino \<in> I \<Longrightarrow> volume_step K (I, s) (I, upd_inode ino (\<lambda>i. i\<lparr>i_nlink := n\<rparr>) s)"
| evict_kept: "ino \<in> I \<Longrightarrow> i_nlink (icache s ino) \<noteq> 0 \<Longrightarrow> volume_step K (I, s) (I, gas_evict_inode K s ino)"
| evict_deleted: "ino \<in> I \<Longrightarrow> i_nlink (icache s ino) = 0 \<Longrightarrow>
    S_ISREG (i_mode (icache s ino)) \<or> S_ISDIR (i_mode (icache s ino)) \<or> S_ISLNK (i_mode (icache s ino)) \<Longrightarrow>
    volume_step K (I, s) (I - {ino}, gas_evict_inode K s ino)"

inductive_cases volume_stepE: "volume_step K (I, s) (J, s')"

lemmas volume_step_cases = volume_stepE [consumes 1, case_names make_inode make_fails map_block truncate begin_write end_write
    write_page write_pages read_page read_pages direct_io write_inode set_links evict_kept evict_deleted]

text \<open>A change of inode fields other than the number and the block map.\<close>

lemma inode_fields_files:
  assumes ok: "files_ok I s" and f: "blkaddr (f (icache s ino)) = blkaddr (icache s ino)" "i_ino (f (icache s ino)) = i_ino (icache s ino)"
  shows "files_ok I (upd_inode ino f s)" "unowned I (upd_inode ino f s) = unowned I s"
    "used_inodes (upd_inode ino f s) = used_inodes s"
proof -
  let ?s = "upd_inode ino f s"
  have ba: "blkaddr (icache ?s i) = blkaddr (icache s i)" for i using f(1) by simp
  note c = vol_ok_cong [of ?s s I, OF _ _ _ _ ba, simplified]
  have "i_ino (icache ?s i) = i_ino (icache s i)" for i using f(2) by simp
  then show "files_ok I ?s" using ok c by (simp add: files_ok_def ino_inv_def inode_zone_def)
  have "tree_blocks ?s i = tree_blocks s i" if "i \<in> I" for i using c that by simp
  then show "unowned I ?s = unowned I s" using c by (simp add: unowned_def)
  show "used_inodes ?s = used_inodes s" by (simp add: used_inodes_def)
qed

lemma set_links_files:
  assumes "files_ok I s" and "ino \<in> I"
  shows "files_ok I (upd_inode ino (\<lambda>i. i\<lparr>i_nlink := n\<rparr>) s)"
    "unowned I (upd_inode ino (\<lambda>i. i\<lparr>i_nlink := n\<rparr>) s) = unowned I s"
  by (rule inode_fields_files [OF assms(1)]; simp)+

context page_cache
begin

lemma evict_files:
  assumes ok: "files_ok I s" and ino: "ino \<in> I" and read: "\<And>bf n. sb_bread K bf n \<noteq> None"
    and n: "i_nlink (icache s ino) = 0" and m: "S_ISREG (i_mode (icache s ino)) \<or> S_ISDIR (i_mode (icache s ino)) \<or> S_ISLNK (i_mode (icache s ino))"
  shows "files_ok (I - {ino}) (gas_evict_inode K s ino)" "unowned (I - {ino}) (gas_evict_inode K s ino) = unowned I s"
    "used_inodes (gas_evict_inode K s ino) = used_inodes s - {ino}"
proof -
  note f = files_ok_simps [OF ok]
  note e = evict_unlinked [OF f(1) ino read n m f(5) [OF ino] f(6) [OF ino] f(7) [OF ino]]
  have tb: "tree_blocks (gas_evict_inode K s ino) k = tree_blocks s k" if "k \<in> I - {ino}" for k
    by (rule tree_blocks_cong) (rule e(4) [OF that])
  have ni: "k \<noteq> ino \<Longrightarrow> icache (gas_evict_inode K s ino) k = icache s k" for k using e(5) by blast
  have "ino \<in> inode_zone s" using f(4) ino by blast
  then show "files_ok (I - {ino}) (gas_evict_inode K s ino)"
    using e(1) f(2-5) ni by (auto simp: files_ok_def ino_inv_def inode_zone_def e(3,6))
  have "(\<Union>k\<in>I. tree_blocks s k) = tree_blocks s ino \<union> (\<Union>k\<in>I - {ino}. tree_blocks s k)" using ino by blast
  then show "unowned (I - {ino}) (gas_evict_inode K s ino) = unowned I s"
    using tb by (auto simp: unowned_def e(2))
  show "used_inodes (gas_evict_inode K s ino) = used_inodes s - {ino}" by (rule e(3))
qed

lemma step_safe:
  assumes st: "volume_step K (I, s) (J, s')" and ok: "files_ok I s" and read: "\<And>bf n. sb_bread K bf n \<noteq> None"
  shows "files_ok J s' \<and> unowned J s' = unowned I s \<and> used_inodes s' - J = used_inodes s - I"
proof -
  have loc: "files_ok I s' \<and> unowned I s' = unowned I s \<and> used_inodes s' - I = used_inodes s - I" if "local_op I ino s s'" "ino \<in> I" for ino
    using local_op_files [OF ok that(1)] local_op_unowned [OF that] that(1) by (simp add: local_op_def)
  have calls: "files_ok I s' \<and> unowned I s' = unowned I s \<and> used_inodes s' - I = used_inodes s - I" if "buffer_calls (gas_get_block K) ino s s'" "ino \<in> I" for ino
    using loc [of ino] buffer_calls_local [OF that(1) files_ok_simps(1) [OF ok] that(2)] that(2) by blast
  note v = files_ok_simps(1) [OF ok] and write_page_calls = write_page and write_pages_calls = write_pages
  show ?thesis
    using st
  proof (cases rule: volume_step_cases)
    case (make_inode dir mode ino e)
    note v = vol_ok_simps [OF files_ok_simps(1) [OF ok]]
    have lay: "set (s_bam_bh (sbi s)) \<inter> set (s_iam_bh (sbi s)) = {}" using v(3) by (simp add: layout_wf_def)
    have "used_inodes s' = insert ino (used_inodes s)" by (rule gas_new_inode_found(3) [OF v(2) lay make_inode(2)])
    then have "used_inodes s' - J = used_inodes s - I - {ino}" using make_inode(1) by blast
    moreover have "ino \<notin> used_inodes s" by (rule gas_new_inode_found(2) [OF v(2) lay make_inode(2)])
    ultimately show ?thesis using make_inode(1) new_inode_files(1,2) [OF ok make_inode(2)] by simp
  next
    case (make_fails dir mode e)
    then show ?thesis using new_inode_fails [OF ok] ok by blast
  next
    case (map_block ino b create e m)
    then have "grows I ino s s'" using get_block_grows [OF v map_block(2), of b create] by auto
    then show ?thesis using loc [OF grows_local [OF v map_block(2)] map_block(2)] map_block(1) by simp
  next
    case (truncate ino)
    then show ?thesis using loc [of ino] gas_truncate_local(1) [OF v _ read, of ino] truncate by simp
  next
    case (begin_write ino pos len e)
    then have "local_op I ino s s'" using write_begin_local [OF v begin_write(2) read, of pos len] by auto
    then show ?thesis using loc [OF _ begin_write(2)] begin_write(1) by simp
  next
    case (end_write ino pos len copied r)
    then show ?thesis using write_end_local [OF v _ read] loc by blast
  next
    case (write_page ino n e)
    then show ?thesis using write_page_calls [of "gas_get_block K" s ino n e s'] calls [of ino] by (simp add: gas_writepage_def)
  next
    case (write_pages ino e)
    then show ?thesis using write_pages_calls [of "gas_get_block K" s ino e s'] calls [of ino] by (simp add: gas_writepages_def)
  next
    case (read_page ino n e)
    then show ?thesis using readpage [of "gas_get_block K" s ino n e s'] calls [of ino] by (simp add: gas_readpage_def)
  next
    case (read_pages ino ns e)
    then show ?thesis using readpages [of "gas_get_block K" s ino ns e s'] calls [of ino] by (simp add: gas_readpages_def)
  next
    case (direct_io ino rw iov off r)
    then show ?thesis using direct [of "gas_get_block K" rw s ino iov off r s'] calls [of ino] by (simp add: gas_direct_io_def)
  next
    case (write_inode ino sync e)
    then show ?thesis using write_inode_local [OF ok] by blast
  next
    case (set_links ino n)
    then show ?thesis using set_links_files [OF ok] by (simp add: used_inodes_def)
  next
    case (evict_kept ino)
    then show ?thesis using evict_linked(1) [OF v] loc by blast
  next
    case (evict_deleted ino)
    then show ?thesis using evict_files [OF ok _ read] by auto
  qed
qed

lemma reachable_safe:
  assumes "(volume_step K)\<^sup>*\<^sup>* (I0, s0) (I, s)" and "files_ok I0 s0" and "\<And>bf n. sb_bread K bf n \<noteq> None"
  shows "files_ok I s \<and> unowned I s = unowned I0 s0 \<and> used_inodes s - I = used_inodes s0 - I0"
  using assms(1)
proof (induction "(I, s)" arbitrary: I s rule: rtranclp_induct)
  case base
  then show ?case using assms(2) by simp
next
  case (step y)
  obtain I1 s1 where y: "y = (I1, s1)" by fastforce
  then have "files_ok I1 s1 \<and> unowned I1 s1 = unowned I0 s0 \<and> used_inodes s1 - I1 = used_inodes s0 - I0" using step.hyps(3) by blast
  then show ?case using step_safe [of I1 s1 I s, OF _ _ assms(3)] step.hyps(2) y by auto
qed

end

section \<open>An example\<close>

text \<open>On the empty example volume a regular file is created and its block 1000 mapped.\<close>

lemma empty_volume_files: "files_ok {} empty_file_volume"
proof -
  have "used_inodes empty_file_volume = used_inodes example_volume" by (simp add: used_inodes_def)
  then have u: "used_inodes empty_file_volume = {0} \<union> {256..<BITS_PER_BLOCK}" by (simp only: example_volume_used_inodes)
  have n: "{..<32768} - {1..<256} \<subseteq> {0} \<union> {256..<32768 :: nat}" by auto
  have "BITS_PER_BLOCK * unat (s_iam_blocks example_sb) = 32768" "unat (s_ninodes example_sb) = 256" by (simp_all add: example_sb_def)
  then have "ino_inv empty_file_volume"
    unfolding ino_inv_def inode_zone_def u empty_file_volume_simps using n by (simp only:)
  moreover have "iam_wf empty_file_volume" using example_volume_wf(1) by (simp add: iam_wf_def)
  ultimately show ?thesis
    using empty_file_volume_wf by (simp add: files_ok_def vol_ok_def itable_area_def example_sb_def)
qed

lemma empty_volume_unowned: "unowned {} empty_file_volume = {..<7} \<union> {1024..<BITS_PER_BLOCK}"
proof -
  have "used_blocks empty_file_volume = used_blocks example_volume" by (simp add: used_blocks_def)
  then show ?thesis by (simp add: unowned_def example_volume_used)
qed

lemma empty_volume_has_inode: "used_inodes empty_file_volume \<noteq> {..<BITS_PER_BLOCK * unat (s_iam_blocks (sbi empty_file_volume))}"
proof
  assume a: "used_inodes empty_file_volume = {..<BITS_PER_BLOCK * unat (s_iam_blocks (sbi empty_file_volume))}"
  have "used_inodes empty_file_volume = used_inodes example_volume" by (simp add: used_inodes_def)
  then have "{0} \<union> {256..<BITS_PER_BLOCK} = {..<BITS_PER_BLOCK * unat (s_iam_blocks (sbi empty_file_volume))}"
    using a by (simp only: example_volume_used_inodes)
  moreover have "1 \<in> {..<BITS_PER_BLOCK * unat (s_iam_blocks (sbi empty_file_volume))}" by (simp add: example_sb_def)
  ultimately have "1 \<in> {0 :: nat} \<union> {256..<BITS_PER_BLOCK}" by (simp only:)
  then show False by simp
qed

lemma example_new_file:
  "\<exists>ino s1. gas_new_inode ref_page_services empty_file_volume 1 0x81A4 = Some (Some ino, None, s1) \<and>
     files_ok {ino} s1 \<and> unowned {ino} s1 = unowned {} empty_file_volume \<and>
     S_ISREG (i_mode (icache s1 ino)) \<and> i_nlink (icache s1 ino) = 1"
proof -
  have "iam_wf empty_file_volume" by (rule vol_ok_simps(2) [OF files_ok_simps(1) [OF empty_volume_files]])
  then obtain ino s1 where r: "gas_new_inode ref_page_services empty_file_volume 1 0x81A4 = Some (Some ino, None, s1)"
  proof (cases rule: ref_pages.gas_new_inode_cases [of _ 1 "0x81A4"])
    case nospace
    then show ?thesis using empty_volume_has_inode by blast
  qed auto
  have lay: "set (s_bam_bh (sbi empty_file_volume)) \<inter> set (s_iam_bh (sbi empty_file_volume)) = {}" by (simp add: example_sb_def)
  note f = ref_pages.gas_new_inode_found [OF _ lay r]
  have "i_mode (icache s1 ino) AND S_IFMT = S_IFREG" "i_nlink (icache s1 ino) = 1"
    using f(9,6) \<open>iam_wf empty_file_volume\<close> by simp_all
  then show ?thesis
    using r ref_pages.new_inode_files(1,2) [OF empty_volume_files r] by (simp add: S_ISREG_def)
qed

lemma example_file_block:
  assumes "files_ok {ino} s1"
  shows "\<exists>e m s2. gas_get_block ref_page_services s1 ino 1000 True = Some (e, m, s2) \<and> grows {ino} ino s1 s2"
  using ref_pages.get_block_grows [OF files_ok_simps(1) [OF assms], of ino 1000 True] by auto

section \<open>Properties\<close>

text \<open>
  C4. No sequence of operations of the file system loses a block or gives one to two owners. From any
  well-formed volume, after any number of steps: the allocation, inode and tree invariants hold, the busy
  blocks that belong to no file are the same as at the start (so whatever a file gave up is free
  again and whatever a file has is busy), so are the taken inode numbers that belong to no file, every file's
  blocks are in the data zone, and files share none.
\<close>

theorem volume_never_leaks:
  assumes "page_cache K" and "\<And>bf n. sb_bread K bf n \<noteq> None" and "files_ok I0 s0"
    and "(volume_step K)\<^sup>*\<^sup>* (I0, s0) (I, s)"
  shows "files_ok I s \<and> unowned I s = unowned I0 s0 \<and> used_inodes s - I = used_inodes s0 - I0 \<and>
    (\<forall>i\<in>I. tree_blocks s i \<subseteq> data_zone s \<inter> used_blocks s \<and> (\<forall>j\<in>I. i \<noteq> j \<longrightarrow> tree_blocks s i \<inter> tree_blocks s j = {}))"
proof -
  have r: "files_ok I s" "unowned I s = unowned I0 s0" "used_inodes s - I = used_inodes s0 - I0"
    using page_cache.reachable_safe [OF assms(1,4,3,2)] by blast+
  note wf = vol_ok_simps(5) [OF files_ok_simps(1) [OF r(1)]]
  show ?thesis using r tree_wf_zone [OF wf] tree_wf_disjoint [OF wf] by blast
qed

theorem volume_never_leaks_witness:
  "\<exists>ino s1 e m s2. gas_new_inode ref_page_services empty_file_volume 1 0x81A4 = Some (Some ino, None, s1) \<and>
     gas_get_block ref_page_services s1 ino 1000 True = Some (e, m, s2) \<and>
     used_blocks s2 - tree_blocks s2 ino = {..<7} \<union> {1024..<BITS_PER_BLOCK}"
proof -
  obtain ino s1 where n: "gas_new_inode ref_page_services empty_file_volume 1 0x81A4 = Some (Some ino, None, s1)"
    and f: "files_ok {ino} s1" using example_new_file by blast
  obtain e m s2 where b: "gas_get_block ref_page_services s1 ino 1000 True = Some (e, m, s2)"
    using example_file_block [OF f] by blast
  have "volume_step ref_page_services ({}, empty_file_volume) ({ino}, s1)" by (rule make_inode [OF n])
  moreover have "volume_step ref_page_services ({ino}, s1) ({ino}, s2)" by (rule map_block [OF _ b]) simp
  ultimately have "(volume_step ref_page_services)\<^sup>*\<^sup>* ({}, empty_file_volume) ({ino}, s2)" by simp
  from volume_never_leaks [OF ref_pages.page_cache_axioms _ empty_volume_files this]
  have "unowned {ino} s2 = unowned {} empty_file_volume" by simp
  then have "unowned {ino} s2 = {..<7} \<union> {1024..<BITS_PER_BLOCK}" unfolding empty_volume_unowned .
  then have "used_blocks s2 - tree_blocks s2 ino = {..<7} \<union> {1024..<BITS_PER_BLOCK}" by (simp add: unowned_def)
  with n b show ?thesis by blast
qed

text \<open>
  C5. \<^verbatim>\<open>gas_evict_inode\<close> on an inode without links gives back exactly its blocks, data and indirect, and
  its number, and leaves every other file (block map, in-core inode, pages) and the invariants as they
  were; on an inode with links it only drops pages.
\<close>

theorem gas_evict_inode_correct:
  assumes "page_cache K" and "\<And>bf n. sb_bread K bf n \<noteq> None" and "files_ok I s" and "ino \<in> I"
    and "S_ISREG (i_mode (icache s ino)) \<or> S_ISDIR (i_mode (icache s ino)) \<or> S_ISLNK (i_mode (icache s ino))"
  shows "if i_nlink (icache s ino) = 0
    then files_ok (I - {ino}) (gas_evict_inode K s ino) \<and>
      used_blocks (gas_evict_inode K s ino) = used_blocks s - tree_blocks s ino \<and>
      used_inodes (gas_evict_inode K s ino) = used_inodes s - {ino} \<and>
      (\<forall>k\<in>I - {ino}. icache (gas_evict_inode K s ino) k = icache s k \<and> pages (gas_evict_inode K s ino) k = pages s k \<and>
         (\<forall>r. node_path r \<longrightarrow> bmap (gas_evict_inode K s ino) k r = bmap s k r))
    else files_ok I (gas_evict_inode K s ino) \<and> icache (gas_evict_inode K s ino) = icache s \<and>
      used_blocks (gas_evict_inode K s ino) - tree_blocks (gas_evict_inode K s ino) ino = used_blocks s - tree_blocks s ino"
proof (cases "i_nlink (icache s ino) = 0")
  case True
  note f = files_ok_simps [OF assms(3)]
  note e = page_cache.evict_unlinked [OF assms(1) f(1) assms(4,2) True assms(5) f(5) f(6) f(7)]
  show ?thesis
    using True page_cache.evict_files(1) [OF assms(1,3,4,2) True assms(5)] e assms(4) by simp
next
  case False
  note e = page_cache.evict_linked [OF assms(1) files_ok_simps(1) [OF assms(3)] False]
  show ?thesis using False local_op_files [OF assms(3) e(1)] e by (simp add: local_op_def)
qed

theorem gas_evict_inode_correct_witness:
  "\<exists>ino s1. gas_new_inode ref_page_services empty_file_volume 1 0x81A4 = Some (Some ino, None, s1) \<and>
     used_inodes (gas_evict_inode ref_page_services (upd_inode ino (\<lambda>i. i\<lparr>i_nlink := 0\<rparr>) s1) ino) = used_inodes s1 - {ino}"
proof -
  obtain ino s1 where n: "gas_new_inode ref_page_services empty_file_volume 1 0x81A4 = Some (Some ino, None, s1)"
    and f: "files_ok {ino} s1" "S_ISREG (i_mode (icache s1 ino))" using example_new_file by blast
  define s2 where "s2 = upd_inode ino (\<lambda>i. i\<lparr>i_nlink := 0\<rparr>) s1"
  have "files_ok {ino} s2" unfolding s2_def by (rule set_links_files(1) [OF f(1)]) simp
  moreover have "S_ISREG (i_mode (icache s2 ino))" "i_nlink (icache s2 ino) = 0" using f(2) by (simp_all add: s2_def)
  ultimately have "used_inodes (gas_evict_inode ref_page_services s2 ino) = used_inodes s2 - {ino}"
    using gas_evict_inode_correct [OF ref_pages.page_cache_axioms _ \<open>files_ok {ino} s2\<close>, of ino] by simp
  moreover have "used_inodes s2 = used_inodes s1" by (simp add: used_inodes_def s2_def)
  ultimately show ?thesis using n by (auto simp: s2_def)
qed

text \<open>
  C6. A write through the page cache that fails leaves nothing behind it. \<^verbatim>\<open>gas_write_begin\<close> always returns and leaves
  the size alone; when it reports an error for a range that ends beyond the end of the file, the file has no
  block from its end on, and otherwise all its blocks stay. \<^verbatim>\<open>gas_write_end\<close> sets the size to the end of what was
  copied or leaves it; when less than asked for was written and the range ends beyond the new end, the file has no block from
  there on, and otherwise all its blocks stay. The blocks before the end stay in every case, no other file is touched,
  and the volume is well formed with no block lost.
\<close>

theorem gas_write_begin_end_local:
  assumes "page_cache K" and "\<And>bf n. sb_bread K bf n \<noteq> None" and "files_ok I s" and "ino \<in> I"
    and "S_ISREG (i_mode (icache s ino))" and "end_block s ino < unat (s_nblocks (sbi s))"
    and "(pos + copied + 4095) div 4096 < unat (s_nblocks (sbi s))"
  shows "\<exists>e s1 r s2. gas_write_begin K s ino pos len = Some (e, s1) \<and> gas_write_end K s1 ino pos len copied = (r, s2) \<and>
    i_size (icache s1 ino) = i_size (icache s ino) \<and> files_ok I s1 \<and> unowned I s1 = unowned I s \<and>
    (if e \<noteq> None \<and> i_size (icache s ino) < pos + len then blocks_cut s s1 ino (end_block s ino) else blocks_stay s s1 ino) \<and>
    i_size (icache s2 ino) \<in> {i_size (icache s ino), pos + copied} \<and> files_ok I s2 \<and> unowned I s2 = unowned I s \<and>
    (if (word_of_int r :: u32) < word_of_nat len \<and> i_size (icache s2 ino) < pos + len
     then blocks_cut s1 s2 ino (end_block s2 ino) else blocks_stay s1 s2 ino) \<and>
    (\<forall>k\<in>I - {ino}. icache s2 k = icache s k \<and> pages s2 k = pages s k \<and> (\<forall>r. node_path r \<longrightarrow> bmap s2 k r = bmap s k r))"
proof -
  note ok = files_ok_simps(1) [OF assms(3)]
  obtain e s1 where b: "gas_write_begin K s ino pos len = Some (e, s1)" "local_op I ino s s1"
    "i_size (icache s1 ino) = i_size (icache s ino)"
    using page_cache.write_begin_local [OF assms(1) ok assms(4,2)] by blast
  obtain r s2 where w: "gas_write_end K s1 ino pos len copied = (r, s2)" by fastforce
  have l: "local_op I ino s1 s2" by (rule page_cache.write_end_local [OF assms(1) local_op_ok [OF b(2)] assms(4,2) w])
  note t = local_op_trans [OF b(2) l]
  have h: "S_ISREG (i_mode (icache s1 ino))" "end_block s1 ino < unat (s_nblocks (sbi s1))"
    "(pos + copied + 4095) div 4096 < unat (s_nblocks (sbi s1))"
    using b(2,3) assms(5-7) by (auto simp: local_op_def end_block_def)
  note bb = page_cache.write_begin_blocks [OF assms(1) ok assms(4,2,5,6) b(1)]
    and wb = page_cache.write_end_blocks [OF assms(1) local_op_ok [OF b(2)] assms(4,2) h w]
  have "\<forall>k\<in>I - {ino}. icache s2 k = icache s k \<and> pages s2 k = pages s k \<and> (\<forall>r. node_path r \<longrightarrow> bmap s2 k r = bmap s k r)"
    using t unfolding local_op_def by blast
  then show ?thesis
    using b w bb wb local_op_files [OF assms(3) b(2)] local_op_files [OF assms(3) t] local_op_unowned [OF b(2) assms(4)]
      local_op_unowned [OF t assms(4)] by (intro exI [of _ e] exI [of _ s1] exI [of _ r] exI [of _ s2]) simp
qed

theorem gas_write_begin_end_local_witness:
  "\<exists>ino s1 e s2 r s3. gas_new_inode ref_page_services empty_file_volume 1 0x81A4 = Some (Some ino, None, s1) \<and>
     gas_write_begin ref_page_services s1 ino 8192 100 = Some (e, s2) \<and> gas_write_end ref_page_services s2 ino 8192 100 50 = (r, s3) \<and>
     (if e \<noteq> None then blocks_cut s1 s2 ino 0 else blocks_stay s1 s2 ino) \<and> unowned {ino} s3 = {..<7} \<union> {1024..<BITS_PER_BLOCK}"
proof -
  obtain ino s1 where n: "gas_new_inode ref_page_services empty_file_volume 1 0x81A4 = Some (Some ino, None, s1)"
    and f: "files_ok {ino} s1" "unowned {ino} s1 = unowned {} empty_file_volume" "S_ISREG (i_mode (icache s1 ino))"
    using example_new_file by blast
  have wf: "iam_wf empty_file_volume" by (rule vol_ok_simps(2) [OF files_ok_simps(1) [OF empty_volume_files]])
  have lay: "set (s_bam_bh (sbi empty_file_volume)) \<inter> set (s_iam_bh (sbi empty_file_volume)) = {}" by (simp add: example_sb_def)
  note g = ref_pages.gas_new_inode_found [OF wf lay n]
  have z: "i_size (icache s1 ino) = 0" "end_block s1 ino = 0" "unat (s_nblocks (sbi s1)) = 1024"
    using g(7,14) by (simp_all add: end_block_def example_sb_def)
  have "\<exists>e s2 r s3. gas_write_begin ref_page_services s1 ino 8192 100 = Some (e, s2) \<and>
    gas_write_end ref_page_services s2 ino 8192 100 50 = (r, s3) \<and>
    i_size (icache s2 ino) = i_size (icache s1 ino) \<and> files_ok {ino} s2 \<and> unowned {ino} s2 = unowned {ino} s1 \<and>
    (if e \<noteq> None \<and> i_size (icache s1 ino) < 8192 + 100 then blocks_cut s1 s2 ino (end_block s1 ino) else blocks_stay s1 s2 ino) \<and>
    i_size (icache s3 ino) \<in> {i_size (icache s1 ino), 8192 + 50} \<and> files_ok {ino} s3 \<and> unowned {ino} s3 = unowned {ino} s1 \<and>
    (if (word_of_int r :: u32) < word_of_nat 100 \<and> i_size (icache s3 ino) < 8192 + 100
     then blocks_cut s2 s3 ino (end_block s3 ino) else blocks_stay s2 s3 ino) \<and>
    (\<forall>k\<in>{ino} - {ino}. icache s3 k = icache s1 k \<and> pages s3 k = pages s1 k \<and> (\<forall>r. node_path r \<longrightarrow> bmap s3 k r = bmap s1 k r))"
    by (rule gas_write_begin_end_local [OF ref_pages.page_cache_axioms _ f(1) _ f(3)]) (simp_all add: z)
  then obtain e s2 r s3 where "gas_write_begin ref_page_services s1 ino 8192 100 = Some (e, s2)"
    "gas_write_end ref_page_services s2 ino 8192 100 50 = (r, s3)" "unowned {ino} s3 = unowned {ino} s1"
    "if e \<noteq> None \<and> i_size (icache s1 ino) < 8192 + 100 then blocks_cut s1 s2 ino (end_block s1 ino) else blocks_stay s1 s2 ino"
    by blast
  moreover from this(4) have "if e \<noteq> None then blocks_cut s1 s2 ino 0 else blocks_stay s1 s2 ino" unfolding z by simp
  ultimately show ?thesis using n f(2) empty_volume_unowned by metis
qed

context page_cache
begin

text \<open>What an evicted file gave up is there for the next one.\<close>

lemma evict_then_create:
  assumes ok: "files_ok I s" and ino: "ino \<in> I" and read: "\<And>bf n. sb_bread K bf n \<noteq> None" and mem: "\<And>t. new_inode K t \<noteq> None"
    and n: "i_nlink (icache s ino) = 0" and m: "S_ISREG (i_mode (icache s ino)) \<or> S_ISDIR (i_mode (icache s ino)) \<or> S_ISLNK (i_mode (icache s ino))"
    and room: "4 \<le> card (data_zone s - used_blocks s) + card (tree_blocks s ino)" and nb: "unat blk < unat (s_nblocks (sbi s))"
  shows "\<exists>k s1 b s2. gas_new_inode K (gas_evict_inode K s ino) dir mode = Some (Some k, None, s1) \<and>
    gas_get_block K s1 k blk True = Some (None, Some b, s2)"
proof -
  note f = files_ok_simps [OF ok]
  note e = evict_unlinked [OF f(1) ino read n m f(5) [OF ino] f(6) [OF ino] f(7) [OF ino]]
  define s0 where "s0 = gas_evict_inode K s ino"
  have ok0: "files_ok (I - {ino}) s0" unfolding s0_def by (rule evict_files [OF ok ino read n m])
  note v = vol_ok_simps [OF files_ok_simps(1) [OF ok0]]
  have z: "data_zone s0 = data_zone s" by (simp add: s0_def data_zone_def e(6))
  have t: "tree_blocks s ino \<subseteq> data_zone s \<inter> used_blocks s" by (rule tree_wf_zone [OF vol_ok_simps(5) [OF f(1)] ino])
  have fin: "finite (data_zone s)" by (simp add: data_zone_def)
  have "data_zone s0 - used_blocks s0 = (data_zone s - used_blocks s) \<union> tree_blocks s ino" unfolding z using t e(2) [folded s0_def] by auto
  moreover have "card ((data_zone s - used_blocks s) \<union> tree_blocks s ino) = card (data_zone s - used_blocks s) + card (tree_blocks s ino)"
    using t fin by (intro card_Un_disjoint) (auto intro: finite_subset)
  ultimately have room0: "4 \<le> card (data_zone s0 - used_blocks s0)" using room by simp
  have free: "ino \<notin> used_inodes s0" "ino < BITS_PER_BLOCK * unat (s_iam_blocks (sbi s0))"
  proof -
    show "ino \<notin> used_inodes s0" using e(3) by (simp add: s0_def)
    have "ino \<in> used_inodes s" using f(3) ino by blast
    then show "ino < BITS_PER_BLOCK * unat (s_iam_blocks (sbi s0))"
      using vol_ok_simps(2) [OF f(1)] by (simp add: s0_def e(6) used_inodes_def map_bits_def iam_wf_def)
  qed
  obtain k s1 where k: "gas_new_inode K s0 dir mode = Some (Some k, None, s1)"
    using v(2)
  proof (cases rule: gas_new_inode_cases [of s0 dir mode])
    case nospace
    then show ?thesis using free by blast
  qed (use mem that in auto)
  have lay: "set (s_bam_bh (sbi s0)) \<inter> set (s_iam_bh (sbi s0)) = {}" using v(3) by (simp add: layout_wf_def)
  note g = gas_new_inode_found [OF v(2) lay k] and nf = new_inode_files [OF ok0 k]
  have "data_zone s1 - used_blocks s1 = data_zone s0 - used_blocks s0" using g(14,15) by (simp add: data_zone_def)
  then have "4 \<le> card (data_zone s1 - used_blocks s1)" using room0 by simp
  moreover have "unat blk < unat (s_nblocks (sbi s1))" using nb by (simp add: g(14) s0_def e(6))
  ultimately obtain b s2 where "gas_get_block K s1 k blk True = Some (None, Some b, s2)"
    using get_block_succeeds [OF files_ok_simps(1) [OF nf(1)] insertI1 read] by blast
  then show ?thesis using k unfolding s0_def by blast
qed

end

text \<open>
  C8. A full volume does not stay full. Once a file without links is evicted, a new file can be created and any of
  its blocks be mapped, provided the blocks it gave up and the free ones are four together, the longest
  path in a block tree: the search finds its number and its blocks, wherever the last searches stopped.
\<close>

theorem deletion_makes_room:
  assumes "page_cache K" and "files_ok I s" and "ino \<in> I" and "\<And>bf n. sb_bread K bf n \<noteq> None" and "\<And>t. new_inode K t \<noteq> None"
    and "i_nlink (icache s ino) = 0"
    and "S_ISREG (i_mode (icache s ino)) \<or> S_ISDIR (i_mode (icache s ino)) \<or> S_ISLNK (i_mode (icache s ino))"
    and "4 \<le> card (data_zone s - used_blocks s) + card (tree_blocks s ino)" and "unat blk < unat (s_nblocks (sbi s))"
  shows "\<exists>k s1 b s2. gas_new_inode K (gas_evict_inode K s ino) dir mode = Some (Some k, None, s1) \<and>
    gas_get_block K s1 k blk True = Some (None, Some b, s2)"
  by (rule page_cache.evict_then_create [OF assms])

theorem deletion_makes_room_witness:
  "\<exists>ino s s1 k b s2. gas_new_inode ref_page_services empty_file_volume 1 0x81A4 = Some (Some ino, None, s) \<and>
     gas_new_inode ref_page_services (gas_evict_inode ref_page_services (upd_inode ino (\<lambda>i. i\<lparr>i_nlink := 0\<rparr>) s) ino) 1 0x81A4 =
       Some (Some k, None, s1) \<and>
     gas_get_block ref_page_services s1 k 1000 True = Some (None, Some b, s2)"
proof -
  obtain ino s where n: "gas_new_inode ref_page_services empty_file_volume 1 0x81A4 = Some (Some ino, None, s)"
    and f: "files_ok {ino} s" "S_ISREG (i_mode (icache s ino))" using example_new_file by blast
  have wf: "iam_wf empty_file_volume" by (rule vol_ok_simps(2) [OF files_ok_simps(1) [OF empty_volume_files]])
  have lay: "set (s_bam_bh (sbi empty_file_volume)) \<inter> set (s_iam_bh (sbi empty_file_volume)) = {}" by (simp add: example_sb_def)
  note g = ref_pages.gas_new_inode_found [OF wf lay n]
  define t where "t = upd_inode ino (\<lambda>i. i\<lparr>i_nlink := 0\<rparr>) s"
  have t: "files_ok {ino} t" unfolding t_def by (rule set_links_files(1) [OF f(1)]) simp
  have "data_zone t - used_blocks t = data_zone s - used_blocks s" by (simp add: t_def data_zone_def used_blocks_def)
  also have "\<dots> = data_zone empty_file_volume - used_blocks empty_file_volume" using g(14,15) by (simp add: data_zone_def)
  also have "\<dots> = {7..<1024}" by (rule empty_file_volume_wf(5))
  finally have "4 \<le> card (data_zone t - used_blocks t) + card (tree_blocks t ino)" by simp
  moreover have "unat (1000 :: u64) < unat (s_nblocks (sbi t))" by (simp add: t_def g(14) example_sb_def)
  moreover have "i_nlink (icache t ino) = 0" "S_ISREG (i_mode (icache t ino))" using f(2) by (simp_all add: t_def)
  ultimately have "\<exists>k s1 b s2. gas_new_inode ref_page_services (gas_evict_inode ref_page_services t ino) 1 0x81A4 = Some (Some k, None, s1) \<and>
      gas_get_block ref_page_services s1 k 1000 True = Some (None, Some b, s2)"
    by (intro deletion_makes_room [OF ref_pages.page_cache_axioms t]) simp_all
  then show ?thesis using n unfolding t_def by blast
qed

end
