(* ===== verification/Gas_Dir_Spec.thy ===== *)
theory Gas_Dir_Spec
  imports Gas_Dir_Iterate Gas_Life
begin

text \<open>
  What the directory operations of \<^verbatim>\<open>src/kern/gas_dir.c\<close> promise to the operations on names, stated on
  the map from names to inode numbers, with reference services and an example directory.
\<close>

section \<open>Reference services\<close>

definition ref_dir_fields where
  "ref_dir_fields = dir_services.fields (\<lambda>s ino n. Inr s) (\<lambda>s ino n. Some s)
     (\<lambda>gb s ino n pos len. ref_call True gb s ino n) (\<lambda>s ino n pos len. s) (\<lambda>s ino n. (None, s)) (\<lambda>s ino. False)"

definition ref_dir_services :: dir_services where
  "ref_dir_services = page_services.extend ref_page_services ref_dir_fields"

lemma ref_dir_services_simps [simp]:
  "find_first_zero_bit ref_dir_services = find_first_zero_bit makefs_bitops"
  "bit_set ref_dir_services = bit_set makefs_bitops"
  "test_and_clear_bit ref_dir_services = test_and_clear_bit makefs_bitops"
  "hweight16 ref_dir_services = hweight16 makefs_bitops"
  "sb_bread ref_dir_services bf n = Some (bf n)"
  "iget_locked ref_dir_services s n = Iget_new (ref_fresh_inode n)"
  "new_decode_dev ref_dir_services = ref_decode_dev" "new_encode_dev ref_dir_services = ref_encode_dev"
  "init_special_inode ref_dir_services = ref_special_inode"
  "new_inode ref_dir_services s = Some (ref_fresh_inode 0)"
  "inode_init_owner ref_dir_services = (\<lambda>i d m. i\<lparr>i_mode := m, i_uid := i_uid d, i_gid := i_gid d\<rparr>)"
  "block_truncate_page ref_dir_services = ref_truncate_page"
  "truncate_inode_pages ref_dir_services = ref_drop_pages"
  "truncate_pagecache ref_dir_services = ref_drop_pages"
  "block_write_full_page ref_dir_services = ref_call True"
  "mpage_writepages ref_dir_services gb s ino = Some (None, s)"
  "mpage_readpage ref_dir_services = ref_call False"
  "mpage_readpages ref_dir_services gb s ino ns = Some (None, s)"
  "blockdev_direct_IO ref_dir_services gb rw s ino iov off = Some (0, s)"
  "block_write_begin ref_dir_services gb s ino pos len = ref_call True gb s ino (pos div 4096)"
  "generic_write_end ref_dir_services = ref_write_end"
  "generic_block_bmap ref_dir_services = ref_bmap"
  "read_mapping_page ref_dir_services s ino n = Inr s" "grab_cache_page ref_dir_services s ino n = Some s"
  "block_write_begin_page ref_dir_services gb s ino n pos len = ref_call True gb s ino n"
  "block_write_end ref_dir_services s ino n pos len = s" "write_one_page ref_dir_services s ino n = (None, s)"
  "is_dirsync ref_dir_services s ino = False"
  by (simp_all add: ref_dir_services_def ref_dir_fields_def ref_page_services_def ref_page_fields_def ref_tree_services_def
      ref_alloc_services_def ref_inode_services_def bitops.extend_def inode_services.extend_def alloc_services.extend_def
      itree_services.extend_def page_services.extend_def inode_services.fields_def alloc_services.fields_def
      itree_services.fields_def page_services.fields_def dir_services.fields_def fun_eq_iff)

lemma ref_call_prepare:
  "ref_call True gb s ino n = Some (e, s') \<Longrightarrow>
     \<exists>s1. (s1 = s \<or> (\<exists>e' m. gb s ino (word_of_nat n) True = Some (e', m, s1))) \<and> s' = s1\<lparr>b_dirty := b_dirty s'\<rparr>"
  by (auto simp: ref_call_def split: option.splits intro: exI [of _ s'])

interpretation ref_dirs: directory_io ref_dir_services
proof unfold_locales
  show "block_write_begin ref_dir_services gb s ino pos len \<noteq> None"
    if "\<And>s' b c. buffer_calls gb ino s s' \<Longrightarrow> gb s' ino b c \<noteq> None" for gb s ino pos len
    unfolding ref_dir_services_simps by (rule ref_call_total) (rule that)
  show "\<exists>sz p d. s' = upd_inode ino (\<lambda>i. i\<lparr>i_size := sz, i_dirty := d\<rparr>) (s\<lparr>pages := p, b_dirty := b_dirty s'\<rparr>) \<and>
      sz \<in> {i_size (icache s ino), pos + copied} \<and> (\<forall>i. i \<noteq> ino \<longrightarrow> p i = pages s i)"
    if "generic_write_end ref_dir_services s ino pos len copied = (r, s')" for s ino pos len copied r s'
    using ref_write_end_shape that by simp
  show "block_write_begin_page ref_dir_services gb s ino n pos len \<noteq> None"
    if "\<And>b. gb s ino b True \<noteq> None" for gb s ino n pos len
    using that [of "word_of_nat n"] by (auto simp: ref_call_def)
  show "\<exists>s1. (s1 = s \<or> (\<exists>e' m. gb s ino (word_of_nat n) True = Some (e', m, s1))) \<and> s' = s1\<lparr>b_dirty := b_dirty s'\<rparr>"
    if "block_write_begin_page ref_dir_services gb s ino n pos len = Some (e, s')" for gb s ino n pos len e s'
    using that unfolding ref_dir_services_simps by (rule ref_call_prepare)
qed (auto simp: makefs.ffzb makefs.bit_set makefs.test_and_clear_old makefs.test_and_clear_new makefs.hweight
      ref_decode_encode ref_special_inode_def ref_fresh_inode_def ref_truncate_page_def set_page_def
      ref_drop_pages_def done_calls ref_bmap_def dest: ref_call_buffer)

section \<open>An example directory\<close>

text \<open>On the empty example volume a directory inode is created; it has no entry yet.\<close>

lemma new_dir_ok:
  "\<exists>ino s. gas_new_inode ref_dir_services empty_file_volume 1 0x41ED = Some (Some ino, None, s) \<and> files_ok {ino} s \<and>
     dir_wf s ino \<and> nslots (icache s ino) = 0 \<and> dir_map s ino = Map.empty \<and> i_size (icache s ino) = 0 \<and>
     (\<forall>m. \<not> live s ino m) \<and> (word_of_nat ino :: u32) \<noteq> 0 \<and> i_ino (icache s ino) = ino \<and>
     data_zone s - used_blocks s = {7..<1024} \<and> pages s ino = (\<lambda>_ _. 0) \<and>
     used_inodes s = insert ino ({0} \<union> {256..<BITS_PER_BLOCK}) \<and> s_iam_blocks (sbi s) = 1 \<and> (\<forall>i m. \<not> live s i m)"
proof -
  have "iam_wf empty_file_volume" by (rule vol_ok_simps(2) [OF files_ok_simps(1) [OF empty_volume_files]])
  then obtain ino s where r: "gas_new_inode ref_dir_services empty_file_volume 1 0x41ED = Some (Some ino, None, s)"
  proof (cases rule: ref_dirs.gas_new_inode_cases [of _ 1 "0x41ED"])
    case nospace
    then show ?thesis using empty_volume_has_inode by blast
  qed auto
  have lay: "set (s_bam_bh (sbi empty_file_volume)) \<inter> set (s_iam_bh (sbi empty_file_volume)) = {}" by (simp add: example_sb_def)
  note f = ref_dirs.gas_new_inode_found [OF \<open>iam_wf empty_file_volume\<close> lay r]
  note ok = ref_dirs.new_inode_files(1) [OF empty_volume_files r]
  have ino: "1 \<le> ino" "ino < 256" using files_ok_simps(6,7) [OF ok, of ino] f(14) by (simp_all add: example_sb_def)
  have "unat (word_of_nat ino :: u32) = ino" using ino(2) by (simp add: unat_of_nat)
  then have w: "(word_of_nat ino :: u32) \<noteq> 0" using ino(1) by (metis not_one_le_zero unat_0)
  have sz: "i_size (icache s ino) = dir_size 0" using f(7) by (simp add: dir_size_def)
  have pg: "pages s = (\<lambda>_ _ _. 0)" using f(13) by (simp add: empty_file_volume_def example_volume_def example_fs_def)
  have dead: "\<not> live s i m" for i m using pg by (simp add: live_def dslot_def load_dentry_def get_le32_def)
  have "used_blocks s = used_blocks empty_file_volume" "data_zone s = data_zone empty_file_volume"
    using f(15) by (simp_all add: data_zone_def f(14))
  then have room: "data_zone s - used_blocks s = {7..<1024}" using empty_file_volume_wf(5) by simp
  have wf: "dir_wf s ino" "nslots (icache s ino) = 0" by (rule dir_wfI [OF sz]; simp add: dead)+
  have "dir_map s ino = Map.empty" by (rule ext) (simp add: dir_map_None [OF wf(1)] dead)
  moreover have "used_inodes s = insert ino ({0} \<union> {256..<BITS_PER_BLOCK})" "s_iam_blocks (sbi s) = 1"
    using f(3) example_volume_used_inodes f(14) by (simp_all add: used_inodes_def example_sb_def)
  ultimately show ?thesis using r ok wf sz dead w f(5) room pg by (auto simp: dir_size_def)
qed

lemma ref_dirs_readable: "pages_readable ref_dir_services s dir"
  by (simp add: pages_readable_def)

lemma vol_ok_insert_dir: "files_ok {ino} s \<Longrightarrow> vol_ok {ino} s"
  by (rule files_ok_simps)

text \<open>With room on the volume the reference services prepare a chunk and add an entry without error.\<close>

lemma ref_prepare_ok:
  assumes "vol_ok I s" and "dir \<in> I" and "unat (word_of_nat n :: u64) < unat (s_nblocks (sbi s))"
    and "data_zone s - used_blocks s = {7..<1024}"
  shows "\<exists>s1. gas_dir_prepare_chunk ref_dir_services s dir n pos len = Some (None, s1)"
proof -
  have "4 \<le> card (data_zone s - used_blocks s)" by (simp add: assms(4))
  from ref_dirs.get_block_succeeds [OF assms(1,2) _ assms(3) this] show ?thesis
    by (auto simp: gas_dir_prepare_chunk_def ref_call_def)
qed

lemma new_dir_add_ok:
  assumes "files_ok {ino} s" and wf: "dir_wf s ino" "nslots (icache s ino) = 0" "dir_map s ino = Map.empty"
    and room: "data_zone s - used_blocks s = {7..<1024}" and name: "length name < GAS_MAX_NAME_LEN"
  shows "\<exists>s1. gas_add_link ref_dir_services s ino name inode = Some (None, s1)"
proof -
  have free: "\<not> live s ino 0" using wf(1,2) by (simp add: dir_wf_def)
  obtain m where m: "m \<le> nslots (icache s ino)" "stops s ino name m"
    and r: "gas_add_link ref_dir_services s ino name inode = (if live s ino m then Some (Some EEXIST, s)
      else add_got_it ref_dir_services s ino (m div 15) (GAS_DIR_ENTRY_SIZE * (m mod 15)) name inode)"
    using ref_dirs.add_link_slots [OF name ref_dirs_readable wf(1)] by blast
  have "m = 0" using m(1) wf(2) by simp
  have z: "data_zone s \<noteq> {}" using room by auto
  then have "unat (0 :: u64) < unat (s_nblocks (sbi s))" by (auto simp: data_zone_def)
  then obtain s1 where "gas_dir_prepare_chunk ref_dir_services s ino 0 0 260 = Some (None, s1)"
    using ref_prepare_ok [OF vol_ok_insert_dir [OF assms(1)], of ino 0 0 260] room by auto
  then show ?thesis
    using r free \<open>m = 0\<close> by (simp add: add_got_it_def Let_def page_offset_def gas_dir_commit_chunk_def)
qed

section \<open>Properties\<close>

text \<open>
  C15. \<^verbatim>\<open>gas_add_link\<close> on a directory that does not have the name always returns, and touches no other file.
  Either the directory, seen as a map, has gained exactly the new name with the number of the inode, or
  an error is reported and the map is as it was; the directory stays well formed, in particular free
  slots are used again and no name occurs twice.
\<close>

theorem gas_add_link_correct:
  assumes "directory_io K" and "vol_ok I s" and "dir \<in> I" and "dir_wf s dir" and "pages_readable K s dir"
    and "0 \<notin> set name" and "length name < GAS_MAX_NAME_LEN" and "dir_map s dir name = None"
    and "v = word_of_nat (i_ino (icache s inode))" and "v \<noteq> 0"
  shows "\<exists>e s'. gas_add_link K s dir name inode = Some (e, s') \<and> local_op I dir s s' \<and> dir_wf s' dir \<and>
    (dir_map s' dir = (dir_map s dir)(name \<mapsto> v) \<or> e \<noteq> None \<and> dir_map s' dir = dir_map s dir)"
  by (rule directory_io.add_link_map [OF assms])

theorem gas_add_link_correct_witness:
  "\<exists>ino s e s'. gas_new_inode ref_dir_services empty_file_volume 1 0x41ED = Some (Some ino, None, s) \<and>
     gas_add_link ref_dir_services s ino [97, 98] ino = Some (e, s') \<and>
     (dir_map s' ino = [[97, 98] \<mapsto> word_of_nat ino] \<or> e \<noteq> None)"
proof -
  obtain ino s where d: "gas_new_inode ref_dir_services empty_file_volume 1 0x41ED = Some (Some ino, None, s)" "files_ok {ino} s"
    "dir_wf s ino" "dir_map s ino = Map.empty" "(word_of_nat ino :: u32) \<noteq> 0" "i_ino (icache s ino) = ino"
    using new_dir_ok by blast
  have "\<exists>e s'. gas_add_link ref_dir_services s ino [97, 98] ino = Some (e, s') \<and> local_op {ino} ino s s' \<and> dir_wf s' ino \<and>
    (dir_map s' ino = (dir_map s ino)([97, 98] \<mapsto> word_of_nat ino) \<or> e \<noteq> None \<and> dir_map s' ino = dir_map s ino)"
    by (rule gas_add_link_correct [OF ref_dirs.directory_io_axioms vol_ok_insert_dir [OF d(2)] _ d(3) ref_dirs_readable])
      (use d(4-6) in simp_all)
  then show ?thesis using d(1,4) by auto
qed

text \<open>
  C17. \<^verbatim>\<open>gas_find_entry\<close> decides the map: it finds an entry exactly when the directory has the name, and the
  entry it points to holds the name and the inode number the map gives; it changes nothing.
\<close>

theorem gas_find_entry_correct:
  assumes "directory_io K" and "dir_wf s dir" and "pages_readable K s dir" and "length name < GAS_MAX_NAME_LEN"
  shows "\<exists>d. gas_find_entry K s dir name = (d, s) \<and>
    (case d of None \<Rightarrow> dir_map s dir name = None
     | Some (n, p) \<Rightarrow> de_name (load_dentry (pages s dir n) p) = name \<and>
         dir_map s dir name = Some (de_inode (load_dentry (pages s dir n) p)))"
proof -
  obtain d where f: "gas_find_entry K s dir name = (d, s)" and
    c: "case d of None \<Rightarrow> dir_map s dir name = None
     | Some (n, p) \<Rightarrow> \<exists>m. n = m div 15 \<and> p = GAS_DIR_ENTRY_SIZE * (m mod 15) \<and> live s dir m \<and> de_name (dslot s dir m) = name \<and>
         dir_map s dir name = Some (de_inode (load_dentry (pages s dir n) p))"
    using directory_io.find_entry_map [OF assms] by blast
  show ?thesis
  proof (cases d)
    case (Some np)
    then show ?thesis using f c by (cases np) (auto simp: dslot_def)
  qed (use f c in simp)
qed

theorem gas_find_entry_correct_witness:
  "\<exists>ino s. gas_new_inode ref_dir_services empty_file_volume 1 0x41ED = Some (Some ino, None, s) \<and>
     gas_find_entry ref_dir_services s ino dot = (None, s)"
proof -
  obtain ino s where d: "gas_new_inode ref_dir_services empty_file_volume 1 0x41ED = Some (Some ino, None, s)"
    "dir_wf s ino" "dir_map s ino = Map.empty" using new_dir_ok by blast
  then show ?thesis
    using gas_find_entry_correct [OF ref_dirs.directory_io_axioms d(2) ref_dirs_readable, of dot]
    by (cases "fst (gas_find_entry ref_dir_services s ino dot)") (auto simp: dot_def)
qed

text \<open>
  C16. Creating a name and deleting it again restores the directory. When \<^verbatim>\<open>gas_add_link\<close> succeeds,
  \<^verbatim>\<open>gas_find_entry\<close> finds the new entry, and \<^verbatim>\<open>gas_delete_entry\<close> on it returns, leaves no other file
  changed and, unless it reports an error, the map is the one before.
\<close>

theorem directory_add_delete:
  assumes "directory_io K" and "vol_ok I s" and "dir \<in> I" and "dir_wf s dir" and "\<And>t. pages_readable K t dir"
    and "0 \<notin> set name" and "length name < GAS_MAX_NAME_LEN" and "dir_map s dir name = None"
    and "word_of_nat (i_ino (icache s inode)) \<noteq> (0 :: u32)"
    and "gas_add_link K s dir name inode = Some (None, s1)"
  shows "\<exists>de e s2. gas_find_entry K s1 dir name = (Some de, s1) \<and> gas_delete_entry K s1 dir de = Some (e, s2) \<and>
    local_op I dir s s2 \<and> dir_wf s2 dir \<and> (e = None \<longrightarrow> dir_map s2 dir = dir_map s dir)"
proof -
  have a: "local_op I dir s s1" "dir_wf s1 dir" "dir_map s1 dir = (dir_map s dir)(name \<mapsto> word_of_nat (i_ino (icache s inode)))"
    using directory_io.add_link_map [OF assms(1-8) refl assms(9)] assms(10) by auto
  obtain d where f: "gas_find_entry K s1 dir name = (d, s1)" and
    c: "case d of None \<Rightarrow> dir_map s1 dir name = None
     | Some (n, p) \<Rightarrow> \<exists>m. n = m div 15 \<and> p = GAS_DIR_ENTRY_SIZE * (m mod 15) \<and> live s1 dir m \<and> de_name (dslot s1 dir m) = name \<and>
         dir_map s1 dir name = Some (de_inode (load_dentry (pages s1 dir n) p))"
    using directory_io.find_entry_map [OF assms(1) a(2) assms(5,7)] by blast
  obtain m where m: "d = Some (m div 15, GAS_DIR_ENTRY_SIZE * (m mod 15))" "live s1 dir m" "de_name (dslot s1 dir m) = name"
    using c a(3) by (cases d) auto
  obtain e s2 where del: "gas_delete_entry K s1 dir (m div 15, GAS_DIR_ENTRY_SIZE * (m mod 15)) = Some (e, s2)"
    "local_op I dir s1 s2" "dir_wf s2 dir"
    "dir_map s2 dir = (dir_map s1 dir)(de_name (dslot s1 dir m) := None) \<or> e \<noteq> None \<and> dir_map s2 dir = dir_map s1 dir"
    using directory_io.delete_entry_map [OF assms(1) local_op_ok [OF a(1)] assms(3) a(2) m(2)] by blast
  have "(dir_map s1 dir)(name := None) = dir_map s dir" using assms(8) by (simp add: a(3) fun_eq_iff)
  then show ?thesis using f m(1,3) del local_op_trans [OF a(1) del(2)] by auto
qed

theorem directory_add_delete_witness:
  "\<exists>ino s s1 de e s2. gas_new_inode ref_dir_services empty_file_volume 1 0x41ED = Some (Some ino, None, s) \<and>
     gas_add_link ref_dir_services s ino [97] ino = Some (None, s1) \<and>
     gas_find_entry ref_dir_services s1 ino [97] = (Some de, s1) \<and> gas_delete_entry ref_dir_services s1 ino de = Some (e, s2) \<and>
     (e = None \<longrightarrow> dir_map s2 ino = Map.empty)"
proof -
  obtain ino s where d: "gas_new_inode ref_dir_services empty_file_volume 1 0x41ED = Some (Some ino, None, s)" "files_ok {ino} s"
    "dir_wf s ino" "dir_map s ino = Map.empty" "(word_of_nat ino :: u32) \<noteq> 0" "i_ino (icache s ino) = ino"
    "nslots (icache s ino) = 0" "data_zone s - used_blocks s = {7..<1024}"
    using new_dir_ok by blast
  obtain s1 where a: "gas_add_link ref_dir_services s ino [97] ino = Some (None, s1)"
    using new_dir_add_ok [OF d(2,3,7,4,8), of "[97]"] by auto
  have "\<exists>de e s2. gas_find_entry ref_dir_services s1 ino [97] = (Some de, s1) \<and> gas_delete_entry ref_dir_services s1 ino de = Some (e, s2) \<and>
    local_op {ino} ino s s2 \<and> dir_wf s2 ino \<and> (e = None \<longrightarrow> dir_map s2 ino = dir_map s ino)"
    by (rule directory_add_delete [OF ref_dirs.directory_io_axioms vol_ok_insert_dir [OF d(2)] _ d(3) ref_dirs_readable _ _ _ _ a])
      (use d(4-6) in simp_all)
  then show ?thesis using d(1,4) a by auto
qed

text \<open>A directory inode of the example with a given page 0 and size.\<close>

lemma shaped_dir:
  assumes "files_ok {ino} s" and "s' = upd_inode ino (\<lambda>i. i\<lparr>i_size := sz\<rparr>) (set_page ino 0 b s)"
  shows "vol_ok {ino} s'" "i_ino (icache s' ino) = ino" "i_size (icache s' ino) = sz"
    "(\<And>m. \<not> live s ino m) \<Longrightarrow> 15 \<le> m \<Longrightarrow> \<not> live s' ino m" "m < 15 \<Longrightarrow> dslot s' ino m = load_dentry b (GAS_DIR_ENTRY_SIZE * m)"
    "files_ok {ino} s'"
proof -
  have "local_op {ino} ino s (set_page ino 0 b s)" by (rule ref_dirs.set_page_local [OF vol_ok_insert_dir [OF assms(1)]])
  moreover have "local_op {ino} ino (set_page ino 0 b s) s'"
    by (rule local_op_inode [OF local_op_ok [OF calculation]]) (simp_all add: assms(2))
  ultimately have "local_op {ino} ino s s'" by (rule local_op_trans)
  then show "vol_ok {ino} s'" "files_ok {ino} s'" using local_op_ok local_op_files [OF assms(1)] by blast+
  show "i_ino (icache s' ino) = ino" "i_size (icache s' ino) = sz"
    using files_ok_simps(5) [OF assms(1), of ino] by (simp_all add: assms(2))
  show "m < 15 \<Longrightarrow> dslot s' ino m = load_dentry b (GAS_DIR_ENTRY_SIZE * m)" by (simp add: dslot_def assms(2))
  show "\<not> live s' ino m" if "\<And>m. \<not> live s ino m" "15 \<le> m"
  proof -
    have "m div 15 \<noteq> 0" using that(2) by (simp add: div_eq_0_iff)
    then have "dslot s' ino m = dslot s ino m" by (simp add: dslot_def assms(2))
    then show ?thesis using that(1) [of m] by (simp add: live_def)
  qed
qed

text \<open>
  C18. In a directory of one page the lookup that walks it (\<^verbatim>\<open>gas_inode_by_name\<close>, used by
  \<^verbatim>\<open>gas_lookup\<close>) computes the map: the inode number of the name, or 0 when the directory does not have it.
\<close>

theorem gas_inode_by_name_correct:
  assumes "directory_io K" and "dir_wf s dir" and "pages_readable K s dir" and "nslots (icache s dir) \<le> 15"
  shows "gas_inode_by_name K s dir name = Some (case dir_map s dir name of None \<Rightarrow> 0 | Some v \<Rightarrow> unat v, s)"
  by (rule directory_io.inode_by_name_map(1) [OF assms])

theorem gas_inode_by_name_correct_witness:
  "\<exists>ino s s1. gas_new_inode ref_dir_services empty_file_volume 1 0x41ED = Some (Some ino, None, s) \<and>
     s1 = upd_inode ino (\<lambda>i. i\<lparr>i_size := 520\<rparr>) (set_page ino 0 (first_page (\<lambda>_. 0) 9 1) s) \<and>
     gas_inode_by_name ref_dir_services s1 ino dotdot = Some (1, s1)"
proof -
  obtain ino s where d: "gas_new_inode ref_dir_services empty_file_volume 1 0x41ED = Some (Some ino, None, s)" "files_ok {ino} s"
    "\<And>m. \<not> live s ino m" using new_dir_ok by blast
  define s1 where "s1 = upd_inode ino (\<lambda>i. i\<lparr>i_size := 520\<rparr>) (set_page ino 0 (first_page (\<lambda>_. 0) 9 1) s)"
  note sh = shaped_dir [OF d(2) s1_def]
  have m: "dir_wf s1 ino" "nslots (icache s1 ino) = 2" "dir_map s1 ino = [dot \<mapsto> 9, dotdot \<mapsto> 1]"
    using first_page_dir [of s1 ino "\<lambda>_. 0" 9 1] sh(3-5) d(3) by (simp_all add: dir_size_def)
  have "dotdot \<noteq> dot" by (simp add: dot_def dotdot_def)
  then have "gas_inode_by_name ref_dir_services s1 ino dotdot = Some (1, s1)"
    using gas_inode_by_name_correct [OF ref_dirs.directory_io_axioms m(1) ref_dirs_readable] m(2,3) by simp
  then show ?thesis using d(1) s1_def by blast
qed

text \<open>
  C19. In a directory with more than one page the walk leaves the page: after the fifteenth entry it is at
  offset 3900, below the page size, and reads an entry of 260 bytes there. Every lookup of a name that
  is not among the first fifteen entries, whether the directory has it or not, reads beyond the page.
\<close>

theorem gas_inode_by_name_overrun:
  assumes "directory_io K" and "dir_wf s dir" and "pages_readable K s dir" and "15 < nslots (icache s dir)"
    and "\<And>m. m < 15 \<Longrightarrow> live s dir m \<Longrightarrow> de_name (dslot s dir m) \<noteq> name"
  shows "gas_inode_by_name K s dir name = None"
  by (rule directory_io.inode_by_name_map(2) [OF assms])

theorem gas_inode_by_name_overrun_witness:
  "\<exists>ino s s1. gas_new_inode ref_dir_services empty_file_volume 1 0x41ED = Some (Some ino, None, s) \<and>
     s1 = upd_inode ino (\<lambda>i. i\<lparr>i_size := 4096 + 260\<rparr>) (set_page ino 0 (\<lambda>_. 0) s) \<and>
     gas_inode_by_name ref_dir_services s1 ino dotdot = None"
proof -
  obtain ino s where d: "gas_new_inode ref_dir_services empty_file_volume 1 0x41ED = Some (Some ino, None, s)" "files_ok {ino} s"
    "\<And>m. \<not> live s ino m" "pages s ino = (\<lambda>_ _. 0)" using new_dir_ok by blast
  define s1 where "s1 = upd_inode ino (\<lambda>i. i\<lparr>i_size := 4096 + 260\<rparr>) (set_page ino 0 (\<lambda>_. 0) s)"
  note sh = shaped_dir [OF d(2) s1_def]
  have sz: "i_size (icache s1 ino) = dir_size 16" using sh(3) by (simp add: dir_size_def)
  have "cstr (\<lambda>_. 0) p 256 = []" for p using cstr.simps(2) [of "\<lambda>_. 0" p 255] by simp
  moreover have "pages s1 ino k = (\<lambda>_. 0)" for k by (simp add: s1_def d(4))
  ultimately have ds: "dslot s1 ino m = \<lparr>de_name = [], de_inode = 0\<rparr>" for m
    by (simp only: dslot_def load_dentry_def) (simp add: get_le32_def)
  have wf: "dir_wf s1 ino" "nslots (icache s1 ino) = 16"
    by (rule dir_wfI [OF sz]; simp add: ds dentry_ok_def live_def)+
  have "gas_inode_by_name ref_dir_services s1 ino dotdot = None"
    by (rule gas_inode_by_name_overrun [OF ref_dirs.directory_io_axioms wf(1) ref_dirs_readable]) (simp_all add: wf(2) ds live_def)
  then show ?thesis using d(1) s1_def by blast
qed

text \<open>
  C20. \<^verbatim>\<open>gas_empty_dir\<close>, which guards the removal of directories, holds exactly of the directories whose
  only names are \<open>..\<close> and \<open>.\<close> for the directory itself; it changes nothing.
\<close>

theorem gas_empty_dir_correct:
  assumes "directory_io K" and "dir_wf s dir" and "pages_readable K s dir"
  shows "gas_empty_dir K s dir =
    ((\<forall>name v. dir_map s dir name = Some v \<longrightarrow> name = dotdot \<or> name = dot \<and> unat v = i_ino (icache s dir)), s)"
  using directory_io.empty_dir_iff [OF assms] by (simp add: harmless_def)

theorem gas_empty_dir_correct_witness:
  "\<exists>ino s s1. gas_new_inode ref_dir_services empty_file_volume 1 0x41ED = Some (Some ino, None, s) \<and>
     s1 = upd_inode ino (\<lambda>i. i\<lparr>i_size := 520\<rparr>) (set_page ino 0 (first_page (\<lambda>_. 0) (word_of_nat ino + 1) 1) s) \<and>
     gas_empty_dir ref_dir_services s ino = (True, s) \<and> (ino < 100 \<longrightarrow> gas_empty_dir ref_dir_services s1 ino = (False, s1))"
proof -
  obtain ino s where d: "gas_new_inode ref_dir_services empty_file_volume 1 0x41ED = Some (Some ino, None, s)" "files_ok {ino} s"
    "\<And>m. \<not> live s ino m" "dir_wf s ino" "dir_map s ino = Map.empty" using new_dir_ok by blast
  define s1 where "s1 = upd_inode ino (\<lambda>i. i\<lparr>i_size := 520\<rparr>) (set_page ino 0 (first_page (\<lambda>_. 0) (word_of_nat ino + 1) 1) s)"
  note sh = shaped_dir [OF d(2) s1_def]
  have "gas_empty_dir ref_dir_services s1 ino = (False, s1)" if "ino < 100"
  proof -
    have v: "unat (word_of_nat ino + 1 :: u32) = Suc ino" using that by (simp add: unat_word_ariths unat_of_nat)
    then have "(word_of_nat ino + 1 :: u32) \<noteq> 0" by (metis nat.distinct(1) unat_0)
    then have m: "dir_wf s1 ino" "dir_map s1 ino = [dot \<mapsto> word_of_nat ino + 1, dotdot \<mapsto> 1]"
      using first_page_dir [of s1 ino "\<lambda>_. 0" "word_of_nat ino + 1" 1] sh(3-5) d(3) by (simp_all add: dir_size_def)
    have "dir_map s1 ino dot = Some (word_of_nat ino + 1)" "dot \<noteq> dotdot" by (simp_all add: m(2) dot_def dotdot_def)
    moreover have "unat (word_of_nat ino + 1 :: u32) \<noteq> i_ino (icache s1 ino)" using v sh(2) by simp
    ultimately show ?thesis
      using gas_empty_dir_correct [OF ref_dirs.directory_io_axioms m(1) ref_dirs_readable] by auto
  qed
  then show ?thesis
    using d(1,5) gas_empty_dir_correct [OF ref_dirs.directory_io_axioms d(4) ref_dirs_readable] s1_def by auto
qed

text \<open>
  C21. \<^verbatim>\<open>gas_make_empty\<close> on a new inode always returns and touches no other file; unless it reports an error
  with nothing written, the directory has exactly the entries \<open>.\<close> for itself and \<open>..\<close> for its parent,
  and \<^verbatim>\<open>gas_empty_dir\<close> accepts it.
\<close>

theorem gas_make_empty_correct:
  assumes "directory_io K" and "vol_ok I s" and "ino \<in> I" and "i_size (icache s ino) = 0" and "\<And>m. 15 \<le> m \<Longrightarrow> \<not> live s ino m"
    and "v = word_of_nat (i_ino (icache s ino))" and "v \<noteq> 0" and "u = word_of_nat (i_ino (icache s dir))" and "u \<noteq> 0"
    and "\<And>t. pages_readable K t ino" and "i_ino (icache s ino) < 2 ^ 32"
  shows "\<exists>e s'. gas_make_empty K s ino dir = Some (e, s') \<and> local_op I ino s s' \<and>
    (dir_wf s' ino \<and> dir_map s' ino = [dot \<mapsto> v, dotdot \<mapsto> u] \<and> gas_empty_dir K s' ino = (True, s') \<or>
     e \<noteq> None \<and> pages s' = pages s \<and> i_size (icache s' ino) = 0)"
proof -
  obtain e s' where r: "gas_make_empty K s ino dir = Some (e, s')" "local_op I ino s s'" and
    o: "dir_wf s' ino \<and> nslots (icache s' ino) = 2 \<and> dir_map s' ino = [dot \<mapsto> v, dotdot \<mapsto> u] \<or>
     e \<noteq> None \<and> pages s' = pages s \<and> i_size (icache s' ino) = 0"
    using directory_io.make_empty_map [OF assms(1-9)] by blast
  have "gas_empty_dir K s' ino = (True, s')" if wf: "dir_wf s' ino" and m: "dir_map s' ino = [dot \<mapsto> v, dotdot \<mapsto> u]"
  proof -
    have "unat v = i_ino (icache s' ino)"
      using assms(6,11) local_op_ino [OF r(2), of ino] by (simp add: unat_of_nat)
    then show ?thesis
      using directory_io.empty_dir_iff [OF assms(1) wf assms(10)] by (auto simp: m harmless_def)
  qed
  then show ?thesis using r o by blast
qed

theorem gas_make_empty_correct_witness:
  "\<exists>ino s e s'. gas_new_inode ref_dir_services empty_file_volume 1 0x41ED = Some (Some ino, None, s) \<and>
     gas_make_empty ref_dir_services s ino ino = Some (e, s') \<and>
     (gas_empty_dir ref_dir_services s' ino = (True, s') \<or> e \<noteq> None)"
proof -
  obtain ino s where d: "gas_new_inode ref_dir_services empty_file_volume 1 0x41ED = Some (Some ino, None, s)" "files_ok {ino} s"
    "\<And>m. \<not> live s ino m" "(word_of_nat ino :: u32) \<noteq> 0" "i_ino (icache s ino) = ino" "i_size (icache s ino) = 0" using new_dir_ok by blast
  have "ino < 2 ^ 32"
  proof -
    have "unat (s_ninodes (sbi s)) < 2 ^ LENGTH(32)" by (rule unsigned_less)
    then show ?thesis using files_ok_simps(7) [OF d(2), of ino] by simp
  qed
  then have "\<exists>e s'. gas_make_empty ref_dir_services s ino ino = Some (e, s') \<and> local_op {ino} ino s s' \<and>
    (dir_wf s' ino \<and> dir_map s' ino = [dot \<mapsto> word_of_nat ino, dotdot \<mapsto> word_of_nat ino] \<and>
       gas_empty_dir ref_dir_services s' ino = (True, s') \<or>
     e \<noteq> None \<and> pages s' = pages s \<and> i_size (icache s' ino) = 0)"
    by (intro gas_make_empty_correct [OF ref_dirs.directory_io_axioms vol_ok_insert_dir [OF d(2)] _ d(6)])
      (simp_all add: d ref_dirs_readable)
  then show ?thesis using d(1) by blast
qed

text \<open>
  C23. When a free slot precedes the entry with a name, \<^verbatim>\<open>gas_add_link\<close> does not notice that the name exists. It takes
  the first free slot \<open>j\<close>; if \<^verbatim>\<open>gas_dir_prepare_chunk\<close> cannot make room for it, the call reports that error;
  otherwise the directory has two live entries with the name, in \<open>j\<close> and where it was.
\<close>

theorem gas_add_link_duplicates:
  assumes "directory_io K" and "vol_ok I s" and "dir \<in> I" and "dir_wf s dir" and "pages_readable K s dir"
    and "0 \<notin> set name" and "length name < GAS_MAX_NAME_LEN" and "(v :: u32) = word_of_nat (i_ino (icache s inode))" and "v \<noteq> 0"
    and "live s dir k" and "de_name (dslot s dir k) = name" and "m < k" and "\<not> live s dir m"
  shows "\<exists>j<k. \<not> live s dir j \<and> (\<forall>i<j. live s dir i) \<and>
    (\<exists>e1 s1 e s'. gas_dir_prepare_chunk K s dir (j div 15) (page_offset (j div 15) + GAS_DIR_ENTRY_SIZE * (j mod 15)) GAS_DIR_ENTRY_SIZE =
        Some (e1, s1) \<and> gas_add_link K s dir name inode = Some (e, s') \<and>
      (if e1 \<noteq> None then e = e1 \<and> s' = s1
       else live s' dir j \<and> de_name (dslot s' dir j) = name \<and> de_inode (dslot s' dir j) = v \<and>
         live s' dir k \<and> de_name (dslot s' dir k) = name))"
proof -
  obtain j where j: "\<forall>i<j. \<not> stops s dir name i" "stops s dir name j"
    and r: "gas_add_link K s dir name inode = (if live s dir j then Some (Some EEXIST, s)
      else add_got_it K s dir (j div 15) (GAS_DIR_ENTRY_SIZE * (j mod 15)) name inode)"
    using directory_io.add_link_slots [OF assms(1,7,5,4)] by blast
  have "j \<le> m" using j(1) assms(13) by (meson not_le stops_def)
  then have jk: "j < k" using assms(12) by simp
  have free: "\<not> live s dir j"
    using j(2) jk dir_wf_simps(3) [OF assms(4) assms(10), of j] assms(11) by (auto simp: stops_def)
  have low: "\<forall>i<j. live s dir i" using j(1) by (simp add: stops_def)
  obtain e1 s1 e s' where p: "gas_dir_prepare_chunk K s dir (j div 15) (page_offset (j div 15) + GAS_DIR_ENTRY_SIZE * (j mod 15)) GAS_DIR_ENTRY_SIZE =
      Some (e1, s1)" and a: "add_got_it K s dir (j div 15) (GAS_DIR_ENTRY_SIZE * (j mod 15)) name inode = Some (e, s')"
    and o: "if e1 = None then dslot s' dir = (dslot s dir)(j := \<lparr>de_name = name, de_inode = v\<rparr>) \<and>
        i_size (icache s' dir) = max (i_size (icache s dir)) (dir_size (Suc j))
      else e = e1 \<and> s' = s1 \<and> pages s' = pages s \<and> i_size (icache s' dir) = i_size (icache s dir)"
    using directory_io.add_got_it_cases [OF assms(1-3,6-8), of j] by blast
  have g: "gas_add_link K s dir name inode = Some (e, s')" using r free a by simp
  have "if e1 \<noteq> None then e = e1 \<and> s' = s1
    else live s' dir j \<and> de_name (dslot s' dir j) = name \<and> de_inode (dslot s' dir j) = v \<and>
      live s' dir k \<and> de_name (dslot s' dir k) = name"
  proof (cases e1)
    case None
    then have "dslot s' dir = (dslot s dir)(j := \<lparr>de_name = name, de_inode = v\<rparr>)" using o by simp
    then show ?thesis using None jk assms(9-11) by (simp add: live_def)
  next
    case (Some x)
    then show ?thesis using o by simp
  qed
  then show ?thesis using jk free low p g by blast
qed

theorem gas_add_link_duplicates_witness:
  "\<exists>ino s s1 e s2. gas_new_inode ref_dir_services empty_file_volume 1 0x41ED = Some (Some ino, None, s) \<and>
     s1 = upd_inode ino (\<lambda>i. i\<lparr>i_size := 520\<rparr>) (set_page ino 0 (put_le32 (first_page (\<lambda>_. 0) 5 7) 256 0) s) \<and>
     gas_add_link ref_dir_services s1 ino dotdot ino = Some (e, s2) \<and>
     live s2 ino 0 \<and> de_name (dslot s2 ino 0) = dotdot \<and> live s2 ino 1 \<and> de_name (dslot s2 ino 1) = dotdot"
proof -
  obtain ino s where d: "gas_new_inode ref_dir_services empty_file_volume 1 0x41ED = Some (Some ino, None, s)" "files_ok {ino} s"
    "\<And>m. \<not> live s ino m" "(word_of_nat ino :: u32) \<noteq> 0" "data_zone s - used_blocks s = {7..<1024}" using new_dir_ok by blast
  define s0 where "s0 = upd_inode ino (\<lambda>i. i\<lparr>i_size := 520\<rparr>) (set_page ino 0 (first_page (\<lambda>_. 0) 5 7) s)"
  define b where "b = put_le32 (first_page (\<lambda>_. 0) 5 7) 256 0"
  define s1 where "s1 = upd_inode ino (\<lambda>i. i\<lparr>i_size := 520\<rparr>) (set_page ino 0 b s)"
  note h0 = shaped_dir [OF d(2) s0_def] and h1 = shaped_dir [OF d(2) s1_def]
  have wf0: "dir_wf s0 ino" "nslots (icache s0 ino) = 2"
    using first_page_dir [of s0 ino "\<lambda>_. 0" 5 7] h0(3-5) d(3) by (simp_all add: dir_size_def)
  have ds0: "dslot s0 ino 0 = \<lparr>de_name = dot, de_inode = 5\<rparr>" "dslot s0 ino 1 = \<lparr>de_name = dotdot, de_inode = 7\<rparr>"
    using first_page_slots(1,2) [of "\<lambda>_. 0" 5 7] h0(5) by simp_all
  have "s1 = set_page ino (0 div 15) (put_le32 (pages s0 ino (0 div 15)) (GAS_DIR_ENTRY_SIZE * (0 mod 15) + 256) 0) s0"
    by (simp add: s0_def s1_def b_def set_page_def upd_inode_def)
  then have ds: "dslot s1 ino = (dslot s0 ino)(0 := (dslot s0 ino 0)\<lparr>de_inode := 0\<rparr>)"
    using dslot_put_inode [of ino 0 s0 0] by (auto simp: fun_eq_iff)
  have l0: "live s0 ino 0" by (simp add: live_def ds0)
  have wf1: "dir_wf s1 ino" using dir_remove(1) [OF wf0(1) l0 ds] h0(3) h1(3) by simp
  have sl: "live s1 ino 1" "de_name (dslot s1 ino 1) = dotdot" "\<not> live s1 ino 0" by (simp_all add: ds live_def ds0 del: One_nat_def)
  have "data_zone s1 - used_blocks s1 = {7..<1024}" using d(5) by (simp add: s1_def data_zone_def used_blocks_def)
  moreover from this have "unat (0 :: u64) < unat (s_nblocks (sbi s1))" by (cases "s_nblocks (sbi s1) = 0") (auto simp: data_zone_def unat_gt_0)
  ultimately obtain s3 where p: "gas_dir_prepare_chunk ref_dir_services s1 ino 0 0 260 = Some (None, s3)"
    using ref_prepare_ok [OF h1(1), of ino 0 0 260] by auto
  have "\<exists>j<1. \<not> live s1 ino j \<and> (\<forall>i<j. live s1 ino i) \<and>
    (\<exists>e1 t e s2. gas_dir_prepare_chunk ref_dir_services s1 ino (j div 15) (page_offset (j div 15) + GAS_DIR_ENTRY_SIZE * (j mod 15)) GAS_DIR_ENTRY_SIZE =
        Some (e1, t) \<and> gas_add_link ref_dir_services s1 ino dotdot ino = Some (e, s2) \<and>
      (if e1 \<noteq> None then e = e1 \<and> s2 = t
       else live s2 ino j \<and> de_name (dslot s2 ino j) = dotdot \<and> de_inode (dslot s2 ino j) = word_of_nat (i_ino (icache s1 ino)) \<and>
         live s2 ino 1 \<and> de_name (dslot s2 ino 1) = dotdot))"
    by (rule gas_add_link_duplicates [OF ref_dirs.directory_io_axioms h1(1) _ wf1 ref_dirs_readable _ _ refl _ sl(1,2) _ sl(3)])
      (use d(4) h1(2) in \<open>simp_all add: dotdot_def\<close>)
  then obtain e s2 where "gas_add_link ref_dir_services s1 ino dotdot ino = Some (e, s2)"
    "live s2 ino 0" "de_name (dslot s2 ino 0) = dotdot" "live s2 ino 1" "de_name (dslot s2 ino 1) = dotdot"
    using p by (auto simp: page_offset_def)
  then show ?thesis using d(1) unfolding s1_def b_def by blast
qed

text \<open>The walk with an actor that collects what it gets.\<close>

lemma visit_collect:
  assumes "actor ctx = (\<lambda>c name len off ino ty. (0, c @ [(name, ino)]))"
  shows "visit ctx ds = (False, ctx\<lparr>ctx_pos := ctx_pos ctx + GAS_DIR_ENTRY_SIZE * length ds,
    ctx_data := ctx_data ctx @ map (\<lambda>d. (de_name d, unat (de_inode d))) (filter (\<lambda>d. de_inode d \<noteq> 0) ds)\<rparr>)"
  using assms
proof (induction ds arbitrary: ctx)
  case (Cons d ds)
  show ?case
  proof (cases "de_inode d = 0")
    case True
    then show ?thesis using Cons.IH [of "ctx\<lparr>ctx_pos := ctx_pos ctx + 260\<rparr>"] Cons.prems by simp
  next
    case False
    let ?c = "ctx\<lparr>ctx_data := ctx_data ctx @ [(de_name d, unat (de_inode d))]\<rparr>"
    have "dir_emit ctx (de_name d) (length (de_name d)) (unat (de_inode d)) DT_UNKNOWN = (True, ?c)"
      by (simp add: dir_emit_def Cons.prems)
    then show ?thesis using False Cons.IH [of "?c\<lparr>ctx_pos := ctx_pos ctx + 260\<rparr>"] Cons.prems by simp
  qed
qed simp

text \<open>
  C22. Listing a directory of one page: \<^verbatim>\<open>gas_readdir\<close> from the start, with an actor that takes every entry,
  delivers every live entry once, in order, with its inode number, and stops behind the last slot, so that
  a further call delivers nothing.
\<close>

theorem gas_readdir_lists:
  assumes "directory_io K" and "dir_wf s dir" and "pages_readable K s dir" and "nslots (icache s dir) \<le> 15"
  shows "let ctx = \<lparr>actor = (\<lambda>c name len off ino ty. (0, c @ [(name, ino)])), ctx_pos = 0, ctx_data = []\<rparr>;
      ctx' = ctx\<lparr>ctx_pos := GAS_DIR_ENTRY_SIZE * nslots (icache s dir),
        ctx_data := map (\<lambda>(name, v). (name, unat v)) (dir_list s dir)\<rparr>
    in gas_readdir K s dir ctx = Some (None, ctx', s) \<and> gas_readdir K s dir ctx' = Some (None, ctx', s)"
proof -
  let ?n = "nslots (icache s dir)" and ?f = "\<lambda>c name len off ino ty. (0, c @ [(name, ino)])"
  define ctx where "ctx = \<lparr>actor = ?f, ctx_pos = 0, ctx_data = []\<rparr>"
  define l where "l = map (\<lambda>(name, v). (name, unat v)) (dir_list s dir)"
  define ctx' where "ctx' = ctx\<lparr>ctx_pos := GAS_DIR_ENTRY_SIZE * ?n, ctx_data := l\<rparr>"
  have lv: "live s dir = (\<lambda>m. de_inode (dslot s dir m) \<noteq> 0)" by (rule ext) (simp add: live_def)
  have l: "map (\<lambda>d. (de_name d, unat (de_inode d))) (filter (\<lambda>d. de_inode d \<noteq> 0) (map (dslot s dir) [0..<?n])) = l"
    by (simp add: l_def dir_list_def filter_map o_def lv)
  have "visit ctx (map (dslot s dir) [0..<?n]) = (False, ctx')"
    using visit_collect [of ctx "map (dslot s dir) [0..<?n]"] unfolding l by (simp add: ctx_def ctx'_def)
  then have "gas_readdir K s dir ctx = Some (None, ctx', s)"
    using directory_io.iterate_visit [OF assms(1-3), of 0 ctx] assms(4) by (simp add: gas_readdir_def ctx_def min_absorb1)
  moreover have "gas_readdir K s dir ctx' = Some (None, ctx', s)"
    using directory_io.iterate_visit [OF assms(1-3), of ?n ctx'] assms(4) by (simp add: gas_readdir_def ctx'_def min_absorb1)
  ultimately show ?thesis unfolding ctx'_def l_def ctx_def Let_def by simp
qed

theorem gas_readdir_lists_witness:
  "\<exists>ino s. gas_new_inode ref_dir_services empty_file_volume 1 0x41ED = Some (Some ino, None, s) \<and>
     gas_readdir ref_dir_services s ino \<lparr>actor = (\<lambda>c name len off ino ty. (0, c @ [(name, ino)])), ctx_pos = 0, ctx_data = []\<rparr> =
       Some (None, \<lparr>actor = (\<lambda>c name len off ino ty. (0, c @ [(name, ino)])), ctx_pos = 0, ctx_data = []\<rparr>, s)"
proof -
  obtain ino s where d: "gas_new_inode ref_dir_services empty_file_volume 1 0x41ED = Some (Some ino, None, s)" "dir_wf s ino"
    "nslots (icache s ino) = 0" using new_dir_ok by blast
  then show ?thesis
    using gas_readdir_lists [OF ref_dirs.directory_io_axioms d(2) ref_dirs_readable] by (auto simp: Let_def dir_list_def)
qed

end
