(* ===== verification/Gas_Namei_Spec.thy ===== *)
theory Gas_Namei_Spec
  imports Gas_Namei Gas_Dir_Spec
begin

text \<open>
  The operations of \<^verbatim>\<open>src/kern/gas_namei.c\<close> composed from directories, inodes and blocks: what they do
  to the map of the directory, to link counts, inode numbers and blocks, on every path that returns.
\<close>

section \<open>What the operations rely on\<close>

text \<open>
  \<open>iput\<close> keeps the inode or, on the last reference, hands it to the eviction function; \<open>page_symlink\<close> works on
  the inode through its address space operations, and returns if the writing operations do.
\<close>

locale name_io = directory_io K for K :: "'k namei_services_scheme" +
  assumes iput: "iput K ev s ino = s \<or> iput K ev s ino = ev s ino"
    and symlink: "page_symlink K ops s ino target n = Some (e, s') \<Longrightarrow> aop_calls ops ino s s'"
    and symlink_total: "(\<And>s' pos len copied. aop_calls ops ino s s' \<Longrightarrow>
        ops s' ino (Write_begin pos len) \<noteq> Aop_undefined \<and> ops s' ino (Write_end pos len copied) \<noteq> Aop_undefined) \<Longrightarrow>
      page_symlink K ops s ino target n \<noteq> None"

section \<open>Frames\<close>

lemma dir_frame:
  assumes "local_op I ino s s'" and "dir \<noteq> ino"
  shows "dir_map s' dir = dir_map s dir" "dir_wf s' dir = dir_wf s dir" "nslots (icache s' dir) = nslots (icache s dir)"
    "icache s' dir = icache s dir"
proof -
  have e: "pages s' dir = pages s dir" "icache s' dir = icache s dir" using assms by (simp_all add: local_op_def)
  then have z: "i_size (icache s' dir) = i_size (icache s dir)" by simp
  show "dir_map s' dir = dir_map s dir" "dir_wf s' dir = dir_wf s dir" by (rule dir_same [OF e(1) z])+
  show "nslots (icache s' dir) = nslots (icache s dir)" "icache s' dir = icache s dir" by (simp_all add: e(2))
qed

lemma local_op_nlink: "local_op I ino s s' \<Longrightarrow> i_nlink (icache s' k) = i_nlink (icache s k)"
  by (cases "k = ino") (simp_all add: local_op_def)

lemma local_op_mode: "local_op I ino s s' \<Longrightarrow> i_mode (icache s' k) = i_mode (icache s k)"
  by (cases "k = ino") (simp_all add: local_op_def)

lemma local_op_used: "local_op I ino s s' \<Longrightarrow> used_inodes s' = used_inodes s"
  by (simp add: local_op_def)

lemma upd_inode_upd_inode: "upd_inode ino f (upd_inode ino g s) = upd_inode ino (\<lambda>i. f (g i)) s"
  by (simp add: upd_inode_def)

text \<open>A change of fields of an inode that keeps its size leaves every directory as it was.\<close>

lemma dir_upd_inode:
  assumes "i_size (f (icache s ino)) = i_size (icache s ino)"
  shows "dir_map (upd_inode ino f s) dir = dir_map s dir" "dir_wf (upd_inode ino f s) dir = dir_wf s dir"
  by (rule dir_same; use assms in simp)+

lemma file_number_word:
  assumes "files_ok I s" and "ino \<in> I"
  shows "(word_of_nat ino :: u32) \<noteq> 0" "unat (word_of_nat ino :: u32) = ino"
proof -
  have "unat (s_ninodes (sbi s)) < 2 ^ LENGTH(32)" by (rule unsigned_less)
  then have "ino < 2 ^ 32" using files_ok_simps(7) [OF assms] by simp
  then show u: "unat (word_of_nat ino :: u32) = ino" by (simp add: unat_of_nat)
  show "(word_of_nat ino :: u32) \<noteq> 0" using u files_ok_simps(6) [OF assms] by (metis not_one_le_zero unat_0)
qed

section \<open>Creating a file\<close>

context name_io
begin

text \<open>Releasing an inode that has links leaves it allocated.\<close>

lemma put_linked:
  assumes "vol_ok I s" and "i_nlink (icache s ino) \<noteq> 0"
  shows "local_op I ino s (put_inode K ino s)"
  using iput [of "gas_evict_inode K" s ino] local_op_refl [OF assms(1)] evict_linked(1) [OF assms] by (auto simp: put_inode_def)

lemma add_nondir_map:
  assumes ok: "files_ok I s" and dir: "dir \<in> I" and ino: "inode \<in> I" "inode \<noteq> dir" and wf: "dir_wf s dir"
    and rd: "pages_readable K s dir" and name: "0 \<notin> set name" "length name < GAS_MAX_NAME_LEN"
    and new: "dir_map s dir name = None" and n: "i_nlink (icache s inode) \<noteq> 0"
  shows "\<exists>e d s'. add_nondir K s dir name inode = Some (e, d, s') \<and> files_ok I s' \<and> unowned I s' = unowned I s \<and>
    used_inodes s' = used_inodes s \<and> dir_wf s' dir \<and> (\<forall>k. i_nlink (icache s' k) = i_nlink (icache s k)) \<and> (\<forall>k. i_mode (icache s' k) = i_mode (icache s k)) \<and>
    (\<forall>k. k \<noteq> dir \<longrightarrow> k \<noteq> inode \<longrightarrow> icache s' k = icache s k \<and> pages s' k = pages s k) \<and>
    (e = None \<longrightarrow> dir_map s' dir = (dir_map s dir)(name \<mapsto> word_of_nat inode)) \<and> d = (if e = None then Some inode else None)"
proof -
  have v: "word_of_nat inode = (word_of_nat (i_ino (icache s inode)) :: u32)" using files_ok_simps(5) [OF ok ino(1)] by simp
  obtain e s1 where a: "gas_add_link K s dir name inode = Some (e, s1)" "local_op I dir s s1" "dir_wf s1 dir"
    "dir_map s1 dir = (dir_map s dir)(name \<mapsto> word_of_nat inode) \<or> e \<noteq> None \<and> dir_map s1 dir = dir_map s dir"
    using add_link_map [OF files_ok_simps(1) [OF ok] dir wf rd name new v file_number_word(1) [OF ok ino(1)]] by blast
  note f1 = local_op_files [OF ok a(2)] local_op_unowned [OF a(2) dir] local_op_used [OF a(2)] local_op_nlink [OF a(2)] local_op_mode [OF a(2)]
  show ?thesis
  proof (cases e)
    case None
    then show ?thesis using a f1 by (auto simp: add_nondir_def local_op_def)
  next
    case (Some err)
    have "i_nlink (icache s1 inode) \<noteq> 0" using n f1(4) by simp
    note p = put_linked [OF local_op_ok [OF a(2)] this]
    note f2 = local_op_files [OF f1(1) p] local_op_unowned [OF p ino(1)] local_op_used [OF p] local_op_nlink [OF p] local_op_mode [OF p]
    have "dir_wf (put_inode K inode s1) dir" using dir_frame(2) [OF p] a(3) ino(2) by simp
    moreover have "icache (put_inode K inode s1) k = icache s k \<and> pages (put_inode K inode s1) k = pages s k"
      if "k \<noteq> dir" "k \<noteq> inode" for k
      using a(2) p that by (simp add: local_op_def)
    ultimately show ?thesis using a(1) Some f1 f2 by (simp add: add_nondir_def)
  qed
qed

end

context name_io
begin

text \<open>A new inode that has been given its operations.\<close>

lemma fresh_inode:
  assumes ok: "files_ok I s" and r: "gas_new_inode K s dir mode = Some (Some ino, e, s1)"
    and s2: "s2 = upd_inode ino f s1" and f: "blkaddr (f (icache s1 ino)) = blkaddr (icache s1 ino)"
      "i_ino (f (icache s1 ino)) = i_ino (icache s1 ino)" "i_size (f (icache s1 ino)) = i_size (icache s1 ino)"
  shows "ino \<notin> I" "e = None" "files_ok (insert ino I) s2" "unowned (insert ino I) s2 = unowned I s"
    "used_inodes s2 = insert ino (used_inodes s)" "i_nlink (icache s1 ino) = 1" "i_size (icache s2 ino) = 0"
    "i_mode (icache s1 ino) AND S_IFMT = mode AND S_IFMT" "k \<noteq> ino \<Longrightarrow> icache s2 k = icache s k" "pages s2 = pages s"
    "d \<in> I \<Longrightarrow> dir_map s2 d = dir_map s d" "d \<in> I \<Longrightarrow> dir_wf s2 d = dir_wf s d" "ino \<notin> used_inodes s"
proof -
  note v = vol_ok_simps [OF files_ok_simps(1) [OF ok]]
  have lay: "set (s_bam_bh (sbi s)) \<inter> set (s_iam_bh (sbi s)) = {}" using v(3) by (simp add: layout_wf_def)
  note n = gas_new_inode_found [OF v(2) lay r] and fl = new_inode_files [OF ok r]
  note u = inode_fields_files [where f = f and ino = ino, OF fl(1) f(1,2), folded s2]
  show "ino \<notin> I" "e = None" "i_nlink (icache s1 ino) = 1" "i_mode (icache s1 ino) AND S_IFMT = mode AND S_IFMT"
    "ino \<notin> used_inodes s" by (rule fl(3) n(1) n(6) n(9) n(2))+
  show "files_ok (insert ino I) s2" "unowned (insert ino I) s2 = unowned I s" "used_inodes s2 = insert ino (used_inodes s)"
    using u fl(2) n(3) by simp_all
  show "i_size (icache s2 ino) = 0" using n(7) f(3) by (simp add: s2)
  have k: "icache s2 k = icache s k" if "k \<noteq> ino" for k using n(11) [OF that] that by (simp add: s2)
  then show "k \<noteq> ino \<Longrightarrow> icache s2 k = icache s k" .
  show p: "pages s2 = pages s" using n(13) by (simp add: s2)
  have "pages s2 d = pages s d" "i_size (icache s2 d) = i_size (icache s d)" if "d \<in> I" for d
  proof -
    have "d \<noteq> ino" using that fl(3) by blast
    then show "pages s2 d = pages s d" "i_size (icache s2 d) = i_size (icache s d)" using k p by simp_all
  qed
  then show "d \<in> I \<Longrightarrow> dir_map s2 d = dir_map s d" "d \<in> I \<Longrightarrow> dir_wf s2 d = dir_wf s d"
    using dir_same by blast+
qed

text \<open>The common part of \<^verbatim>\<open>gas_create\<close> and \<^verbatim>\<open>gas_mknod\<close>.\<close>

lemma create_map:
  assumes ok: "files_ok I s" and dir: "dir \<in> I" and wf: "dir_wf s dir" and rd: "\<And>t. pages_readable K t dir"
    and name: "0 \<notin> set name" "length name < GAS_MAX_NAME_LEN" and new: "dir_map s dir name = None"
  shows "\<exists>e d s'. (case gas_new_inode K s dir mode of
        Some (Some inode, None, s) \<Rightarrow>
          let s = set_inode K inode rdev s; s = mark_inode_dirty inode s
          in add_nondir K s dir name inode
      | Some (_, err, s) \<Rightarrow> Some (err, None, s)
      | None \<Rightarrow> None) = Some (e, d, s') \<and> dir_wf s' dir \<and>
    (case d of
       Some ino \<Rightarrow> e = None \<and> ino \<notin> used_inodes s \<and> files_ok (insert ino I) s' \<and> unowned (insert ino I) s' = unowned I s \<and>
         used_inodes s' = insert ino (used_inodes s) \<and> dir_map s' dir = (dir_map s dir)(name \<mapsto> word_of_nat ino) \<and>
         i_nlink (icache s' ino) = 1 \<and> i_mode (icache s' ino) AND S_IFMT = mode AND S_IFMT \<and>
         (\<forall>k\<in>I - {dir}. icache s' k = icache s k \<and> pages s' k = pages s k)
     | None \<Rightarrow> e \<noteq> None \<and> (s' = s \<or> (\<exists>ino. ino \<notin> used_inodes s \<and> used_inodes s' = insert ino (used_inodes s) \<and>
         files_ok (insert ino I) s' \<and> unowned (insert ino I) s' = unowned I s \<and> i_nlink (icache s' ino) = 1)))"
proof -
  note v = vol_ok_simps [OF files_ok_simps(1) [OF ok]]
  from v(2) show ?thesis
  proof (cases rule: gas_new_inode_cases [of s dir mode])
    case (found i b ip s1)
    define ino s0 where "ino = b + 32768 * i" and "s0 = mark_inode_dirty ino (upd_inode ino (\<lambda>_. ip) s1)"
    have r: "gas_new_inode K s dir mode = Some (Some ino, None, s0)" using found(10) by (simp add: ino_def s0_def)
    define f where "f j = (gas_set_inode K j rdev)\<lparr>i_dirty := True\<rparr>" for j
    define s2 where "s2 = upd_inode ino f s0"
    have s2': "mark_inode_dirty ino (set_inode K ino rdev s0) = s2"
      by (simp add: s2_def f_def mark_inode_dirty_def set_inode_def upd_inode_upd_inode)
    have ff: "blkaddr (f (icache s0 ino)) = blkaddr (icache s0 ino)" "i_ino (f (icache s0 ino)) = i_ino (icache s0 ino)"
      "i_size (f (icache s0 ino)) = i_size (icache s0 ino)" by (simp_all add: f_def gas_set_inode_fields)
    note fr = fresh_inode [OF ok r s2_def ff]
    have nl: "i_nlink (icache s2 ino) = 1" "i_mode (icache s2 ino) AND S_IFMT = mode AND S_IFMT"
      using fr(6,8) by (simp_all add: s2_def f_def gas_set_inode_fields)
    have ne: "ino \<noteq> dir" using fr(1) dir by blast
    have wf2: "dir_wf s2 dir" "dir_map s2 dir name = None" using fr(11,12) [OF dir] wf new by simp_all
    obtain e d s' where a: "add_nondir K s2 dir name ino = Some (e, d, s')" "files_ok (insert ino I) s'"
      "unowned (insert ino I) s' = unowned (insert ino I) s2" "used_inodes s' = used_inodes s2" "dir_wf s' dir"
      "\<forall>k. i_nlink (icache s' k) = i_nlink (icache s2 k)" "\<forall>k. i_mode (icache s' k) = i_mode (icache s2 k)"
      "\<forall>k. k \<noteq> dir \<longrightarrow> k \<noteq> ino \<longrightarrow> icache s' k = icache s2 k \<and> pages s' k = pages s2 k"
      "e = None \<longrightarrow> dir_map s' dir = (dir_map s2 dir)(name \<mapsto> word_of_nat ino)" "d = (if e = None then Some ino else None)"
      using add_nondir_map [OF fr(3) insertI2 [OF dir] insertI1 ne wf2(1) rd name wf2(2)] nl by auto
    have "\<forall>k\<in>I - {dir}. icache s' k = icache s k \<and> pages s' k = pages s k"
      using a(8) fr(1,9,10) by auto
    then show ?thesis
      using a fr(4,5,11,13) dir nl r s2' by (cases "e = None") (auto simp: Let_def)
  qed (use wf in auto)
qed

lemma gas_create_map:
  assumes "files_ok I s" and "dir \<in> I" and "dir_wf s dir" and "\<And>t. pages_readable K t dir"
    and "0 \<notin> set name" "length name < GAS_MAX_NAME_LEN" and "dir_map s dir name = None"
  shows "\<exists>e d s'. gas_create K s dir name mode = Some (e, d, s') \<and> dir_wf s' dir \<and>
    (case d of
       Some ino \<Rightarrow> e = None \<and> ino \<notin> used_inodes s \<and> files_ok (insert ino I) s' \<and> unowned (insert ino I) s' = unowned I s \<and>
         used_inodes s' = insert ino (used_inodes s) \<and> dir_map s' dir = (dir_map s dir)(name \<mapsto> word_of_nat ino) \<and>
         i_nlink (icache s' ino) = 1 \<and> i_mode (icache s' ino) AND S_IFMT = mode AND S_IFMT \<and>
         (\<forall>k\<in>I - {dir}. icache s' k = icache s k \<and> pages s' k = pages s k)
     | None \<Rightarrow> e \<noteq> None \<and> (s' = s \<or> (\<exists>ino. ino \<notin> used_inodes s \<and> used_inodes s' = insert ino (used_inodes s) \<and>
         files_ok (insert ino I) s' \<and> unowned (insert ino I) s' = unowned I s \<and> i_nlink (icache s' ino) = 1)))"
  unfolding gas_create_def by (rule create_map [OF assms])

text \<open>Looking up a name is looking it up in the map and getting the inode.\<close>

lemma gas_lookup_map:
  assumes "dir_wf s dir" and "pages_readable K s dir" and "nslots (icache s dir) \<le> 15" and "length name < GAS_MAX_NAME_LEN"
  shows "gas_lookup K s dir name = (case dir_map s dir name of
      None \<Rightarrow> Some (None, None, s)
    | Some v \<Rightarrow> (case gas_iget K s (unat v) of (Inl e, s') \<Rightarrow> Some (Some e, None, s') | (Inr i, s') \<Rightarrow> Some (None, Some i, s')))"
proof (cases "dir_map s dir name")
  case None
  then show ?thesis using assms(4) inode_by_name_map(1) [OF assms(1-3), of name] by (simp add: gas_lookup_def)
next
  case (Some v)
  then obtain m where "live s dir m" "de_inode (dslot s dir m) = v" unfolding dir_map_Some [OF assms(1)] by blast
  then have "unat v \<noteq> 0" by (simp add: live_def unat_eq_0)
  then show ?thesis
    using Some assms(4) inode_by_name_map(1) [OF assms(1-3), of name] by (simp add: gas_lookup_def split: sum.split)
qed

end

section \<open>Removing and replacing names\<close>

context name_io
begin

lemma dec_link_upd: "inode_dec_link_count ino s = upd_inode ino (\<lambda>i. i\<lparr>i_nlink := i_nlink i - 1, i_dirty := True\<rparr>) s"
  by (simp add: inode_dec_link_count_def drop_nlink_def mark_inode_dirty_def upd_inode_upd_inode)

lemma inc_link_upd: "inode_inc_link_count ino s = upd_inode ino (\<lambda>i. i\<lparr>i_nlink := i_nlink i + 1, i_dirty := True\<rparr>) s"
  by (simp add: inode_inc_link_count_def inc_nlink_def mark_inode_dirty_def upd_inode_upd_inode)

lemma gas_unlink_map:
  assumes ok: "files_ok I s" and dir: "dir \<in> I" and wf: "dir_wf s dir" and rd: "pages_readable K s dir"
    and name: "length name < GAS_MAX_NAME_LEN" and ne: "inode \<noteq> dir"
  shows "if dir_map s dir name = None then gas_unlink K s dir name inode = Some (Some ENOENT, s)
    else \<exists>e s'. gas_unlink K s dir name inode = Some (e, s') \<and> files_ok I s' \<and> unowned I s' = unowned I s \<and>
      used_inodes s' = used_inodes s \<and> dir_wf s' dir \<and>
      (e = None \<longrightarrow> dir_map s' dir = (dir_map s dir)(name := None)) \<and>
      i_nlink (icache s' inode) = (if e = None then i_nlink (icache s inode) - 1 else i_nlink (icache s inode)) \<and>
      i_nlink (icache s' dir) = i_nlink (icache s dir) \<and> (\<forall>k. i_mode (icache s' k) = i_mode (icache s k)) \<and>
      (\<forall>k. k \<noteq> dir \<longrightarrow> k \<noteq> inode \<longrightarrow> icache s' k = icache s k \<and> pages s' k = pages s k)"
proof -
  obtain d where f: "gas_find_entry K s dir name = (d, s)" and
    c: "case d of None \<Rightarrow> dir_map s dir name = None
     | Some (n, p) \<Rightarrow> \<exists>m. n = m div 15 \<and> p = GAS_DIR_ENTRY_SIZE * (m mod 15) \<and> live s dir m \<and> de_name (dslot s dir m) = name \<and>
         dir_map s dir name = Some (de_inode (load_dentry (pages s dir n) p))"
    using find_entry_map [OF wf rd name] by blast
  show ?thesis
  proof (cases d)
    case None
    then show ?thesis using f c by (simp add: gas_unlink_def)
  next
    case (Some np)
    then obtain m w where m: "d = Some (m div 15, GAS_DIR_ENTRY_SIZE * (m mod 15))" "live s dir m" "de_name (dslot s dir m) = name"
      "dir_map s dir name = Some w" using c by (cases np) auto
    obtain e s1 where del: "gas_delete_entry K s dir (m div 15, GAS_DIR_ENTRY_SIZE * (m mod 15)) = Some (e, s1)"
      "local_op I dir s s1" "dir_wf s1 dir"
      "dir_map s1 dir = (dir_map s dir)(name := None) \<or> e \<noteq> None \<and> dir_map s1 dir = dir_map s dir"
      using delete_entry_map [OF files_ok_simps(1) [OF ok] dir wf m(2)] unfolding m(3) by blast
    note l = local_op_files [OF ok del(2)] local_op_unowned [OF del(2) dir] local_op_used [OF del(2)] local_op_nlink [OF del(2)] local_op_mode [OF del(2)]
    have oth: "icache s1 k = icache s k \<and> pages s1 k = pages s k" if "k \<noteq> dir" for k
      using del(2) that by (simp add: local_op_def)
    show ?thesis
    proof (cases e)
      case (Some err)
      then show ?thesis using f m(1,4) del l oth by (simp add: gas_unlink_def)
    next
      case None
      define g where "g i = i\<lparr>i_ctime := i_ctime (icache s1 dir), i_nlink := i_nlink i - 1, i_dirty := True\<rparr>" for i :: inode
      define s2 where "s2 = upd_inode inode g s1"
      have r: "gas_unlink K s dir name inode = Some (None, s2)"
        using f m(1) del(1) None
        by (simp add: gas_unlink_def Let_def dec_link_upd upd_inode_upd_inode s2_def g_def)
      have g: "blkaddr (g i) = blkaddr i" "i_ino (g i) = i_ino i" "i_size (g i) = i_size i" "i_nlink (g i) = i_nlink i - 1"
        "i_mode (g i) = i_mode i" for i by (simp_all add: g_def)
      note u = inode_fields_files [where f = g and ino = inode, OF l(1) g(1) g(2), folded s2_def]
      note w = dir_upd_inode [where f = g and ino = inode and s = s1, OF g(3), folded s2_def]
      have "i_nlink (icache s2 inode) = i_nlink (icache s inode) - 1" "i_nlink (icache s2 dir) = i_nlink (icache s dir)"
        "\<forall>k. k \<noteq> dir \<longrightarrow> k \<noteq> inode \<longrightarrow> icache s2 k = icache s k \<and> pages s2 k = pages s k"
        "\<forall>k. i_mode (icache s2 k) = i_mode (icache s k)"
        using l(4,5) g(4,5) ne oth by (simp_all add: s2_def)
      then show ?thesis using m(4) r u w del(3,4) l(2,3) None by simp
    qed
  qed
qed

lemma gas_rmdir_map:
  assumes ok: "files_ok I s" and dir: "dir \<in> I" and wf: "dir_wf s dir" "dir_wf s inode" and rd: "\<And>t i. pages_readable K t i"
    and name: "length name < GAS_MAX_NAME_LEN" and ne: "inode \<noteq> dir" and has: "dir_map s dir name \<noteq> None"
    and busy: "busy \<longleftrightarrow> (\<exists>nm v. dir_map s inode nm = Some v \<and> nm \<noteq> dotdot \<and> \<not> (nm = dot \<and> unat v = i_ino (icache s inode)))"
  shows "\<exists>e s'. gas_rmdir K s dir name inode = Some (e, s') \<and> files_ok I s' \<and> unowned I s' = unowned I s \<and>
    used_inodes s' = used_inodes s \<and> dir_wf s' dir \<and>
    (if busy then e = Some ENOTEMPTY \<and> s' = s
     else e = None \<longrightarrow> dir_map s' dir = (dir_map s dir)(name := None) \<and>
       i_nlink (icache s' inode) = i_nlink (icache s inode) - 2 \<and> i_nlink (icache s' dir) = i_nlink (icache s dir) - 1)"
proof -
  have e: "gas_empty_dir K s inode = (\<not> busy, s)"
    using empty_dir_iff [OF wf(2) rd] by (auto simp: harmless_def busy)
  show ?thesis
  proof (cases busy)
    case True
    then show ?thesis using e ok wf(1) by (auto simp: gas_rmdir_def)
  next
    case False
    obtain er s1 where u: "gas_unlink K s dir name inode = Some (er, s1)" "files_ok I s1" "unowned I s1 = unowned I s" "dir_wf s1 dir" "er = None \<longrightarrow> dir_map s1 dir = (dir_map s dir)(name := None)"
      "i_nlink (icache s1 inode) = (if er = None then i_nlink (icache s inode) - 1 else i_nlink (icache s inode))"
      "i_nlink (icache s1 dir) = i_nlink (icache s dir)" "used_inodes s1 = used_inodes s"
      using gas_unlink_map [OF ok dir wf(1) rd name ne] unfolding if_not_P [OF has] by blast
    show ?thesis
    proof (cases er)
      case (Some err)
      then show ?thesis using False e u by (simp add: gas_rmdir_def)
    next
      case None
      define s2 where "s2 = inode_dec_link_count dir s1"
      define s3 where "s3 = inode_dec_link_count inode s2"
      note u2 = inode_fields_files [where f = "\<lambda>i. i\<lparr>i_nlink := i_nlink i - 1, i_dirty := True\<rparr>" and ino = dir, OF u(2), folded dec_link_upd s2_def, simplified]
      note u3 = inode_fields_files [where f = "\<lambda>i. i\<lparr>i_nlink := i_nlink i - 1, i_dirty := True\<rparr>" and ino = inode, OF u2(1), folded dec_link_upd s3_def, simplified]
      have w: "dir_map s3 dir = dir_map s1 dir" "dir_wf s3 dir = dir_wf s1 dir"
        unfolding s3_def s2_def dec_link_upd by (simp_all add: dir_upd_inode)
      have n: "i_nlink (icache s3 inode) = i_nlink (icache s1 inode) - 1" "i_nlink (icache s3 dir) = i_nlink (icache s1 dir) - 1"
        using ne unfolding s3_def s2_def dec_link_upd by simp_all
      have "gas_rmdir K s dir name inode = Some (None, s3)"
        using e False u(1) None by (simp add: gas_rmdir_def s2_def s3_def)
      then show ?thesis using False u u2 u3 w n None by simp
    qed
  qed
qed

text \<open>\<^verbatim>\<open>gas_set_link\<close> leaves the entry, and every other, as it is.\<close>

lemma set_link_same:
  assumes ok: "vol_ok I s" and dir: "dir \<in> I" and wf: "dir_wf s dir" and m: "live s dir m"
  shows "\<exists>s'. gas_set_link K s dir (m div 15, GAS_DIR_ENTRY_SIZE * (m mod 15)) inode = Some s' \<and> local_op I dir s s' \<and>
    pages s' = pages s \<and> i_size (icache s' dir) = i_size (icache s dir)"
proof -
  define pos where "pos = page_offset (m div 15) + GAS_DIR_ENTRY_SIZE * (m mod 15)"
  have pos: "pos + GAS_DIR_ENTRY_SIZE = dir_size (Suc m)" using slot_end [of m] by (simp add: pos_def)
  have le: "dir_size (Suc m) \<le> i_size (icache s dir)"
    using dir_wf_simps(1) [OF wf] dir_wf_simps(4) [OF wf m] strict_mono_less_eq [OF dir_size_mono] by simp
  obtain e1 s1 where c: "gas_dir_prepare_chunk K s dir (m div 15) pos GAS_DIR_ENTRY_SIZE = Some (e1, s1)" and
    l1: "local_op I dir s s1" and f1: "pages s1 = pages s" "i_size (icache s1 dir) = i_size (icache s dir)"
    using prepare_chunk_local [OF ok dir] by blast
  show ?thesis
  proof (cases e1)
    case (Some e)
    note t = touch_dir_local [OF local_op_ok [OF l1], of dir]
    show ?thesis using c Some t f1 local_op_trans [OF l1 t(1)] by (simp add: gas_set_link_def Let_def pos_def)
  next
    case None
    obtain e3 s3 where r3: "gas_dir_commit_chunk K s1 dir (m div 15) pos GAS_DIR_ENTRY_SIZE = (e3, s3)" by fastforce
    note c3 = commit_chunk_local [OF local_op_ok [OF l1] r3]
    note t = touch_dir_local [OF local_op_ok [OF c3(1)], of dir]
    have "local_op I dir s (touch_dir K dir s3)" using l1 c3(1) t(1) local_op_trans by blast
    then show ?thesis using c None r3 t(2,3) c3(2,3) f1 pos le by (simp add: gas_set_link_def Let_def pos_def)
  qed
qed

end

section \<open>Making a directory\<close>

context name_io
begin

text \<open>Where a directory is not written synchronously, an error of \<^verbatim>\<open>gas_add_link\<close> comes before the entry is stored.\<close>

lemma add_link_async:
  assumes ok: "vol_ok I s" and dir: "dir \<in> I" and wf: "dir_wf s dir" and rd: "pages_readable K s dir"
    and name: "length name < GAS_MAX_NAME_LEN" and async: "\<And>t. \<not> is_dirsync K t dir"
    and r: "gas_add_link K s dir name inode = Some (Some e, s')"
  shows "dir_map s' dir = dir_map s dir"
proof -
  obtain m where a: "gas_add_link K s dir name inode = (if live s dir m then Some (Some EEXIST, s)
      else add_got_it K s dir (m div 15) (GAS_DIR_ENTRY_SIZE * (m mod 15)) name inode)"
    using add_link_slots [OF name rd wf] by blast
  show ?thesis
  proof (cases "live s dir m")
    case True
    then show ?thesis using a r by simp
  next
    case False
    let ?n = "m div 15" and ?pos = "page_offset (m div 15) + GAS_DIR_ENTRY_SIZE * (m mod 15)"
    obtain e1 s1 where c: "gas_dir_prepare_chunk K s dir ?n ?pos GAS_DIR_ENTRY_SIZE = Some (e1, s1)" and
      f: "pages s1 = pages s" "i_size (icache s1 dir) = i_size (icache s dir)" using prepare_chunk_local [OF ok dir] by blast
    have sync: "fst (gas_dir_commit_chunk K t dir ?n ?pos GAS_DIR_ENTRY_SIZE) = None" for t
      using async by (simp add: gas_dir_commit_chunk_def Let_def)
    have g: "add_got_it K s dir ?n (GAS_DIR_ENTRY_SIZE * (m mod 15)) name inode = Some (Some e, s')" using a r False by simp
    have "s' = s1"
    proof (cases e1)
      case (Some x)
      then show ?thesis using g unfolding add_got_it_def Let_def c Some option.case prod.case by simp
    next
      case None
      define s2 where "s2 = set_page dir ?n (store_dentry (pages s1 dir ?n) (GAS_DIR_ENTRY_SIZE * (m mod 15))
        \<lparr>de_name = name, de_inode = word_of_nat (i_ino (icache s1 inode))\<rparr>) s1"
      obtain s3 where "gas_dir_commit_chunk K s2 dir ?n ?pos GAS_DIR_ENTRY_SIZE = (None, s3)"
        using sync [of s2] by (cases "gas_dir_commit_chunk K s2 dir ?n ?pos GAS_DIR_ENTRY_SIZE") simp
      then show ?thesis using g unfolding add_got_it_def Let_def c None option.case prod.case s2_def [symmetric] by simp
    qed
    with f have "pages s' dir = pages s dir" "i_size (icache s' dir) = i_size (icache s dir)" by simp_all
    then show ?thesis by (rule dir_same(1))
  qed
qed

end

lemma isdir_or: "mode AND S_IFMT = 0 \<or> mode AND S_IFMT = S_IFDIR \<Longrightarrow> (S_IFDIR OR mode) AND S_IFMT = S_IFDIR"
  by (auto simp: bit.conj_disj_distrib2)

context name_io
begin

lemma mkdir_out_fail_spec:
  assumes ok: "files_ok J s" and ino: "inode \<in> J" and dir: "dir \<noteq> inode" and n: "i_nlink (icache s inode) = 2"
    and d: "S_ISDIR (i_mode (icache s inode))" and read: "\<And>bf n. sb_bread K bf n \<noteq> None"
  shows "\<exists>s' J'. mkdir_out_fail K e dir inode s = Some (Some e, None, s') \<and>
    i_nlink (icache s' dir) = i_nlink (icache s dir) - 1 \<and> dir_map s' dir = dir_map s dir \<and> dir_wf s' dir = dir_wf s dir \<and>
    files_ok J' s' \<and> unowned J' s' = unowned J s \<and>
    (J' = J - {inode} \<and> used_inodes s' = used_inodes s - {inode} \<or>
     J' = J \<and> used_inodes s' = used_inodes s \<and> i_nlink (icache s' inode) = 0)"
proof -
  let ?dec = "\<lambda>i :: inode. i\<lparr>i_nlink := i_nlink i - 1, i_dirty := True\<rparr>"
  define s2 where "s2 = upd_inode inode (\<lambda>i. ?dec (?dec i)) s"
  have s2: "inode_dec_link_count inode (inode_dec_link_count inode s) = s2"
    unfolding dec_link_upd upd_inode_upd_inode s2_def ..
  note u = inode_fields_files [where f = "\<lambda>i. ?dec (?dec i)" and ino = inode, OF ok, folded s2_def, simplified]
  have n2: "i_nlink (icache s2 inode) = 0" "S_ISDIR (i_mode (icache s2 inode))" using n d by (simp_all add: s2_def)
  have k2: "icache s2 dir = icache s dir" "pages s2 dir = pages s dir" using dir by (simp_all add: s2_def)
  define s3 where "s3 = put_inode K inode s2"
  have "\<exists>J'. files_ok J' s3 \<and> unowned J' s3 = unowned J s \<and> icache s3 dir = icache s dir \<and> pages s3 dir = pages s dir \<and>
    (J' = J - {inode} \<and> used_inodes s3 = used_inodes s - {inode} \<or>
     J' = J \<and> used_inodes s3 = used_inodes s \<and> i_nlink (icache s3 inode) = 0)"
  proof (cases "s3 = s2")
    case True
    then show ?thesis using u n2(1) k2 by blast
  next
    case False
    then have e: "s3 = gas_evict_inode K s2 inode" using iput [of "gas_evict_inode K" s2 inode] by (simp add: s3_def put_inode_def)
    note f = files_ok_simps [OF u(1)]
    have m: "S_ISREG (i_mode (icache s2 inode)) \<or> S_ISDIR (i_mode (icache s2 inode)) \<or> S_ISLNK (i_mode (icache s2 inode))"
      using n2(2) by blast
    note ev = evict_unlinked [OF f(1) ino read n2(1) m f(5) [OF ino] f(6) [OF ino] f(7) [OF ino]]
    have "icache s3 dir = icache s dir" "pages s3 dir = pages s dir" "used_inodes s3 = used_inodes s - {inode}"
      using ev(3,5) dir k2 u(3) by (simp_all add: e)
    then show ?thesis using evict_files [OF u(1) ino read n2(1) m] u(2) by (auto simp: e)
  qed
  then obtain J' where J': "files_ok J' s3" "unowned J' s3 = unowned J s" "icache s3 dir = icache s dir" "pages s3 dir = pages s dir"
    "J' = J - {inode} \<and> used_inodes s3 = used_inodes s - {inode} \<or> J' = J \<and> used_inodes s3 = used_inodes s \<and> i_nlink (icache s3 inode) = 0"
    by blast
  define s4 where "s4 = inode_dec_link_count dir s3"
  note w = inode_fields_files [where f = ?dec and ino = dir, OF J'(1), folded dec_link_upd s4_def, simplified]
  have "mkdir_out_fail K e dir inode s = Some (Some e, None, s4)"
    by (simp add: mkdir_out_fail_def Let_def s2 s3_def [symmetric] s4_def)
  moreover have "i_nlink (icache s4 dir) = i_nlink (icache s dir) - 1" "icache s4 inode = icache s3 inode"
    using J'(3) dir by (simp_all add: s4_def dec_link_upd)
  moreover have "dir_map s4 dir = dir_map s dir" "dir_wf s4 dir = dir_wf s dir"
  proof -
    have "pages s4 dir = pages s dir" "i_size (icache s4 dir) = i_size (icache s dir)" using J'(3,4) by (simp_all add: s4_def dec_link_upd)
    then show "dir_map s4 dir = dir_map s dir" "dir_wf s4 dir = dir_wf s dir" by (rule dir_same)+
  qed
  moreover have "J' = J - {inode} \<and> used_inodes s4 = used_inodes s - {inode} \<or>
    J' = J \<and> used_inodes s4 = used_inodes s \<and> i_nlink (icache s4 inode) = 0"
    using J'(5) w(3) calculation(3) by simp
  ultimately show ?thesis using w(1,2) J'(2) by (intro exI [of _ s4] exI [of _ J']) simp
qed

lemma gas_mkdir_map:
  assumes ok: "files_ok I s" and dir: "dir \<in> I" and wf: "dir_wf s dir" and rd: "\<And>t i. pages_readable K t i"
    and name: "0 \<notin> set name" "length name < GAS_MAX_NAME_LEN" and new: "dir_map s dir name = None"
    and read: "\<And>bf n. sb_bread K bf n \<noteq> None" and fresh: "\<And>i m. i \<notin> used_inodes s \<Longrightarrow> \<not> live s i m"
    and mode: "mode AND S_IFMT = 0 \<or> mode AND S_IFMT = S_IFDIR"
  shows "\<exists>e d s'. gas_mkdir K s dir name mode = Some (e, d, s') \<and>
    (case d of
       Some ino \<Rightarrow> e = None \<and> ino \<notin> used_inodes s \<and> files_ok (insert ino I) s' \<and> unowned (insert ino I) s' = unowned I s \<and>
         used_inodes s' = insert ino (used_inodes s) \<and> dir_wf s' dir \<and> dir_map s' dir = (dir_map s dir)(name \<mapsto> word_of_nat ino) \<and>
         dir_wf s' ino \<and> dir_map s' ino = [dot \<mapsto> word_of_nat ino, dotdot \<mapsto> word_of_nat dir] \<and>
         i_nlink (icache s' ino) = 2 \<and> i_nlink (icache s' dir) = i_nlink (icache s dir) + 1
     | None \<Rightarrow> e \<noteq> None \<and> i_nlink (icache s' dir) = i_nlink (icache s dir) \<and> dir_wf s' dir \<and>
         (\<exists>ino. dir_map s' dir = dir_map s dir \<or> ino \<notin> used_inodes s \<and> (\<exists>t. is_dirsync K t dir) \<and> dir_map s' dir = (dir_map s dir)(name \<mapsto> word_of_nat ino)) \<and>
         (\<exists>J. files_ok J s' \<and> unowned J s' = unowned I s \<and>
           (J = I \<and> used_inodes s' = used_inodes s \<or>
            (\<exists>ino. ino \<notin> used_inodes s \<and> J = insert ino I \<and> used_inodes s' = insert ino (used_inodes s) \<and> i_nlink (icache s' ino) = 0))))"
proof -
  let ?inc = "\<lambda>i :: inode. i\<lparr>i_nlink := i_nlink i + 1, i_dirty := True\<rparr>"
  let ?dec = "\<lambda>i :: inode. i\<lparr>i_nlink := i_nlink i - 1, i_dirty := True\<rparr>"
  define s0 where "s0 = inode_inc_link_count dir s"
  note u0 = inode_fields_files [where f = ?inc and ino = dir, OF ok, folded inc_link_upd s0_def, simplified]
  have w0: "dir_map s0 d = dir_map s d" "dir_wf s0 d = dir_wf s d" for d
    unfolding s0_def inc_link_upd by (simp_all add: dir_upd_inode)
  have lw0: "live s0 d = live s d" for d by (rule live_cong, rule dslot_cong) (simp add: s0_def inc_link_upd)
  have n0: "i_nlink (icache s0 dir) = i_nlink (icache s dir) + 1" by (simp add: s0_def inc_link_upd)
  note v = vol_ok_simps [OF files_ok_simps(1) [OF u0(1)]]
  obtain r e1 s1 where g: "gas_new_inode K s0 dir (S_IFDIR OR mode) = Some (r, e1, s1)"
    using v(2) by (cases rule: gas_new_inode_cases [of s0 dir "S_IFDIR OR mode"]) auto
  show ?thesis
  proof (cases r)
    case None
    have s1: "s1 = s0" using new_inode_fails [OF u0(1)] g None by blast
    have e1: "e1 \<noteq> None" using v(2) by (cases rule: gas_new_inode_cases [of s0 dir "S_IFDIR OR mode"]) (use g None in auto)
    define s2 where "s2 = inode_dec_link_count dir s0"
    note u2 = inode_fields_files [where f = ?dec and ino = dir, OF u0(1), folded dec_link_upd s2_def, simplified]
    have "gas_mkdir K s dir name mode = Some (e1, None, s2)"
      using g None s1 by (simp add: gas_mkdir_def Let_def s0_def s2_def)
    moreover have "i_nlink (icache s2 dir) = i_nlink (icache s dir)" using n0 by (simp add: s2_def dec_link_upd)
    moreover have "dir_map s2 dir = dir_map s dir" "dir_wf s2 dir" using w0 wf unfolding s2_def dec_link_upd by (simp_all add: dir_upd_inode)
    ultimately show ?thesis using e1 u2 u0 by auto
  next
    case (Some ino)
    define f where "f i = gas_set_inode K (?inc i) 0" for i
    define s2 where "s2 = upd_inode ino f s1"
    have s2: "set_inode K ino 0 (inode_inc_link_count ino s1) = s2"
      by (simp add: s2_def f_def set_inode_def inc_link_upd upd_inode_upd_inode)
    have ff: "blkaddr (f i) = blkaddr i" "i_ino (f i) = i_ino i" "i_size (f i) = i_size i" "i_nlink (f i) = i_nlink i + 1"
      "i_mode (f i) = i_mode i" for i by (simp_all add: f_def gas_set_inode_fields)
    note fr = fresh_inode [OF u0(1) g [unfolded Some] s2_def ff(1) ff(2) ff(3)]
    have ne: "dir \<noteq> ino" using fr(1) dir by blast
    let ?J = "insert ino I"
    have n2: "i_nlink (icache s2 ino) = 2" "S_ISDIR (i_mode (icache s2 ino))"
      using fr(6,8) ff(4,5) isdir_or [OF mode] by (simp_all add: s2_def S_ISDIR_def)
    have nd2: "i_nlink (icache s2 dir) = i_nlink (icache s dir) + 1" using fr(9) [OF ne] n0 by simp
    have dead: "\<not> live s2 ino m" for m
    proof -
      have "live s2 ino = live s0 ino" by (rule live_cong, rule dslot_cong) (simp add: fr(10))
      then show ?thesis using fresh [of ino m] fr(13) u0(3) lw0 by simp
    qed
    have fail: "\<exists>s'. mkdir_out_fail K e dir ino t = Some (Some e, None, s') \<and> i_nlink (icache s' dir) = i_nlink (icache s dir) \<and>
        dir_map s' dir = dir_map t dir \<and> dir_wf s' dir = dir_wf t dir \<and>
        (\<exists>J. files_ok J s' \<and> unowned J s' = unowned I s \<and> (J = I \<and> used_inodes s' = used_inodes s \<or>
          (\<exists>ino. ino \<notin> used_inodes s \<and> J = insert ino I \<and> used_inodes s' = insert ino (used_inodes s) \<and> i_nlink (icache s' ino) = 0)))"
      if t: "files_ok ?J t" "unowned ?J t = unowned I s" "i_nlink (icache t ino) = 2" "S_ISDIR (i_mode (icache t ino))"
        "i_nlink (icache t dir) = i_nlink (icache s dir) + 1" "used_inodes t = insert ino (used_inodes s)" for t e
    proof -
      obtain s' J' where "mkdir_out_fail K e dir ino t = Some (Some e, None, s')" "i_nlink (icache s' dir) = i_nlink (icache t dir) - 1"
        "dir_map s' dir = dir_map t dir" "dir_wf s' dir = dir_wf t dir"
        "files_ok J' s'" "unowned J' s' = unowned ?J t" "J' = ?J - {ino} \<and> used_inodes s' = used_inodes t - {ino} \<or>
          J' = ?J \<and> used_inodes s' = used_inodes t \<and> i_nlink (icache s' ino) = 0"
        using mkdir_out_fail_spec [OF t(1) insertI1 ne t(3,4) read, of e] by blast
      moreover have "?J - {ino} = I" "insert ino (used_inodes s) - {ino} = used_inodes s" using fr(1,13) u0(3) by simp_all
      ultimately show ?thesis using t(2,5,6) fr(13) u0(3) by (intro exI [of _ s']) auto
    qed
    have iw: "i_ino (icache s2 ino) = ino" "i_ino (icache s2 dir) = dir"
      using files_ok_simps(5) [OF fr(3)] dir by simp_all
    have i: "(word_of_nat ino :: u32) \<noteq> 0" "(word_of_nat dir :: u32) \<noteq> 0"
      using file_number_word(1) [OF fr(3)] dir by simp_all
    obtain e3 s3 where m: "gas_make_empty K s2 ino dir = Some (e3, s3)" "local_op ?J ino s2 s3" and
      o: "dir_wf s3 ino \<and> nslots (icache s3 ino) = 2 \<and> dir_map s3 ino = [dot \<mapsto> word_of_nat ino, dotdot \<mapsto> word_of_nat dir] \<or> e3 \<noteq> None"
      using make_empty_map [OF files_ok_simps(1) [OF fr(3)] insertI1 fr(7) dead, of "word_of_nat ino" "word_of_nat dir" dir] iw i by auto
    note l3 = local_op_files [OF fr(3) m(2)] local_op_unowned [OF m(2) insertI1] local_op_nlink [OF m(2)]
    have d3: "dir_wf s3 dir" "dir_map s3 dir = dir_map s dir"
      using dir_frame [OF m(2) ne] fr(11,12) [OF dir] w0 wf by simp_all
    have md3: "S_ISDIR (i_mode (icache s3 ino))" using m(2) n2(2) by (simp add: local_op_def)
    have un3: "unowned ?J s3 = unowned I s" "used_inodes s3 = insert ino (used_inodes s)"
      using l3(2) fr(4,5) u0(2,3) local_op_used [OF m(2)] by simp_all
    have mk: "gas_mkdir K s dir name mode = (case (e3, s3) of (Some e, s) \<Rightarrow> mkdir_out_fail K e dir ino s
        | (None, s) \<Rightarrow> (case gas_add_link K s dir name ino of None \<Rightarrow> None
            | Some (Some e, s) \<Rightarrow> mkdir_out_fail K e dir ino s | Some (None, s) \<Rightarrow> Some (None, Some ino, s)))"
      using g m(1) Some s2 by (simp add: gas_mkdir_def Let_def s0_def)
    show ?thesis
    proof (cases e3)
      case e3: (Some e)
      have "i_nlink (icache s3 ino) = 2" "i_nlink (icache s3 dir) = i_nlink (icache s dir) + 1" using l3(3) n2(1) nd2 by simp_all
      from fail [OF l3(1) un3(1) this(1) md3 this(2) un3(2), of e] obtain s' where "mkdir_out_fail K e dir ino s3 = Some (Some e, None, s')"
        and s': "i_nlink (icache s' dir) = i_nlink (icache s dir)" "dir_map s' dir = dir_map s3 dir" "dir_wf s' dir = dir_wf s3 dir"
          "\<exists>J. files_ok J s' \<and> unowned J s' = unowned I s \<and> (J = I \<and> used_inodes s' = used_inodes s \<or>
            (\<exists>ino. ino \<notin> used_inodes s \<and> J = insert ino I \<and> used_inodes s' = insert ino (used_inodes s) \<and> i_nlink (icache s' ino) = 0))"
        by blast
      then have "gas_mkdir K s dir name mode = Some (Some e, None, s')" using mk e3 by simp
      then show ?thesis using s' d3 by (intro exI [of _ "Some e"] exI [of _ "None :: nat option"] exI [of _ s']) simp
    next
      case e3: None
      then have o3: "dir_wf s3 ino" "dir_map s3 ino = [dot \<mapsto> word_of_nat ino, dotdot \<mapsto> word_of_nat dir]" using o by blast+
      have i3: "i_ino (icache s3 ino) = ino" using local_op_ino [OF m(2)] iw by simp
      obtain e4 s4 where a: "gas_add_link K s3 dir name ino = Some (e4, s4)" "local_op ?J dir s3 s4" "dir_wf s4 dir"
        "dir_map s4 dir = (dir_map s3 dir)(name \<mapsto> word_of_nat ino) \<or> e4 \<noteq> None \<and> dir_map s4 dir = dir_map s3 dir"
        using add_link_map [OF local_op_ok [OF m(2)] insertI2 [OF dir] d3(1) rd name, of "word_of_nat ino" ino] i3 i d3 new by auto
      note l4 = local_op_files [OF l3(1) a(2)] local_op_unowned [OF a(2) insertI2 [OF dir]] local_op_nlink [OF a(2)]
      have n4: "i_nlink (icache s4 ino) = 2" "i_nlink (icache s4 dir) = i_nlink (icache s dir) + 1"
        using l3(3) l4(3) n2(1) nd2 by simp_all
      have f4: "dir_wf s4 ino" "dir_map s4 ino = [dot \<mapsto> word_of_nat ino, dotdot \<mapsto> word_of_nat dir]" "icache s4 ino = icache s3 ino"
        using dir_frame [OF a(2) ne [symmetric]] o3 by simp_all
      have un4: "unowned ?J s4 = unowned I s" "used_inodes s4 = insert ino (used_inodes s)"
        using l4(2) un3 local_op_used [OF a(2)] by simp_all
      show ?thesis
      proof (cases e4)
        case e4: (Some e)
        have "S_ISDIR (i_mode (icache s4 ino))" using md3 f4(3) by simp
        from fail [OF l4(1) un4(1) n4(1) this n4(2) un4(2), of e] obtain s' where "mkdir_out_fail K e dir ino s4 = Some (Some e, None, s')"
          and s': "i_nlink (icache s' dir) = i_nlink (icache s dir)" "dir_map s' dir = dir_map s4 dir" "dir_wf s' dir = dir_wf s4 dir"
            "\<exists>J. files_ok J s' \<and> unowned J s' = unowned I s \<and> (J = I \<and> used_inodes s' = used_inodes s \<or>
            (\<exists>ino. ino \<notin> used_inodes s \<and> J = insert ino I \<and> used_inodes s' = insert ino (used_inodes s) \<and> i_nlink (icache s' ino) = 0))"
          by blast
        then have "gas_mkdir K s dir name mode = Some (Some e, None, s')" using mk e3 a(1) e4 by simp
        moreover have "dir_map s4 dir = dir_map s dir \<or> ino \<notin> used_inodes s \<and> (\<exists>t. is_dirsync K t dir) \<and> dir_map s4 dir = (dir_map s dir)(name \<mapsto> word_of_nat ino)"
        proof (cases "\<exists>t. is_dirsync K t dir")
          case True
          then show ?thesis using a(4) d3 fr(13) u0(3) by auto
        next
          case False
          then have na: "\<not> is_dirsync K t dir" for t by blast
          show ?thesis
            using add_link_async [OF local_op_ok [OF m(2)] insertI2 [OF dir] d3(1) rd name(2) na a(1) [unfolded e4]] d3(2) by simp
        qed
        ultimately show ?thesis using s' a(3) by (intro exI [of _ "Some e"] exI [of _ "None :: nat option"] exI [of _ s']) auto
      next
        case None
        then show ?thesis using mk e3 a(1,3,4) l4(1) un4 n4 f4(1,2) d3(2) fr(13) u0(3) by simp
      qed
    qed
  qed
qed

end

section \<open>Renaming onto an existing name\<close>

context name_io
begin

lemma find_entry_slot:
  assumes wf: "dir_wf s dir" and rd: "pages_readable K s dir" and name: "length name < GAS_MAX_NAME_LEN" and has: "dir_map s dir name = Some v"
  obtains m where "gas_find_entry K s dir name = (Some (m div 15, GAS_DIR_ENTRY_SIZE * (m mod 15)), s)" "live s dir m"
    "de_name (dslot s dir m) = name"
proof -
  obtain d where f: "gas_find_entry K s dir name = (d, s)" and
    c: "case d of None \<Rightarrow> dir_map s dir name = None
     | Some (n, p) \<Rightarrow> \<exists>m. n = m div 15 \<and> p = GAS_DIR_ENTRY_SIZE * (m mod 15) \<and> live s dir m \<and> de_name (dslot s dir m) = name \<and>
         dir_map s dir name = Some (de_inode (load_dentry (pages s dir n) p))"
    using find_entry_map [OF wf rd name] by blast
  show thesis using f c has that by (cases d) auto
qed

lemma rename_onto:
  assumes ok: "files_ok I s" and dir: "dir \<in> I" and wf: "dir_wf s dir" and rd: "\<And>t i. pages_readable K t i"
    and names: "length old_name < GAS_MAX_NAME_LEN" "length new_name < GAS_MAX_NAME_LEN" "old_name \<noteq> new_name"
    and has: "dir_map s dir old_name = Some v" "dir_map s dir new_name = Some w"
    and nodir: "\<not> S_ISDIR (i_mode (icache s old_inode))" and ne: "ni \<noteq> dir"
  shows "\<exists>old_de new_de s1 e s3 s'. gas_find_entry K s dir old_name = (Some old_de, s) \<and>
    gas_find_entry K s dir new_name = (Some new_de, s) \<and> gas_set_link K s dir new_de old_inode = Some s1 \<and>
    gas_delete_entry K (inode_dec_link_count ni (upd_inode ni (\<lambda>i. i\<lparr>i_ctime := current_time_sec K\<rparr>) s1)) dir old_de = Some (e, s3) \<and>
    gas_rename K s dir old_name old_inode dir new_name (Some ni) = Some (None, s') \<and> dir_map s' dir new_name = Some w \<and>
    (if e = None then dir_map s' dir = (dir_map s dir)(old_name := None)
     else dir_map s' dir \<in> {dir_map s dir, (dir_map s dir)(old_name := None)}) \<and>
    i_nlink (icache s' ni) = i_nlink (icache s ni) - 1"
proof -
  obtain m where m: "gas_find_entry K s dir old_name = (Some (m div 15, GAS_DIR_ENTRY_SIZE * (m mod 15)), s)" "live s dir m"
    "de_name (dslot s dir m) = old_name" by (rule find_entry_slot [OF wf rd names(1) has(1)])
  obtain k where k: "gas_find_entry K s dir new_name = (Some (k div 15, GAS_DIR_ENTRY_SIZE * (k mod 15)), s)" "live s dir k"
    "de_name (dslot s dir k) = new_name" by (rule find_entry_slot [OF wf rd names(2) has(2)])
  obtain s1 where s1: "gas_set_link K s dir (k div 15, GAS_DIR_ENTRY_SIZE * (k mod 15)) old_inode = Some s1" "local_op I dir s s1"
    "pages s1 = pages s" "i_size (icache s1 dir) = i_size (icache s dir)"
    using set_link_same [OF files_ok_simps(1) [OF ok] dir wf k(2)] by blast
  define g where "g i = i\<lparr>i_ctime := current_time_sec K, i_nlink := i_nlink i - 1, i_dirty := True\<rparr>" for i :: inode
  define s2 where "s2 = upd_inode ni g s1"
  have s2: "inode_dec_link_count ni (upd_inode ni (\<lambda>i. i\<lparr>i_ctime := current_time_sec K\<rparr>) s1) = s2"
    by (simp add: dec_link_upd upd_inode_upd_inode s2_def g_def)
  have g: "blkaddr (g i) = blkaddr i" "i_ino (g i) = i_ino i" "i_size (g i) = i_size i" "i_nlink (g i) = i_nlink i - 1" for i
    by (simp_all add: g_def)
  note u = inode_fields_files [where f = g and ino = ni, OF local_op_files [OF ok s1(2)] g(1) g(2), folded s2_def]
  have p2: "pages s2 dir = pages s dir" "i_size (icache s2 dir) = i_size (icache s dir)" using s1(3,4) ne by (simp_all add: s2_def)
  note same = dir_same [OF p2]
  have ds: "dslot s2 dir = dslot s dir" by (rule dslot_cong [OF p2(1)])
  have lm: "live s2 dir m" "de_name (dslot s2 dir m) = old_name" using m(2,3) live_cong [OF ds] ds by simp_all
  have wf2: "dir_wf s2 dir" using same(2) wf by simp
  obtain e s3 where d: "gas_delete_entry K s2 dir (m div 15, GAS_DIR_ENTRY_SIZE * (m mod 15)) = Some (e, s3)" "local_op I dir s2 s3"
    "dir_map s3 dir = (dir_map s2 dir)(old_name := None) \<or> e \<noteq> None \<and> dir_map s3 dir = dir_map s2 dir"
    using delete_entry_map [OF files_ok_simps(1) [OF u(1)] dir wf2 lm(1)] unfolding lm(2) by blast
  define s4 where "s4 = mark_inode_dirty old_inode s3"
  have m4: "dir_map s4 dir = dir_map s3 dir" unfolding s4_def mark_inode_dirty_def by (rule dir_upd_inode(1)) simp
  have "i_nlink (icache s2 ni) = i_nlink (icache s ni) - 1" using local_op_nlink [OF s1(2)] g(4) by (simp add: s2_def)
  then have n4: "i_nlink (icache s4 ni) = i_nlink (icache s ni) - 1" using local_op_nlink [OF d(2), of ni] by (cases "ni = old_inode") (simp_all add: s4_def)
  have "gas_rename K s dir old_name old_inode dir new_name (Some ni) = Some (None, s4)"
    using m(1) k(1) s1(1) nodir d(1) by (simp add: gas_rename_def Let_def s2 rename_finish_def s4_def)
  moreover have h: "if e = None then dir_map s4 dir = (dir_map s dir)(old_name := None)
    else dir_map s4 dir \<in> {dir_map s dir, (dir_map s dir)(old_name := None)}"
    using d(3) m4 same(1) by auto
  moreover have "dir_map s4 dir new_name = Some w" using h has(2) names(3) by (auto split: if_splits)
  ultimately show ?thesis using n4 m(1) k(1) s1(1) d(1) unfolding s2 [symmetric] by blast
qed

end

section \<open>Reference services\<close>

text \<open>
  \<open>iput\<close> evicts inodes without links and keeps the others in memory; \<open>page_symlink\<close> makes room, copies
  the target and ends the write.
\<close>

definition ref_page_symlink :: "(fs \<Rightarrow> nat \<Rightarrow> aop \<Rightarrow> aop_reply) \<Rightarrow> fs \<Rightarrow> nat \<Rightarrow> byte list \<Rightarrow> nat \<Rightarrow> (err \<times> fs) option" where
  "ref_page_symlink ops s ino target n =
     (case ops s ino (Write_begin 0 (n - 1)) of
        Aop_done None s \<Rightarrow>
          (case ops (mark_inode_dirty ino (set_page ino 0 (strcpy (pages s ino 0) 0 target) s)) ino (Write_end 0 (n - 1) (n - 1)) of
             Aop_count _ s \<Rightarrow> Some (None, s) | Aop_done e s \<Rightarrow> Some (e, s) | Aop_block _ \<Rightarrow> Some (Some EIO, s) | Aop_undefined \<Rightarrow> None)
      | Aop_done (Some e) s \<Rightarrow> Some (Some e, s) | Aop_count _ s \<Rightarrow> Some (Some EIO, s) | Aop_block _ \<Rightarrow> Some (Some EIO, s)
      | Aop_undefined \<Rightarrow> None)"

lemma ref_page_symlink_fill:
  assumes "aop_calls ops ino (mark_inode_dirty ino (set_page ino 0 b s)) s'"
  shows "aop_calls ops ino s s'"
  by (rule fill [where p = "pages (set_page ino 0 b s)" and d = "b_dirty s"]) (use assms in \<open>simp_all add: set_page_def\<close>)

lemma ref_page_symlink_calls:
  assumes "ref_page_symlink ops s ino target n = Some (e, s')"
  shows "aop_calls ops ino s s'"
proof (cases "ops s ino (Write_begin 0 (n - 1))")
  case (Aop_done e1 s1)
  show ?thesis
  proof (cases e1)
    case None
    define t where "t = mark_inode_dirty ino (set_page ino 0 (strcpy (pages s1 ino 0) 0 target) s1)"
    have "aop_calls ops ino t s' \<or> s' = s1"
      using assms Aop_done None by (auto simp: ref_page_symlink_def t_def [symmetric] split: aop_reply.splits intro: call_done call_count no_call)
    then have "aop_calls ops ino s1 s'" using ref_page_symlink_fill no_call unfolding t_def by blast
    then show ?thesis by (rule call_done [where ops = ops, OF Aop_done])
  next
    case (Some x)
    then show ?thesis using assms Aop_done by (auto simp: ref_page_symlink_def intro: call_done no_call)
  qed
qed (use assms in \<open>auto simp: ref_page_symlink_def intro: call_count no_call\<close>)

lemma ref_page_symlink_total:
  assumes "\<And>s' pos len copied. aop_calls ops ino s s' \<Longrightarrow>
    ops s' ino (Write_begin pos len) \<noteq> Aop_undefined \<and> ops s' ino (Write_end pos len copied) \<noteq> Aop_undefined"
  shows "ref_page_symlink ops s ino target n \<noteq> None"
proof (cases "ops s ino (Write_begin 0 (n - 1))")
  case Aop_undefined
  then show ?thesis using assms [OF no_call] by blast
next
  case (Aop_done e1 s1)
  define t where "t = mark_inode_dirty ino (set_page ino 0 (strcpy (pages s1 ino 0) 0 target) s1)"
  have "aop_calls ops ino s t"
    by (rule call_done [where ops = ops, OF Aop_done], unfold t_def) (rule ref_page_symlink_fill, rule no_call)
  then have "ops t ino (Write_end 0 (n - 1) (n - 1)) \<noteq> Aop_undefined" using assms by blast
  then show ?thesis using Aop_done
    by (auto simp: ref_page_symlink_def t_def [symmetric] split: option.splits aop_reply.splits)
qed (simp_all add: ref_page_symlink_def)

definition ref_name_services :: namei_services where
  "ref_name_services = dir_services.extend ref_dir_services
     (namei_services.fields (\<lambda>ev s ino. if i_nlink (icache s ino) = 0 then ev s ino else s) (\<lambda>_. True)
        ref_page_symlink
        (\<lambda>i. \<lparr>st_ino = i_ino i, st_mode = i_mode i, st_nlink = i_nlink i, st_size = i_size i, st_blocks = 0, st_blksize = 0\<rparr>))"

lemma ref_name_services_simps [simp]:
  "find_first_zero_bit ref_name_services = find_first_zero_bit makefs_bitops"
  "bit_set ref_name_services = bit_set makefs_bitops"
  "test_and_clear_bit ref_name_services = test_and_clear_bit makefs_bitops"
  "hweight16 ref_name_services = hweight16 makefs_bitops"
  "sb_bread ref_name_services bf n = Some (bf n)"
  "iget_locked ref_name_services s n = Iget_new (ref_fresh_inode n)"
  "new_decode_dev ref_name_services = ref_decode_dev" "new_encode_dev ref_name_services = ref_encode_dev"
  "init_special_inode ref_name_services = ref_special_inode"
  "new_inode ref_name_services s = Some (ref_fresh_inode 0)"
  "inode_init_owner ref_name_services = (\<lambda>i d m. i\<lparr>i_mode := m, i_uid := i_uid d, i_gid := i_gid d\<rparr>)"
  "block_truncate_page ref_name_services = ref_truncate_page"
  "truncate_inode_pages ref_name_services = ref_drop_pages"
  "truncate_pagecache ref_name_services = ref_drop_pages"
  "block_write_full_page ref_name_services = ref_call True"
  "mpage_writepages ref_name_services gb s ino = Some (None, s)"
  "mpage_readpage ref_name_services = ref_call False"
  "mpage_readpages ref_name_services gb s ino ns = Some (None, s)"
  "blockdev_direct_IO ref_name_services gb rw s ino iov off = Some (0, s)"
  "block_write_begin ref_name_services gb s ino pos len = ref_call True gb s ino (pos div 4096)"
  "generic_write_end ref_name_services = ref_write_end"
  "generic_block_bmap ref_name_services = ref_bmap"
  "read_mapping_page ref_name_services s ino n = Inr s" "grab_cache_page ref_name_services s ino n = Some s"
  "block_write_begin_page ref_name_services gb s ino n pos len = ref_call True gb s ino n"
  "block_write_end ref_name_services s ino n pos len = s" "write_one_page ref_name_services s ino n = (None, s)"
  "is_dirsync ref_name_services s ino = False"
  "iput ref_name_services ev s ino = (if i_nlink (icache s ino) = 0 then ev s ino else s)"
  "new_valid_dev ref_name_services dev = True" "page_symlink ref_name_services = ref_page_symlink"
  by (simp_all add: ref_name_services_def ref_dir_services_def ref_dir_fields_def ref_page_services_def ref_page_fields_def
      ref_tree_services_def ref_alloc_services_def ref_inode_services_def bitops.extend_def inode_services.extend_def
      alloc_services.extend_def itree_services.extend_def page_services.extend_def dir_services.extend_def
      inode_services.fields_def alloc_services.fields_def itree_services.fields_def page_services.fields_def
      dir_services.fields_def namei_services.fields_def fun_eq_iff)

interpretation ref_names: name_io ref_name_services
proof unfold_locales
  show "block_write_begin ref_name_services gb s ino pos len \<noteq> None"
    if "\<And>s' b c. buffer_calls gb ino s s' \<Longrightarrow> gb s' ino b c \<noteq> None" for gb s ino pos len
    unfolding ref_name_services_simps by (rule ref_call_total) (rule that)
  show "\<exists>sz p d. s' = upd_inode ino (\<lambda>i. i\<lparr>i_size := sz, i_dirty := d\<rparr>) (s\<lparr>pages := p, b_dirty := b_dirty s'\<rparr>) \<and>
      sz \<in> {i_size (icache s ino), pos + copied} \<and> (\<forall>i. i \<noteq> ino \<longrightarrow> p i = pages s i)"
    if "generic_write_end ref_name_services s ino pos len copied = (r, s')" for s ino pos len copied r s'
    using ref_write_end_shape that by simp
  show "block_write_begin_page ref_name_services gb s ino n pos len \<noteq> None"
    if "\<And>b. gb s ino b True \<noteq> None" for gb s ino n pos len
    using that [of "word_of_nat n"] by (auto simp: ref_call_def)
  show "\<exists>s1. (s1 = s \<or> (\<exists>e' m. gb s ino (word_of_nat n) True = Some (e', m, s1))) \<and> s' = s1\<lparr>b_dirty := b_dirty s'\<rparr>"
    if "block_write_begin_page ref_name_services gb s ino n pos len = Some (e, s')" for gb s ino n pos len e s'
    using that unfolding ref_name_services_simps by (rule ref_call_prepare)
  show "aop_calls ops ino s s'" if "page_symlink ref_name_services ops s ino target n = Some (e, s')" for ops s ino target n e s'
    using that unfolding ref_name_services_simps by (rule ref_page_symlink_calls)
  show "page_symlink ref_name_services ops s ino target n \<noteq> None"
    if "\<And>s' pos len copied. aop_calls ops ino s s' \<Longrightarrow>
      ops s' ino (Write_begin pos len) \<noteq> Aop_undefined \<and> ops s' ino (Write_end pos len copied) \<noteq> Aop_undefined" for ops s ino target n
    unfolding ref_name_services_simps by (rule ref_page_symlink_total) (rule that)
qed (auto simp: makefs.ffzb makefs.bit_set makefs.test_and_clear_old makefs.test_and_clear_new makefs.hweight
      ref_decode_encode ref_special_inode_def ref_fresh_inode_def ref_truncate_page_def set_page_def
      ref_drop_pages_def done_calls ref_bmap_def dest: ref_call_buffer)

context name_io
begin

text \<open>An added entry takes at most one more slot.\<close>

lemma add_link_grows_one:
  assumes ok: "vol_ok I s" and dir: "dir \<in> I" and wf: "dir_wf s dir" and rd: "pages_readable K s dir"
    and name: "0 \<notin> set name" "length name < GAS_MAX_NAME_LEN" and r: "gas_add_link K s dir name inode = Some (e, s')"
  shows "nslots (icache s' dir) \<le> Suc (nslots (icache s dir))"
proof -
  obtain m where m: "m \<le> nslots (icache s dir)"
    and a: "gas_add_link K s dir name inode = (if live s dir m then Some (Some EEXIST, s)
      else add_got_it K s dir (m div 15) (GAS_DIR_ENTRY_SIZE * (m mod 15)) name inode)"
    using add_link_slots [OF name(2) rd wf] by blast
  show ?thesis
  proof (cases "live s dir m")
    case True
    then show ?thesis using a r by simp
  next
    case False
    then have "add_got_it K s dir (m div 15) (GAS_DIR_ENTRY_SIZE * (m mod 15)) name inode = Some (e, s')" using a r by simp
    then have "i_size (icache s' dir) \<in> {i_size (icache s dir), max (i_size (icache s dir)) (dir_size (Suc m))}"
      using add_got_it_slots [OF ok dir name refl, of m inode] by auto
    moreover have "max (i_size (icache s dir)) (dir_size (Suc m)) = dir_size (max (nslots (icache s dir)) (Suc m))"
      using dir_wf_simps(1) [OF wf] max_dir_size by simp
    ultimately have "i_size (icache s' dir) = dir_size (nslots (icache s dir)) \<or>
      i_size (icache s' dir) = dir_size (max (nslots (icache s dir)) (Suc m))" using dir_wf_simps(1) [OF wf] by auto
    then show ?thesis using nslots_dir_size m by fastforce
  qed
qed

end

context name_io
begin

lemma create_unlink:
  assumes read: "\<And>bf n. sb_bread K bf n \<noteq> None" and ok: "files_ok I s" and dir: "dir \<in> I" and wf: "dir_wf s dir"
    and rd: "\<And>t i. pages_readable K t i" and name: "0 \<notin> set name" "length name < GAS_MAX_NAME_LEN" and new: "dir_map s dir name = None"
    and mode: "mode AND S_IFMT = S_IFREG" and c: "gas_create K s dir name mode = Some (None, Some ino, s1)"
  shows "(nslots (icache s1 dir) \<le> 15 \<longrightarrow> gas_lookup K s1 dir name =
      (case gas_iget K s1 ino of (Inl e, t) \<Rightarrow> Some (Some e, None, t) | (Inr i, t) \<Rightarrow> Some (None, Some i, t))) \<and>
    (\<exists>e s2. gas_unlink K s1 dir name ino = Some (e, s2) \<and>
      (e = None \<longrightarrow>
        (let s3 = gas_evict_inode K s2 ino
         in files_ok I s3 \<and> dir_wf s3 dir \<and> dir_map s3 dir = dir_map s dir \<and> used_inodes s3 = used_inodes s \<and>
            unowned I s3 = unowned I s)))"
proof -
  have cr: "dir_wf s1 dir" "ino \<notin> used_inodes s" "files_ok (insert ino I) s1" "unowned (insert ino I) s1 = unowned I s"
    "used_inodes s1 = insert ino (used_inodes s)" "dir_map s1 dir = (dir_map s dir)(name \<mapsto> word_of_nat ino)"
    "i_nlink (icache s1 ino) = 1" "i_mode (icache s1 ino) AND S_IFMT = S_IFREG"
    using gas_create_map [OF ok dir wf rd name new, of mode] c mode by auto
  have ino: "ino \<notin> I" using cr(2) files_ok_simps(3) [OF ok] by blast
  then have ne: "ino \<noteq> dir" using dir by blast
  have dirJ: "dir \<in> insert ino I" using dir by simp
  have "dir_map s1 dir name = Some (word_of_nat ino)" "unat (word_of_nat ino :: u32) = ino"
    using cr(6) file_number_word(2) [OF cr(3) insertI1] by simp_all
  then have lk: "gas_lookup K s1 dir name =
      (case gas_iget K s1 ino of (Inl e, t) \<Rightarrow> Some (Some e, None, t) | (Inr i, t) \<Rightarrow> Some (None, Some i, t))"
    if "nslots (icache s1 dir) \<le> 15"
    using gas_lookup_map [OF cr(1) rd that name(2)] by simp
  have has: "dir_map s1 dir name \<noteq> None" using cr(6) by simp
  obtain e s2 where u: "gas_unlink K s1 dir name ino = Some (e, s2)" "files_ok (insert ino I) s2"
    "unowned (insert ino I) s2 = unowned (insert ino I) s1" "used_inodes s2 = used_inodes s1" "dir_wf s2 dir"
    "e = None \<longrightarrow> dir_map s2 dir = (dir_map s1 dir)(name := None)"
    "i_nlink (icache s2 ino) = (if e = None then i_nlink (icache s1 ino) - 1 else i_nlink (icache s1 ino))"
    "\<forall>k. i_mode (icache s2 k) = i_mode (icache s1 k)"
    using gas_unlink_map [OF cr(3) dirJ cr(1) rd name(2) ne] unfolding if_not_P [OF has] by blast
  have "let s3 = gas_evict_inode K s2 ino
     in files_ok I s3 \<and> dir_wf s3 dir \<and> dir_map s3 dir = dir_map s dir \<and> used_inodes s3 = used_inodes s \<and>
        unowned I s3 = unowned I s" if "e = None"
  proof -
    have n: "i_nlink (icache s2 ino) = 0" using u(7) cr(7) that by simp
    have m: "S_ISREG (i_mode (icache s2 ino)) \<or> S_ISDIR (i_mode (icache s2 ino)) \<or> S_ISLNK (i_mode (icache s2 ino))"
      using u(8) cr(8) by (simp add: S_ISREG_def)
    note f = files_ok_simps [OF u(2)]
    note ev = evict_unlinked [OF f(1) insertI1 read n m f(5) [OF insertI1] f(6) [OF insertI1] f(7) [OF insertI1]]
    note ef = evict_files [OF u(2) insertI1 read n m]
    have I: "insert ino I - {ino} = I" using ino by simp
    have p: "pages (gas_evict_inode K s2 ino) dir = pages s2 dir" "i_size (icache (gas_evict_inode K s2 ino) dir) = i_size (icache s2 dir)"
      using ev(5) [OF ne [symmetric]] by simp_all
    note same = dir_same [OF p]
    have "(dir_map s1 dir)(name := None) = dir_map s dir" using new by (simp add: cr(6) fun_eq_iff)
    then show ?thesis
      using ef I same u(3-6) that ev(3) cr(2,4,5) by (simp add: Let_def)
  qed
  with lk u(1) show ?thesis by blast
qed

end

section \<open>An example\<close>

lemma ref_names_readable: "pages_readable ref_name_services s dir"
  by (simp add: pages_readable_def)

lemma ref_names_prepare_ok:
  assumes "vol_ok I s" and "dir \<in> I" and "unat (word_of_nat n :: u64) < unat (s_nblocks (sbi s))"
    and "data_zone s - used_blocks s = {7..<1024}"
  shows "\<exists>s1. gas_dir_prepare_chunk ref_name_services s dir n pos len = Some (None, s1)"
proof -
  have "4 \<le> card (data_zone s - used_blocks s)" by (simp add: assms(4))
  from ref_names.get_block_succeeds [OF assms(1,2) _ assms(3) this] show ?thesis
    by (auto simp: gas_dir_prepare_chunk_def ref_call_def)
qed

lemma ref_names_add_ok:
  assumes "vol_ok I s" and "dir \<in> I" and wf: "dir_wf s dir" "nslots (icache s dir) = 0"
    and room: "data_zone s - used_blocks s = {7..<1024}" and name: "length name < GAS_MAX_NAME_LEN"
  shows "\<exists>s1. gas_add_link ref_name_services s dir name inode = Some (None, s1)"
proof -
  have free: "\<not> live s dir 0" using wf by (simp add: dir_wf_def)
  obtain m where m: "m \<le> nslots (icache s dir)" "stops s dir name m"
    and r: "gas_add_link ref_name_services s dir name inode = (if live s dir m then Some (Some EEXIST, s)
      else add_got_it ref_name_services s dir (m div 15) (GAS_DIR_ENTRY_SIZE * (m mod 15)) name inode)"
    using ref_names.add_link_slots [OF name ref_names_readable wf(1)] by blast
  have "m = 0" using m(1) wf(2) by simp
  have "data_zone s \<noteq> {}" using room by auto
  then have "unat (0 :: u64) < unat (s_nblocks (sbi s))" by (auto simp: data_zone_def)
  then obtain s1 where "gas_dir_prepare_chunk ref_name_services s dir 0 0 260 = Some (None, s1)"
    using ref_names_prepare_ok [OF assms(1,2), of 0 0 260] room by auto
  then show ?thesis
    using r free \<open>m = 0\<close> by (simp add: add_got_it_def Let_def page_offset_def gas_dir_commit_chunk_def)
qed

text \<open>In the example directory a file can be created.\<close>

lemma example_create:
  assumes "files_ok {dir} s" and "dir_wf s dir" and "nslots (icache s dir) = 0" and "dir_map s dir = Map.empty"
    and "data_zone s - used_blocks s = {7..<1024}" and "used_inodes s = insert dir ({0} \<union> {256..<BITS_PER_BLOCK})"
    and "s_iam_blocks (sbi s) = 1"
  shows "\<exists>ino s1. gas_create ref_name_services s dir [97] 0x81A4 = Some (None, Some ino, s1) \<and> nslots (icache s1 dir) \<le> 15"
proof -
  have dirI: "dir \<in> {dir}" by simp
  note v = vol_ok_simps [OF files_ok_simps(1) [OF assms(1)]]
  from v(2) show ?thesis
  proof (cases rule: ref_names.gas_new_inode_cases [of s dir "0x81A4"])
    case nomem
    then show ?thesis by simp
  next
    case nospace
    have "used_inodes s = {..<BITS_PER_BLOCK}" using nospace(2) assms(7) by simp
    then have "{1, 2} \<subseteq> insert dir ({0} \<union> {256..<BITS_PER_BLOCK :: nat})" unfolding assms(6) [symmetric] by auto
    then show ?thesis by auto
  next
    case (found i b ip t)
    define ino s0 where "ino = b + 32768 * i" and "s0 = mark_inode_dirty ino (upd_inode ino (\<lambda>_. ip) t)"
    have r: "gas_new_inode ref_name_services s dir 0x81A4 = Some (Some ino, None, s0)" using found(10) by (simp add: ino_def s0_def)
    define f where "f j = (gas_set_inode ref_name_services j 0)\<lparr>i_dirty := True\<rparr>" for j
    define s2 where "s2 = upd_inode ino f s0"
    have s2': "mark_inode_dirty ino (set_inode ref_name_services ino 0 s0) = s2"
      by (simp add: s2_def f_def mark_inode_dirty_def set_inode_def upd_inode_upd_inode)
    have ff: "blkaddr (f (icache s0 ino)) = blkaddr (icache s0 ino)" "i_ino (f (icache s0 ino)) = i_ino (icache s0 ino)"
      "i_size (f (icache s0 ino)) = i_size (icache s0 ino)" by (simp_all add: f_def ref_names.gas_set_inode_fields)
    note fr = ref_names.fresh_inode [OF assms(1) r s2_def ff]
    have lay: "set (s_bam_bh (sbi s)) \<inter> set (s_iam_bh (sbi s)) = {}" using v(3) by (simp add: layout_wf_def)
    note n = ref_names.gas_new_inode_found [OF v(2) lay r]
    have "used_blocks s0 = used_blocks s" "data_zone s0 = data_zone s" using n(15) by (simp_all add: data_zone_def n(14))
    moreover have "used_blocks s2 = used_blocks s0" "data_zone s2 = data_zone s0"
      by (simp_all add: s2_def data_zone_def used_blocks_def)
    ultimately have room: "data_zone s2 - used_blocks s2 = {7..<1024}" using assms(5) by simp
    have ne: "dir \<noteq> ino" using fr(1) by simp
    have wf2: "dir_wf s2 dir" "nslots (icache s2 dir) = 0"
      using fr(12) [OF dirI] fr(9) [OF ne] assms(2,3) by simp_all
    have ok2: "vol_ok {ino, dir} s2" "dir \<in> {ino, dir}" using files_ok_simps(1) [OF fr(3)] by simp_all
    obtain s3 where a: "gas_add_link ref_name_services s2 dir [97] ino = Some (None, s3)"
      using ref_names_add_ok [OF ok2 wf2(1,2) room, of "[97]" ino] by auto
    have "nslots (icache s3 dir) \<le> Suc (nslots (icache s2 dir))"
      by (rule ref_names.add_link_grows_one [OF ok2 wf2(1) ref_names_readable _ _ a]) simp_all
    then show ?thesis using r s2' a wf2(2) by (intro exI [of _ ino] exI [of _ s3]) (simp add: gas_create_def add_nondir_def)
  qed
qed

section \<open>Properties\<close>

text \<open>
  C9. \<^verbatim>\<open>gas_create\<close> always returns. When it reports no error, the directory has gained exactly the new name,
  which gives a number that was free before; that inode has one link, no other file changed and no block is
  lost. When it reports an error, either nothing was changed, or the new number stays allocated: only the
  reference to the inode is dropped, its link count is left at 1, so it is never freed.
\<close>

theorem gas_create_correct:
  assumes "name_io K" and "files_ok I s" and "dir \<in> I" and "dir_wf s dir" and "\<And>t. pages_readable K t dir"
    and "0 \<notin> set name" and "length name < GAS_MAX_NAME_LEN" and "dir_map s dir name = None"
  shows "\<exists>e d s'. gas_create K s dir name mode = Some (e, d, s') \<and> dir_wf s' dir \<and>
    (case d of
       Some ino \<Rightarrow> e = None \<and> ino \<notin> used_inodes s \<and> files_ok (insert ino I) s' \<and> unowned (insert ino I) s' = unowned I s \<and>
         used_inodes s' = insert ino (used_inodes s) \<and> dir_map s' dir = (dir_map s dir)(name \<mapsto> word_of_nat ino) \<and>
         i_nlink (icache s' ino) = 1 \<and> i_mode (icache s' ino) AND S_IFMT = mode AND S_IFMT \<and>
         (\<forall>k\<in>I - {dir}. icache s' k = icache s k \<and> pages s' k = pages s k)
     | None \<Rightarrow> e \<noteq> None \<and> (s' = s \<or> (\<exists>ino. ino \<notin> used_inodes s \<and> used_inodes s' = insert ino (used_inodes s) \<and>
         files_ok (insert ino I) s' \<and> unowned (insert ino I) s' = unowned I s \<and> i_nlink (icache s' ino) = 1)))"
  by (rule name_io.gas_create_map [OF assms])

theorem gas_create_correct_witness:
  "\<exists>dir s e d s'. gas_new_inode ref_dir_services empty_file_volume 1 0x41ED = Some (Some dir, None, s) \<and>
     gas_create ref_name_services s dir [97] 0x81A4 = Some (e, d, s') \<and>
     (case d of None \<Rightarrow> e \<noteq> None | Some ino \<Rightarrow> dir_map s' dir = [[97] \<mapsto> word_of_nat ino])"
proof -
  obtain dir s where d: "gas_new_inode ref_dir_services empty_file_volume 1 0x41ED = Some (Some dir, None, s)" "files_ok {dir} s"
    "dir_wf s dir" "dir_map s dir = Map.empty" using new_dir_ok by blast
  show ?thesis
    using d(1,4) gas_create_correct [OF ref_names.name_io_axioms d(2) _ d(3) ref_names_readable, of "[97]" "0x81A4"]
    by (fastforce split: option.splits)
qed

text \<open>
  C10. A regular file that was created can be looked up and taken away again. While the directory has at most one page
  (15 slots), \<^verbatim>\<open>gas_lookup\<close> finds the name and hands the number to \<^verbatim>\<open>gas_iget\<close>; in a larger directory lookup
  is not defined for it in general (\<open>gas_inode_by_name_overrun\<close>). In a directory of any size, unlinking the file without
  an error and evicting it restores the volume: the directory has the names it had, the number is free again,
  and no block is lost.
\<close>

theorem create_lookup_unlink:
  assumes "name_io K" and "\<And>bf n. sb_bread K bf n \<noteq> None" and "files_ok I s" and "dir \<in> I" and "dir_wf s dir"
    and "\<And>t i. pages_readable K t i" and "0 \<notin> set name" and "length name < GAS_MAX_NAME_LEN" and "dir_map s dir name = None"
    and "mode AND S_IFMT = S_IFREG" and "gas_create K s dir name mode = Some (None, Some ino, s1)"
  shows "(nslots (icache s1 dir) \<le> 15 \<longrightarrow> gas_lookup K s1 dir name =
      (case gas_iget K s1 ino of (Inl e, t) \<Rightarrow> Some (Some e, None, t) | (Inr i, t) \<Rightarrow> Some (None, Some i, t))) \<and>
    (\<exists>e s2. gas_unlink K s1 dir name ino = Some (e, s2) \<and>
      (e = None \<longrightarrow>
        (let s3 = gas_evict_inode K s2 ino
         in files_ok I s3 \<and> dir_wf s3 dir \<and> dir_map s3 dir = dir_map s dir \<and> used_inodes s3 = used_inodes s \<and>
            unowned I s3 = unowned I s)))"
  by (rule name_io.create_unlink [OF assms])

theorem create_lookup_unlink_witness:
  "\<exists>dir s ino s1 e s2. gas_new_inode ref_dir_services empty_file_volume 1 0x41ED = Some (Some dir, None, s) \<and>
     gas_create ref_name_services s dir [97] 0x81A4 = Some (None, Some ino, s1) \<and>
     gas_lookup ref_name_services s1 dir [97] = Some (None, Some ino, snd (gas_iget ref_name_services s1 ino)) \<and>
     gas_unlink ref_name_services s1 dir [97] ino = Some (e, s2) \<and>
     (e = None \<longrightarrow> used_inodes (gas_evict_inode ref_name_services s2 ino) = used_inodes s)"
proof -
  obtain dir s where d: "gas_new_inode ref_dir_services empty_file_volume 1 0x41ED = Some (Some dir, None, s)" "files_ok {dir} s"
    "dir_wf s dir" "dir_map s dir = Map.empty" "nslots (icache s dir) = 0" "i_size (icache s dir) = 0"
    "data_zone s - used_blocks s = {7..<1024}" "used_inodes s = insert dir ({0} \<union> {256..<BITS_PER_BLOCK})" "s_iam_blocks (sbi s) = 1"
    using new_dir_ok by blast
  obtain ino s1 where c: "gas_create ref_name_services s dir [97] 0x81A4 = Some (None, Some ino, s1)" "nslots (icache s1 dir) \<le> 15"
    using example_create [OF d(2,3,5,4,7,8,9)] by blast
  have "fst (gas_iget ref_name_services s1 ino) = Inr ino" by (simp add: gas_iget_def Let_def)
  then show ?thesis
    using create_lookup_unlink [OF ref_names.name_io_axioms _ d(2) _ d(3) ref_names_readable _ _ _ _ c(1)] d(1,4) c
    by (cases "gas_iget ref_name_services s1 ino") (auto simp: Let_def)
qed

text \<open>
  C12. \<^verbatim>\<open>gas_unlink\<close> of a name the directory does not have is refused and changes nothing. Otherwise it
  returns; without an error exactly that name is gone and the inode has one link less, with an error the
  link count is as it was. No inode number, no block and no other file is touched either way.
\<close>

theorem gas_unlink_correct:
  assumes "name_io K" and "files_ok I s" and "dir \<in> I" and "dir_wf s dir" and "pages_readable K s dir"
    and "length name < GAS_MAX_NAME_LEN" and "inode \<noteq> dir"
  shows "if dir_map s dir name = None then gas_unlink K s dir name inode = Some (Some ENOENT, s)
    else \<exists>e s'. gas_unlink K s dir name inode = Some (e, s') \<and> files_ok I s' \<and> unowned I s' = unowned I s \<and>
      used_inodes s' = used_inodes s \<and> dir_wf s' dir \<and>
      (e = None \<longrightarrow> dir_map s' dir = (dir_map s dir)(name := None)) \<and>
      i_nlink (icache s' inode) = (if e = None then i_nlink (icache s inode) - 1 else i_nlink (icache s inode)) \<and>
      i_nlink (icache s' dir) = i_nlink (icache s dir) \<and> (\<forall>k. i_mode (icache s' k) = i_mode (icache s k)) \<and>
      (\<forall>k. k \<noteq> dir \<longrightarrow> k \<noteq> inode \<longrightarrow> icache s' k = icache s k \<and> pages s' k = pages s k)"
  by (rule name_io.gas_unlink_map [OF assms])

text \<open>The example directory with a first page that has the entries \<open>.\<close> and \<open>..\<close>.\<close>

lemma two_names_dir:
  "\<exists>ino s. files_ok {ino} s \<and> dir_wf s ino \<and> nslots (icache s ino) = 2 \<and> dir_map s ino = [dot \<mapsto> 9, dotdot \<mapsto> 1] \<and>
     (\<forall>i m. i \<noteq> ino \<longrightarrow> \<not> live s i m)"
proof -
  obtain ino s where d: "files_ok {ino} s" "\<And>i m. \<not> live s i m" using new_dir_ok by blast
  define s1 where "s1 = upd_inode ino (\<lambda>i. i\<lparr>i_size := 520\<rparr>) (set_page ino 0 (first_page (\<lambda>_. 0) 9 1) s)"
  note sh = shaped_dir [OF d(1) s1_def]
  have m: "dir_wf s1 ino" "nslots (icache s1 ino) = 2" "dir_map s1 ino = [dot \<mapsto> 9, dotdot \<mapsto> 1]"
    using first_page_dir [of s1 ino "\<lambda>_. 0" 9 1] sh(3-5) d(2) by (simp_all add: dir_size_def)
  have "\<not> live s1 i m" if "i \<noteq> ino" for i m
  proof -
    have "live s1 i = live s i" by (rule live_cong, rule dslot_cong) (use that in \<open>simp add: s1_def\<close>)
    then show ?thesis using d(2) by simp
  qed
  then show ?thesis using sh(6) m by blast
qed

lemma dots_differ: "dotdot \<noteq> dot" "dot \<noteq> dotdot" "length dot < 256" "length dotdot < 256" "0 \<notin> set dot"
  by (simp_all add: dot_def dotdot_def)

theorem gas_unlink_correct_witness:
  "\<exists>dir s e s'. dir_map s dir = [dot \<mapsto> 9, dotdot \<mapsto> 1] \<and> gas_unlink ref_name_services s dir [97] (Suc dir) = Some (Some ENOENT, s) \<and>
     gas_unlink ref_name_services s dir dot (Suc dir) = Some (e, s') \<and> (e = None \<longrightarrow> dir_map s' dir = [dotdot \<mapsto> 1])"
proof -
  obtain dir s where d: "files_ok {dir} s" "dir_wf s dir" "dir_map s dir = [dot \<mapsto> 9, dotdot \<mapsto> 1]" using two_names_dir by blast
  have dirI: "dir \<in> {dir}" by simp
  note un = gas_unlink_correct [OF ref_names.name_io_axioms d(1) dirI d(2) ref_names_readable]
  have "[97] \<noteq> dot" "[97] \<noteq> dotdot" by (simp_all add: dot_def dotdot_def)
  then have none: "dir_map s dir [97] = None" by (simp add: d(3))
  have some: "dir_map s dir dot \<noteq> None" by (simp add: d(3) dots_differ)
  show ?thesis using un [of "[97]" "Suc dir"] un [of dot "Suc dir"] none some d(3) dots_differ by auto
qed

text \<open>
  C13. \<^verbatim>\<open>gas_rmdir\<close> removes only empty directories. When the directory has any name but \<open>..\<close> and a \<open>.\<close>
  for itself it answers \<open>ENOTEMPTY\<close> and changes nothing; otherwise, without an error, exactly its name is gone
  from the parent, it has lost two links and the parent the one of \<open>..\<close>; no block is lost either way.
\<close>

theorem gas_rmdir_correct:
  assumes "name_io K" and "files_ok I s" and "dir \<in> I" and "dir_wf s dir" and "dir_wf s inode" and "\<And>t i. pages_readable K t i"
    and "length name < GAS_MAX_NAME_LEN" and "inode \<noteq> dir" and "dir_map s dir name \<noteq> None"
    and "busy \<longleftrightarrow> (\<exists>nm v. dir_map s inode nm = Some v \<and> nm \<noteq> dotdot \<and> \<not> (nm = dot \<and> unat v = i_ino (icache s inode)))"
  shows "\<exists>e s'. gas_rmdir K s dir name inode = Some (e, s') \<and> files_ok I s' \<and> unowned I s' = unowned I s \<and>
    used_inodes s' = used_inodes s \<and> dir_wf s' dir \<and>
    (if busy then e = Some ENOTEMPTY \<and> s' = s
     else e = None \<longrightarrow> dir_map s' dir = (dir_map s dir)(name := None) \<and>
       i_nlink (icache s' inode) = i_nlink (icache s inode) - 2 \<and> i_nlink (icache s' dir) = i_nlink (icache s dir) - 1)"
  by (rule name_io.gas_rmdir_map [OF assms])

text \<open>The same directory next to a regular file of size 0, inode \<open>Suc dir\<close>.\<close>

lemma two_names_and_file:
  "\<exists>dir s. files_ok {dir} s \<and> dir_wf s dir \<and> dir_map s dir = [dot \<mapsto> 9, dotdot \<mapsto> 1] \<and>
     \<not> S_ISDIR (i_mode (icache s (Suc dir))) \<and> dir_wf s (Suc dir) \<and> dir_map s (Suc dir) = Map.empty"
proof -
  obtain dir s where d: "files_ok {dir} s" "dir_wf s dir" "dir_map s dir = [dot \<mapsto> 9, dotdot \<mapsto> 1]"
    "\<And>i m. i \<noteq> dir \<Longrightarrow> \<not> live s i m" using two_names_dir by blast
  define f where "f i = i\<lparr>i_mode := 0x81A4, i_size := 0\<rparr>" for i :: inode
  have f: "blkaddr (f i) = blkaddr i" "i_ino (f i) = i_ino i" for i by (simp_all add: f_def)
  define t where "t = upd_inode (Suc dir) f s"
  note u = inode_fields_files [where f = f and ino = "Suc dir", OF d(1) f(1,2), folded t_def]
  have "pages t dir = pages s dir" "i_size (icache t dir) = i_size (icache s dir)" by (simp_all add: t_def)
  note w = dir_same [OF this]
  have "live t (Suc dir) = live s (Suc dir)" by (rule live_cong, rule dslot_cong) (simp add: t_def)
  then have dead: "\<not> live t (Suc dir) m" for m using d(4) by simp
  have sz: "i_size (icache t (Suc dir)) = dir_size 0" by (simp add: t_def f_def dir_size_def)
  have wf: "dir_wf t (Suc dir)" by (rule dir_wfI [OF sz]; simp add: dead)
  have "dir_map t (Suc dir) = Map.empty" by (rule ext) (simp add: dir_map_None [OF wf] dead)
  moreover have "\<not> S_ISDIR (i_mode (icache t (Suc dir)))" by (simp add: t_def f_def S_ISDIR_def)
  ultimately show ?thesis using u(1) w d(2,3) wf by metis
qed

theorem gas_rmdir_correct_witness:
  "\<exists>dir s e s'. dir_map s dir = [dot \<mapsto> 9, dotdot \<mapsto> 1] \<and> gas_rmdir ref_name_services s dir dot (Suc dir) = Some (e, s') \<and>
     (e = None \<longrightarrow> dir_map s' dir = [dotdot \<mapsto> 1] \<and> i_nlink (icache s' (Suc dir)) = i_nlink (icache s (Suc dir)) - 2)"
proof -
  obtain dir s where d: "files_ok {dir} s" "dir_wf s dir" "dir_map s dir = [dot \<mapsto> 9, dotdot \<mapsto> 1]"
    "dir_wf s (Suc dir)" "dir_map s (Suc dir) = Map.empty" using two_names_and_file by blast
  have "dir \<in> {dir}" "length dot < GAS_MAX_NAME_LEN" "Suc dir \<noteq> dir" "dir_map s dir dot \<noteq> None"
    by (simp_all add: dots_differ d(3))
  moreover have "False \<longleftrightarrow> (\<exists>nm v. dir_map s (Suc dir) nm = Some v \<and> nm \<noteq> dotdot \<and>
      \<not> (nm = dot \<and> unat v = i_ino (icache s (Suc dir))))" by (simp add: d(5))
  ultimately obtain e s' where "gas_rmdir ref_name_services s dir dot (Suc dir) = Some (e, s')"
    "e = None \<longrightarrow> dir_map s' dir = (dir_map s dir)(dot := None) \<and> i_nlink (icache s' (Suc dir)) = i_nlink (icache s (Suc dir)) - 2"
    using gas_rmdir_correct [OF ref_names.name_io_axioms d(1) _ d(2,4) ref_names_readable, of dot False] by auto
  moreover have "([dot \<mapsto> 9 :: u32, dotdot \<mapsto> 1])(dot := None) = [dotdot \<mapsto> 1]" using dots_differ by auto
  ultimately show ?thesis using d(3) by metis
qed

text \<open>
  C11. \<^verbatim>\<open>gas_mkdir\<close> always returns, on a parent that does not have the name. Without an error the parent has
  gained exactly the name and one link, and the new directory, of two links, has exactly \<open>.\<close> for itself
  and \<open>..\<close> for its parent. With an error the parent is well formed with the links it had and no block is lost; the new
  inode is either gone, or still allocated but without links, if another reference keeps it, so that it is freed with the
  last one. The names of the parent are then as they were, with one exception: when a directory is written synchronously,
  a failed write leaves the new name behind, although its inode is being freed.
\<close>

theorem gas_mkdir_correct:
  assumes "name_io K" and "files_ok I s" and "dir \<in> I" and "dir_wf s dir" and "\<And>t i. pages_readable K t i"
    and "0 \<notin> set name" and "length name < GAS_MAX_NAME_LEN" and "dir_map s dir name = None"
    and "\<And>bf n. sb_bread K bf n \<noteq> None" and "\<And>i m. i \<notin> used_inodes s \<Longrightarrow> \<not> live s i m"
    and "mode AND S_IFMT = 0 \<or> mode AND S_IFMT = S_IFDIR"
  shows "\<exists>e d s'. gas_mkdir K s dir name mode = Some (e, d, s') \<and>
    (case d of
       Some ino \<Rightarrow> e = None \<and> ino \<notin> used_inodes s \<and> files_ok (insert ino I) s' \<and> unowned (insert ino I) s' = unowned I s \<and>
         used_inodes s' = insert ino (used_inodes s) \<and> dir_wf s' dir \<and> dir_map s' dir = (dir_map s dir)(name \<mapsto> word_of_nat ino) \<and>
         dir_wf s' ino \<and> dir_map s' ino = [dot \<mapsto> word_of_nat ino, dotdot \<mapsto> word_of_nat dir] \<and>
         i_nlink (icache s' ino) = 2 \<and> i_nlink (icache s' dir) = i_nlink (icache s dir) + 1
     | None \<Rightarrow> e \<noteq> None \<and> i_nlink (icache s' dir) = i_nlink (icache s dir) \<and> dir_wf s' dir \<and>
         (\<exists>ino. dir_map s' dir = dir_map s dir \<or> ino \<notin> used_inodes s \<and> (\<exists>t. is_dirsync K t dir) \<and> dir_map s' dir = (dir_map s dir)(name \<mapsto> word_of_nat ino)) \<and>
         (\<exists>J. files_ok J s' \<and> unowned J s' = unowned I s \<and>
           (J = I \<and> used_inodes s' = used_inodes s \<or>
            (\<exists>ino. ino \<notin> used_inodes s \<and> J = insert ino I \<and> used_inodes s' = insert ino (used_inodes s) \<and> i_nlink (icache s' ino) = 0))))"
  by (rule name_io.gas_mkdir_map [OF assms])

theorem gas_mkdir_correct_witness:
  "\<exists>dir s e d s'. gas_new_inode ref_dir_services empty_file_volume 1 0x41ED = Some (Some dir, None, s) \<and>
     gas_mkdir ref_name_services s dir [97] 0x1ED = Some (e, d, s') \<and>
     i_nlink (icache s' dir) = (case d of None \<Rightarrow> i_nlink (icache s dir) | Some _ \<Rightarrow> i_nlink (icache s dir) + 1)"
proof -
  obtain dir s where d: "gas_new_inode ref_dir_services empty_file_volume 1 0x41ED = Some (Some dir, None, s)" "files_ok {dir} s"
    "dir_wf s dir" "dir_map s dir = Map.empty" "\<And>i m. \<not> live s i m" using new_dir_ok by blast
  have "\<exists>e c s'. gas_mkdir ref_name_services s dir [97] 0x1ED = Some (e, c, s') \<and>
    i_nlink (icache s' dir) = (case c of None \<Rightarrow> i_nlink (icache s dir) | Some _ \<Rightarrow> i_nlink (icache s dir) + 1)"
    using gas_mkdir_correct [OF ref_names.name_io_axioms d(2) _ d(3) ref_names_readable, of "[97]" "0x1ED"] d(4,5)
    by (fastforce split: option.splits)
  then show ?thesis using d(1) by blast
qed

text \<open>
  C14. Renaming a file onto a name that exists in the same directory does not give the name to the file:
  \<^verbatim>\<open>gas_set_link\<close> never stores the new inode number. The call reports success, the new name still gives the
  file it gave, which has lost a link. When the deletion of the old entry, the call of \<^verbatim>\<open>gas_delete_entry\<close> the rename makes,
  reports no error, exactly the old name is gone; an error of it is not reported, and the old name may then be there still.
\<close>

theorem gas_rename_keeps_target:
  assumes "name_io K" and "files_ok I s" and "dir \<in> I" and "dir_wf s dir" and "\<And>t i. pages_readable K t i"
    and "length old_name < GAS_MAX_NAME_LEN" and "length new_name < GAS_MAX_NAME_LEN" and "old_name \<noteq> new_name"
    and "dir_map s dir old_name = Some v" and "dir_map s dir new_name = Some w"
    and "\<not> S_ISDIR (i_mode (icache s old_inode))" and "ni \<noteq> dir"
  shows "\<exists>old_de new_de s1 e s3 s'. gas_find_entry K s dir old_name = (Some old_de, s) \<and>
    gas_find_entry K s dir new_name = (Some new_de, s) \<and> gas_set_link K s dir new_de old_inode = Some s1 \<and>
    gas_delete_entry K (inode_dec_link_count ni (upd_inode ni (\<lambda>i. i\<lparr>i_ctime := current_time_sec K\<rparr>) s1)) dir old_de = Some (e, s3) \<and>
    gas_rename K s dir old_name old_inode dir new_name (Some ni) = Some (None, s') \<and> dir_map s' dir new_name = Some w \<and>
    (if e = None then dir_map s' dir = (dir_map s dir)(old_name := None)
     else dir_map s' dir \<in> {dir_map s dir, (dir_map s dir)(old_name := None)}) \<and>
    i_nlink (icache s' ni) = i_nlink (icache s ni) - 1"
  by (rule name_io.rename_onto [OF assms])

theorem gas_rename_keeps_target_witness:
  "\<exists>dir s s'. dir_map s dir = [dot \<mapsto> 9, dotdot \<mapsto> 1] \<and>
     gas_rename ref_name_services s dir dot (Suc dir) dir dotdot (Some (dir + 2)) = Some (None, s') \<and>
     dir_map s' dir dotdot = Some 1 \<and> i_nlink (icache s' (dir + 2)) = i_nlink (icache s (dir + 2)) - 1"
proof -
  obtain dir s where d: "files_ok {dir} s" "dir_wf s dir" "dir_map s dir = [dot \<mapsto> 9, dotdot \<mapsto> 1]"
    "\<not> S_ISDIR (i_mode (icache s (Suc dir)))" using two_names_and_file by blast
  have h: "dir_map s dir dot = Some 9" "dir_map s dir dotdot = Some 1" using d(3) by (simp_all add: dots_differ)
  have "dir \<in> {dir}" "length dot < GAS_MAX_NAME_LEN" "length dotdot < GAS_MAX_NAME_LEN" "dir + 2 \<noteq> dir"
    by (simp_all add: dots_differ)
  from gas_rename_keeps_target [OF ref_names.name_io_axioms d(1) this(1) d(2) ref_names_readable this(2,3) dots_differ(2) h d(4) this(4)]
  show ?thesis using d(3) by blast
qed

end
