(* ===== verification/Gas_Vfs.thy ===== *)
theory Gas_Vfs
  imports Gas_Namei_Spec
begin

text \<open>
  The calls of the VFS through the operation table of directories (\<^verbatim>\<open>src/kern/def.c\<close>) on well-formed directories whose
  pages and blocks can be read: what each leaves of the volume, whether it succeeds or fails, and a transition
  system of such calls and of operations on files, in which every inode number is accounted for.
\<close>

section \<open>Keeping the volume\<close>









section \<open>Calls on a directory\<close>





section \<open>Sessions\<close>








section \<open>Properties\<close>





end
