(* ===== verification/Mkfs.thy ===== *)
theory Mkfs
  imports Makefs_Bitmap Gas_Dentry
begin

text \<open>
  The file system maker (\<^verbatim>\<open>src/makefs/mkfs.c\<close>): the geometry computed from the size of the device,
  the super block, the two bitmaps, the inode list, the write-back cache of blocks, and the creation of
  the root directory.

  The open device is a function from block numbers to blocks; reads and writes of whole blocks do not
  fail and their results are ignored by the code. \<open>lseek\<close> gets the product of two \<open>int\<close>s: a block at or
  beyond 2 GB overflows it, and the program has no defined behaviour; the model then has no result
  (\<open>None\<close>). \<open>int\<close> variables that count blocks are natural numbers.
\<close>

section \<open>State\<close>

record filesys_param =
  iam_blk :: u64
  ino_blk :: u64
  bam_blk :: u64
  blk_cnt :: u64
  ino_cnt :: u64
  data_st :: u64

record blk_cache =
  bc_dirty :: bool
  bc_id :: nat
  bc_block :: block

text \<open>\<open>bc_head\<close> is the list of cached blocks, most recently inserted first. A pointer to a cached block is
  its block number.\<close>

record mkfs =
  gas :: filesys_param
  disk :: "nat \<Rightarrow> block"
  bc_head :: "blk_cache list"

text \<open>What the program asks of its environment: user, group, time.\<close>

record env =
  getuid :: u32
  getgid :: u32
  time_now :: u64

abbreviation (input) BAM_BLOCK_START :: nat where "BAM_BLOCK_START \<equiv> 1"
abbreviation (input) INODES_PER_BLOCK :: nat where "INODES_PER_BLOCK \<equiv> 64"
abbreviation (input) INVALID_NO :: nat where "INVALID_NO \<equiv> 0"

definition IAM_BLOCK_START :: "filesys_param \<Rightarrow> u64" where
  "IAM_BLOCK_START g = 1 + bam_blk g"

definition INODE_LIST_START :: "filesys_param \<Rightarrow> u64" where
  "INODE_LIST_START g = IAM_BLOCK_START g + iam_blk g"

section \<open>Blocks of the device\<close>

definition seek_ok :: "nat \<Rightarrow> bool" where
  "seek_ok blk \<longleftrightarrow> blk * GAS_BLOCK_SIZE < 2 ^ 31"

definition read_block :: "nat \<Rightarrow> mkfs \<Rightarrow> block option" where
  "read_block blk s = (if seek_ok blk then Some (disk s blk) else None)"

definition write_block :: "nat \<Rightarrow> block \<Rightarrow> mkfs \<Rightarrow> mkfs option" where
  "write_block blk b s = (if seek_ok blk then Some (s\<lparr>disk := (disk s)(blk := b)\<rparr>) else None)"

section \<open>The block cache\<close>

definition bc_insert :: "blk_cache \<Rightarrow> mkfs \<Rightarrow> mkfs" where
  "bc_insert c s = s\<lparr>bc_head := c # bc_head s\<rparr>"

fun bc_sync_list :: "blk_cache list \<Rightarrow> mkfs \<Rightarrow> mkfs option" where
  "bc_sync_list [] s = Some s"
| "bc_sync_list (it # rest) s =
     (case (if bc_dirty it then write_block (bc_id it) (bc_block it) s else Some s) of
        None \<Rightarrow> None
      | Some s \<Rightarrow> bc_sync_list rest s)"

definition bc_sync :: "mkfs \<Rightarrow> mkfs option" where
  "bc_sync s = map_option (\<lambda>s. s\<lparr>bc_head := []\<rparr>) (bc_sync_list (bc_head s) s)"

definition bc_find :: "nat \<Rightarrow> mkfs \<Rightarrow> blk_cache option" where
  "bc_find blk s = find (\<lambda>c. bc_id c = blk) (bc_head s)"

text \<open>\<open>bc_read\<close> makes the block cached; the data behind the returned pointer is \<open>bc_data\<close>.\<close>

definition bc_read :: "nat \<Rightarrow> mkfs \<Rightarrow> mkfs option" where
  "bc_read blk s =
     (case bc_find blk s of
        Some it \<Rightarrow> Some s
      | None \<Rightarrow> map_option (\<lambda>b. bc_insert \<lparr>bc_dirty = False, bc_id = blk, bc_block = b\<rparr> s) (read_block blk s))"

definition bc_data :: "nat \<Rightarrow> mkfs \<Rightarrow> block" where
  "bc_data blk s = (case bc_find blk s of Some it \<Rightarrow> bc_block it | None \<Rightarrow> (\<lambda>_. 0))"

fun bc_map :: "nat \<Rightarrow> (blk_cache \<Rightarrow> blk_cache) \<Rightarrow> blk_cache list \<Rightarrow> blk_cache list" where
  "bc_map blk f [] = []"
| "bc_map blk f (c # cs) = (if bc_id c = blk then f c # cs else c # bc_map blk f cs)"

text \<open>A store through a pointer to a cached block.\<close>

definition bc_store :: "nat \<Rightarrow> block \<Rightarrow> mkfs \<Rightarrow> mkfs" where
  "bc_store blk b s = s\<lparr>bc_head := bc_map blk (\<lambda>c. c\<lparr>bc_block := b\<rparr>) (bc_head s)\<rparr>"

definition bc_write :: "nat \<Rightarrow> bool \<Rightarrow> mkfs \<Rightarrow> mkfs option" where
  "bc_write blk sync s =
     (case bc_find blk s of
        None \<Rightarrow> Some s
      | Some p \<Rightarrow>
          if sync
          then map_option (\<lambda>s. s\<lparr>bc_head := bc_map blk (\<lambda>c. c\<lparr>bc_dirty := False\<rparr>) (bc_head s)\<rparr>)
                 (write_block (bc_id p) (bc_block p) s)
          else Some (s\<lparr>bc_head := bc_map blk (\<lambda>c. c\<lparr>bc_dirty := True\<rparr>) (bc_head s)\<rparr>))"

section \<open>The metadata areas\<close>

definition zero_block :: block where
  "zero_block = memset (\<lambda>_. 0) 0 GAS_BLOCK_SIZE"

definition init_super_block :: "mkfs \<Rightarrow> mkfs option" where
  "init_super_block s =
     (let g = gas s
      in write_block SUPER_BLOCK_NO
           (store_super zero_block 0
              \<lparr>d_magic = MAGIC_NUMBER, d_blocksize = 4096, d_bam_blocks = ucast (bam_blk g),
               d_iam_blocks = ucast (iam_blk g), d_inode_blocks = ucast (ino_blk g), d_nblocks = ucast (blk_cnt g),
               d_ninodes = ucast (ino_cnt g)\<rparr>) s)"

text \<open>
  The contents of one bitmap block and the bits still to be preallocated: the first \<open>prealloc\<close> bits are
  set, and in the last block of a map of \<open>cnt\<close> bits the bits beyond.
\<close>

definition alloc_map_block :: "nat \<Rightarrow> bool \<Rightarrow> u64 \<Rightarrow> u64 \<Rightarrow> block \<Rightarrow> block \<times> nat" where
  "alloc_map_block prealloc lst blks cnt buffer =
     (let (buffer, prealloc) =
            (if BITS_PER_BLOCK < prealloc
             then (memset buffer 0xff GAS_BLOCK_SIZE, prealloc - BITS_PER_BLOCK)
             else let buffer = memset buffer 0 GAS_BLOCK_SIZE
                  in if prealloc \<noteq> 0 then (bytes_of (bitmap_set (u64s buffer) 0 prealloc), 0) else (buffer, prealloc));
          buffer =
            (if lst \<and> cnt \<noteq> blks * 32768
             then let bits = unat (blks * 32768 - cnt)
                  in bytes_of (bitmap_set (u64s buffer) (BITS_PER_BLOCK - bits) bits)
             else buffer)
      in (buffer, prealloc))"

text \<open>The loop \<open>for (i = 1; i <= blks; i++)\<close> with \<open>n\<close> iterations left.\<close>

fun init_alloc_map :: "u64 \<Rightarrow> u64 \<Rightarrow> nat \<Rightarrow> nat \<Rightarrow> nat \<Rightarrow> block \<Rightarrow> mkfs \<Rightarrow> mkfs option" where
  "init_alloc_map blks cnt 0 blk prealloc buffer s = Some s"
| "init_alloc_map blks cnt (Suc n) blk prealloc buffer s =
     (let (buffer, prealloc) = alloc_map_block prealloc (n = 0) blks cnt buffer
      in case write_block blk buffer s of
           None \<Rightarrow> None
         | Some s \<Rightarrow> init_alloc_map blks cnt n (blk + 1) prealloc buffer s)"

definition init_block_alloc_map :: "block \<Rightarrow> mkfs \<Rightarrow> mkfs option" where
  "init_block_alloc_map buffer s =
     (let g = gas s
      in init_alloc_map (bam_blk g) (blk_cnt g) (unat (bam_blk g)) BAM_BLOCK_START (unat (data_st g)) buffer s)"

definition init_inode_alloc_map :: "block \<Rightarrow> mkfs \<Rightarrow> mkfs option" where
  "init_inode_alloc_map buffer s =
     (let g = gas s
      in init_alloc_map (iam_blk g) (ino_cnt g) (unat (iam_blk g)) (unat (IAM_BLOCK_START g)) 1 buffer s)"

fun write_blocks :: "nat \<Rightarrow> nat \<Rightarrow> block \<Rightarrow> mkfs \<Rightarrow> mkfs option" where
  "write_blocks 0 blk buffer s = Some s"
| "write_blocks (Suc n) blk buffer s =
     (case write_block blk buffer s of None \<Rightarrow> None | Some s \<Rightarrow> write_blocks n (blk + 1) buffer s)"

definition init_inode_list :: "mkfs \<Rightarrow> mkfs option" where
  "init_inode_list s =
     (let g = gas s in write_blocks (unat (ino_blk g)) (unat (INODE_LIST_START g)) zero_block s)"

section \<open>Allocation in the image\<close>

text \<open>The loop of \<open>allocate_blk\<close> over the map blocks; \<open>n\<close> is the value of the last search.\<close>

fun allocate_blk_loop :: "nat \<Rightarrow> nat \<Rightarrow> nat \<Rightarrow> nat option \<Rightarrow> mkfs \<Rightarrow> (nat option \<times> mkfs) option" where
  "allocate_blk_loop 0 i blocks n s = Some (n, s)"
| "allocate_blk_loop (Suc left) i blocks n s =
     (let blk = BAM_BLOCK_START + i
      in case bc_read blk s of
           None \<Rightarrow> None
         | Some s \<Rightarrow>
             let (n, mp) = bitmap_alloc_region (u64s (bc_data blk s)) BITS_PER_BLOCK 0 blocks;
                 s = bc_store blk (bytes_of mp) s
             in if n = INVALID_NO then allocate_blk_loop left (i + 1) blocks (Some n) s
                else map_option (\<lambda>s. (Some (n + i * BITS_PER_BLOCK), s)) (bc_write blk False s))"

text \<open>Without map blocks \<open>n\<close> is returned uninitialised.\<close>

definition allocate_blk :: "nat \<Rightarrow> mkfs \<Rightarrow> (u32 \<times> mkfs) option" where
  "allocate_blk blocks s =
     (case allocate_blk_loop (unat (bam_blk (gas s))) 0 blocks None s of
        Some (Some n, s) \<Rightarrow> Some (word_of_nat n, s)
      | _ \<Rightarrow> None)"

definition allocate_inode :: "mkfs \<Rightarrow> (u32 \<times> mkfs) option" where
  "allocate_inode s =
     (let blk = unat (IAM_BLOCK_START (gas s))
      in case bc_read blk s of
           None \<Rightarrow> None
         | Some s \<Rightarrow>
             let (n, mp) = bitmap_alloc_region (u64s (bc_data blk s)) BITS_PER_BLOCK GAS_ROOT_INO 1;
                 s = bc_store blk (bytes_of mp) s
             in if n = INVALID_NO then Some (word_of_nat n, s)
                else map_option (\<lambda>s. (word_of_nat n, s)) (bc_write blk False s))"

definition free_inode :: "u32 \<Rightarrow> mkfs \<Rightarrow> mkfs option" where
  "free_inode ino_id s =
     (let blk = unat (IAM_BLOCK_START (gas s))
      in case bc_read blk s of
           None \<Rightarrow> None
         | Some s \<Rightarrow>
             if INODES_PER_BLOCK \<le> unat ino_id then Some s
             else bc_write blk False
                    (bc_store blk (bytes_of (bitmap_free_region (u64s (bc_data blk s)) (unat ino_id) 1)) s))"

text \<open>The pointer returned by \<open>get_inode\<close>: the offset in the cached first block of the inode list.\<close>

definition get_inode :: "u32 \<Rightarrow> mkfs \<Rightarrow> (nat option \<times> mkfs) option" where
  "get_inode ino_id s =
     (case bc_read (unat (INODE_LIST_START (gas s))) s of
        None \<Rightarrow> None
      | Some s \<Rightarrow> Some (if INODES_PER_BLOCK \<le> unat ino_id then None else Some (GAS_INODE_SIZE * unat ino_id), s))"

definition ino_load :: "nat \<Rightarrow> mkfs \<Rightarrow> gas_inode" where
  "ino_load off s = load_inode (bc_data (unat (INODE_LIST_START (gas s))) s) off"

definition ino_store :: "nat \<Rightarrow> (gas_inode \<Rightarrow> gas_inode) \<Rightarrow> mkfs \<Rightarrow> mkfs" where
  "ino_store off f s =
     (let blk = unat (INODE_LIST_START (gas s)); b = bc_data blk s
      in bc_store blk (store_inode b off (f (load_inode b off))) s)"

text \<open>Either the program ends with an exit status, or it goes on with a value; both with the state.\<close>

type_synonym 'a run = "(nat \<times> mkfs + 'a \<times> mkfs) option"

definition new_inode_mk :: "env \<Rightarrow> u16 \<Rightarrow> nat \<Rightarrow> mkfs \<Rightarrow> u32 run" where
  "new_inode_mk E mode byte_size s =
     (let block_count = (byte_size + GAS_BLOCK_SIZE - 1) div GAS_BLOCK_SIZE
      in case allocate_inode s of
           None \<Rightarrow> None
         | Some (ino_id, s) \<Rightarrow>
             if ino_id = 0 then Some (Inr (ino_id, s))
             else case get_inode ino_id s of
                    None \<Rightarrow> None
                  | Some (None, s) \<Rightarrow> Some (Inl (1, s))
                  | Some (Some ino, s) \<Rightarrow>
                      (case allocate_blk block_count s of
                         None \<Rightarrow> None
                       | Some (b, s) \<Rightarrow>
                           let s = ino_store ino (\<lambda>i. i\<lparr>gi_blkaddr := (gi_blkaddr i)(0 := b)\<rparr>) s
                           in if gi_blkaddr (ino_load ino s) 0 = 0
                              then map_option (\<lambda>s. Inr (0, s)) (free_inode ino_id s)
                              else
                                let now = ucast (time_now E);
                                    s = ino_store ino (\<lambda>i. i\<lparr>gi_size := 0, gi_nlink := (if S_ISDIR mode then 2 else 1),
                                          gi_uid := getuid E, gi_gid := getgid E, gi_mode := mode, gi_ctime := now,
                                          gi_atime := now, gi_mtime := now\<rparr>) s
                                in map_option (\<lambda>s. Inr (ino_id, s)) (bc_write (unat (INODE_LIST_START (gas s))) False s)))"

text \<open>
  \<open>None\<close> also stands for an entry that would run past the end of its block (an \<open>i_size\<close> between 3837 and
  4095).
\<close>

definition gas_add_dentry :: "nat \<Rightarrow> byte list \<Rightarrow> u32 \<Rightarrow> mkfs \<Rightarrow> unit run" where
  "gas_add_dentry ino name new_ino s =
     (let i = ino_load ino s
      in if GAS_BLOCK_SIZE \<le> unat (gi_size i) then map_option (\<lambda>s. Inl (1, s)) (bc_sync s)
         else
           let blk_id = unat (gi_blkaddr i 0 + gi_size i div 4096); offset = unat (gi_size i mod 4096)
           in if GAS_BLOCK_SIZE < offset + GAS_DIR_ENTRY_SIZE then None
              else case bc_read blk_id s of
                     None \<Rightarrow> None
                   | Some s \<Rightarrow>
                       let s = bc_store blk_id (store_dentry (bc_data blk_id s) offset \<lparr>de_name = name, de_inode = new_ino\<rparr>) s;
                           s = ino_store ino (\<lambda>i. i\<lparr>gi_size := gi_size i + 260\<rparr>) s
                       in map_option (\<lambda>s. Inr ((), s)) (bc_write blk_id False s))"

definition make_rootdir :: "env \<Rightarrow> mkfs \<Rightarrow> unit run" where
  "make_rootdir E s =
     (case new_inode_mk E (S_IFDIR OR 0x1ED) (64 * GAS_DIR_ENTRY_SIZE) s of
        None \<Rightarrow> None
      | Some (Inl ex) \<Rightarrow> Some (Inl ex)
      | Some (Inr (ino_id, s)) \<Rightarrow>
          if ino_id = 0 then map_option (\<lambda>s. Inl (1, s)) (bc_sync s)
          else case get_inode ino_id s of
                 Some (Some ino, s) \<Rightarrow>
                   (case gas_add_dentry ino [46] 1 s of
                      Some (Inr (_, s)) \<Rightarrow> gas_add_dentry ino [46, 46] 1 s
                    | r \<Rightarrow> r)
               | _ \<Rightarrow> None)"

section \<open>The program\<close>

text \<open>The geometry of a device of \<open>sz\<close> bytes.\<close>

definition geometry :: "nat \<Rightarrow> filesys_param" where
  "geometry sz =
     (let blks = word_of_nat (sz div GAS_BLOCK_SIZE); bam = (blks + 32768 - 1) div 32768;
          inob = (blks div 4) div 64; inoc = inob * 64; iam = (inoc + 32768 - 1) div 32768
      in \<lparr>iam_blk = iam, ino_blk = inob, bam_blk = bam, blk_cnt = blks, ino_cnt = inoc,
          data_st = 1 + bam + iam + inob\<rparr>)"

text \<open>\<open>buffer\<close> is what \<open>malloc\<close> returns; the result is the exit status and the device.\<close>

definition mkfs_main :: "env \<Rightarrow> string list \<Rightarrow> (string \<Rightarrow> (nat \<times> (nat \<Rightarrow> block)) option) \<Rightarrow> block \<Rightarrow> (nat \<times> (nat \<Rightarrow> block)) option" where
  "mkfs_main E argv openf buffer =
     (if length argv < 2 then Some (1, \<lambda>_ _. 0)
      else case openf (argv ! 1) of
             None \<Rightarrow> Some (2, \<lambda>_ _. 0)
           | Some (sz, dev) \<Rightarrow>
               let s = \<lparr>gas = geometry sz, disk = dev, bc_head = []\<rparr>
               in Option.bind (init_super_block s) (\<lambda>s.
                  Option.bind (init_block_alloc_map buffer s) (\<lambda>s.
                  Option.bind (init_inode_alloc_map buffer s) (\<lambda>s.
                  Option.bind (init_inode_list s) (\<lambda>s.
                  Option.bind (make_rootdir E s) (\<lambda>r.
                    case r of
                      Inl (code, s) \<Rightarrow> Some (code, disk s)
                    | Inr (_, s) \<Rightarrow> map_option (\<lambda>s. (0, disk s)) (bc_sync s)))))))"

end
