(* ===== verification/Gas_Super.thy ===== *)
theory Gas_Super
  imports Gas_Dir
begin

text \<open>
  Mounting, unmounting and statistics (\<^verbatim>\<open>src/kern/gas_super.c\<close>): reading the super block, pinning
  the bitmap blocks, the error paths of \<^verbatim>\<open>gas_fill_super\<close>, releasing everything again, \<open>statfs\<close>, the
  slab cache of in-core inodes and the registration of the module.
\<close>

section \<open>The super block\<close>

definition gas_super_block_fill :: "gas_sb_info \<Rightarrow> gas_super_block \<Rightarrow> gas_sb_info" where
  "gas_super_block_fill sb dsb =
     (let sb = sb\<lparr>s_magic := d_magic dsb, s_blocksize := d_blocksize dsb, s_bam_blocks := d_bam_blocks dsb,
            s_iam_blocks := d_iam_blocks dsb, s_inode_blocks := d_inode_blocks dsb, s_nblocks := d_nblocks dsb,
            s_ninodes := d_ninodes dsb\<rparr>;
          sb = sb\<lparr>s_inodes_per_block := s_blocksize sb div 64, s_bits_per_block := 8 * s_blocksize sb,
            s_dir_entries_per_block := s_blocksize sb div 260,
            s_inode_list_start := s_bam_blocks sb + s_iam_blocks sb + 1\<rparr>
      in sb\<lparr>s_data_block_start := s_inode_list_start sb + s_inode_blocks sb\<rparr>)"

text \<open>\<open>kzalloc\<close> hands out zeroed memory.\<close>

definition zero_sb_info :: gas_sb_info where
  "zero_sb_info = \<lparr>s_magic = 0, s_blocksize = 0, s_bam_blocks = 0, s_iam_blocks = 0, s_inode_blocks = 0,
     s_nblocks = 0, s_ninodes = 0, s_inodes_per_block = 0, s_bits_per_block = 0, s_dir_entries_per_block = 0,
     s_bam_bh = [], s_iam_bh = [], s_bam_last = 0, s_iam_last = 0, s_inode_list_start = 0, s_data_block_start = 0\<rparr>"

section \<open>Kernel services and resources\<close>

text \<open>
  \<open>kzalloc\<close> may fail, by size of the request; \<open>sb_set_blocksize\<close> fails or sets the block size, here
  with its logarithm; \<open>d_make_root\<close> may fail.
\<close>

record super_services = dir_services +
  kzalloc :: "fs \<Rightarrow> nat \<Rightarrow> bool"
  sb_set_blocksize :: "fs \<Rightarrow> u32 \<Rightarrow> fs option"
  d_make_root :: "fs \<Rightarrow> nat \<Rightarrow> bool"
  huge_encode_dev :: "fs \<Rightarrow> u64"

text \<open>The memory a mount holds: the in-core super block and the array of buffer heads.\<close>

datatype kmem = Mem_sbi | Mem_map

text \<open>
  The VFS super block. \<open>bh_refs n\<close> counts the references the mount holds on the buffer of block \<open>n\<close>,
  \<open>kmems\<close> lists its live allocations. \<open>sbi\<close> of the file system state is what \<open>s_fs_info\<close> points to.
\<close>

record super_block =
  fs_of :: fs
  v_magic :: u32
  v_fs_info :: bool
  v_op :: bool
  v_max_links :: nat
  v_root :: "nat option"
  bh_refs :: "nat \<Rightarrow> nat"
  kmems :: "kmem list"

definition brelse :: "nat option \<Rightarrow> super_block \<Rightarrow> super_block" where
  "brelse bh S = (case bh of None \<Rightarrow> S | Some n \<Rightarrow> S\<lparr>bh_refs := (bh_refs S)(n := bh_refs S n - 1)\<rparr>)"

lemma brelse_taken [simp]: "brelse (Some n) (S\<lparr>bh_refs := f(n := Suc (f n))\<rparr>) = S\<lparr>bh_refs := f\<rparr>"
  by (simp add: brelse_def)

definition kfree :: "kmem \<Rightarrow> super_block \<Rightarrow> super_block" where
  "kfree m S = S\<lparr>kmems := remove1 m (kmems S)\<rparr>"

section \<open>Mounting\<close>

definition gas_super_block_read :: "'k super_services_scheme \<Rightarrow> super_block \<Rightarrow> gas_sb_info option \<times> super_block" where
  "gas_super_block_read K S =
     (if \<not> kzalloc K (fs_of S) 72 then (None, S)
      else let S = S\<lparr>kmems := Mem_sbi # kmems S\<rparr>
           in case sb_bread K (bufs (fs_of S)) SUPER_BLOCK_NO of
                None \<Rightarrow> (None, kfree Mem_sbi S)
              | Some b_data \<Rightarrow>
                  let S = S\<lparr>bh_refs := (bh_refs S)(SUPER_BLOCK_NO := bh_refs S SUPER_BLOCK_NO + 1)\<rparr>;
                      sb = gas_super_block_fill zero_sb_info (load_super b_data 0);
                      S = brelse (Some SUPER_BLOCK_NO) S
                  in if s_magic sb \<noteq> MAGIC_NUMBER then (None, kfree Mem_sbi S) else (Some sb, S))"

text \<open>
  Reading the blocks of one bitmap: the array of buffer heads read so far, and whether a read failed.
\<close>

fun read_maps :: "'k super_services_scheme \<Rightarrow> nat \<Rightarrow> nat \<Rightarrow> super_block \<Rightarrow> nat list \<times> bool \<times> super_block" where
  "read_maps K blk 0 S = ([], True, S)"
| "read_maps K blk (Suc n) S =
     (case sb_bread K (bufs (fs_of S)) blk of
        None \<Rightarrow> ([], False, S)
      | Some _ \<Rightarrow>
          let (bhs, ok, S) = read_maps K (blk + 1) n (S\<lparr>bh_refs := (bh_refs S)(blk := bh_refs S blk + 1)\<rparr>)
          in (blk # bhs, ok, S))"

definition brelse_all :: "nat list \<Rightarrow> super_block \<Rightarrow> super_block" where
  "brelse_all bhs S = fold (\<lambda>bh. brelse (Some bh)) bhs S"

text \<open>
  On the error path entries that were never read are \<open>NULL\<close>, which \<open>brelse\<close> ignores. No result when
  the array of buffer heads could not be allocated: the code does not test it.
\<close>

definition gas_fill_super :: "'k super_services_scheme \<Rightarrow> super_block \<Rightarrow> (err \<times> super_block) option" where
  "gas_fill_super K S =
     (case gas_super_block_read K S of
        (None, S) \<Rightarrow> Some (Some EINVAL, S)
      | (Some sb, S) \<Rightarrow>
          let S = S\<lparr>v_magic := s_magic sb, fs_of := (fs_of S)\<lparr>sbi := sb\<rparr>, v_fs_info := True, v_op := True,
                v_max_links := GAS_LINK_MAX\<rparr>
          in case sb_set_blocksize K (fs_of S) (s_blocksize sb) of
               None \<Rightarrow> Some (Some EINVAL, S)
             | Some f \<Rightarrow>
                 let S = S\<lparr>fs_of := f\<rparr>
                 in if s_bam_blocks sb = 0 \<or> s_iam_blocks sb = 0 \<or> s_inode_blocks sb = 0 then Some (Some EINVAL, S)
                    else if \<not> kzalloc K (fs_of S) (8 * unat (s_bam_blocks sb + s_iam_blocks sb)) then None
                    else
                      let S = S\<lparr>kmems := Mem_map # kmems S\<rparr>;
                          (bam, ok1, S) = read_maps K 1 (unat (s_bam_blocks sb)) S;
                          (iam, ok2, S) =
                            (if ok1 then read_maps K (1 + unat (s_bam_blocks sb)) (unat (s_iam_blocks sb)) S else ([], False, S))
                      in if \<not> ok2 then Some (Some EIO, kfree Mem_map (brelse_all (bam @ iam) S))
                         else
                           let sb = sb\<lparr>s_bam_bh := bam, s_iam_bh := iam, s_bam_last := 0, s_iam_last := 0\<rparr>;
                               S = S\<lparr>fs_of := (fs_of S)\<lparr>sbi := sb\<rparr>\<rparr>
                           in case gas_iget K (fs_of S) GAS_ROOT_INO of
                                (Inl e, f) \<Rightarrow> Some (Some e, S\<lparr>fs_of := f\<rparr>)
                              | (Inr root, f) \<Rightarrow>
                                  let S = S\<lparr>fs_of := f\<rparr>
                                  in if d_make_root K f root then Some (None, S\<lparr>v_root := Some root\<rparr>)
                                     else Some (Some ENOMEM, S\<lparr>v_root := None\<rparr>))"

text \<open>\<open>mount_bdev\<close> opens the device and calls back.\<close>

definition gas_mount ::
  "((super_block \<Rightarrow> (err \<times> super_block) option) \<Rightarrow> string \<Rightarrow> (err \<times> super_block) option) \<Rightarrow> 'k super_services_scheme \<Rightarrow>
     string \<Rightarrow> (err \<times> super_block) option" where
  "gas_mount mount_bdev K dev = mount_bdev (gas_fill_super K) dev"

definition gas_put_super :: "super_block \<Rightarrow> super_block" where
  "gas_put_super S =
     (let S = (if v_fs_info S
               then let sb = sbi (fs_of S);
                        S = brelse_all (take (unat (s_bam_blocks sb)) (s_bam_bh sb)) S;
                        S = brelse_all (take (unat (s_iam_blocks sb)) (s_iam_bh sb)) S
                    in kfree Mem_sbi (kfree Mem_map S)
               else S)
      in S\<lparr>v_fs_info := False\<rparr>)"

section \<open>Statistics\<close>

record kstatfs =
  f_type :: u32
  f_bsize :: nat
  f_blocks :: u32
  f_bfree :: u32
  f_bavail :: u32
  f_files :: u32
  f_ffree :: u32
  f_namelen :: nat
  f_fsid :: "u32 \<times> u32"

definition gas_statfs :: "'k super_services_scheme \<Rightarrow> super_block \<Rightarrow> kstatfs option" where
  "gas_statfs K S =
     (let s = fs_of S; sb = sbi s; i = huge_encode_dev K s
      in case gas_count_free_blocks K s of
           None \<Rightarrow> None
         | Some bfree \<Rightarrow>
             (case gas_count_free_inodes K s of
                None \<Rightarrow> None
              | Some ffree \<Rightarrow>
                  Some \<lparr>f_type = v_magic S, f_bsize = sb_blocksize s, f_blocks = s_nblocks sb - s_data_block_start sb,
                    f_bfree = bfree, f_bavail = bfree, f_files = s_ninodes sb, f_ffree = ffree,
                    f_namelen = GAS_MAX_NAME_LEN, f_fsid = (ucast i, ucast (drop_bit 32 i))\<rparr>))"

section \<open>The inode cache and the module\<close>

text \<open>
  Objects of the slab cache are addresses; a destroyed inode stays live until its RCU callback runs.
\<close>

record slab =
  slab_live :: "nat set"
  rcu_queue :: "nat list"

definition gas_alloc_inode :: "(slab \<Rightarrow> nat option) \<Rightarrow> slab \<Rightarrow> nat option \<times> slab" where
  "gas_alloc_inode kmem_cache_alloc c =
     (case kmem_cache_alloc c of None \<Rightarrow> (None, c) | Some a \<Rightarrow> (Some a, c\<lparr>slab_live := insert a (slab_live c)\<rparr>))"

definition gas_destroy_inode :: "nat \<Rightarrow> slab \<Rightarrow> slab" where
  "gas_destroy_inode a c = c\<lparr>rcu_queue := rcu_queue c @ [a]\<rparr>"

definition gas_destroy_callback :: "nat \<Rightarrow> slab \<Rightarrow> slab" where
  "gas_destroy_callback a c = c\<lparr>slab_live := slab_live c - {a}\<rparr>"

text \<open>The state of the module: the inode cache exists, the file system type is registered.\<close>

record module_state =
  gas_inode_cache :: bool
  gas_registered :: bool

definition gas_inode_cache_create :: "bool \<Rightarrow> module_state \<Rightarrow> err \<times> module_state" where
  "gas_inode_cache_create created m =
     (if created then (None, m\<lparr>gas_inode_cache := True\<rparr>) else (Some ENOMEM, m\<lparr>gas_inode_cache := False\<rparr>))"

definition gas_inode_cache_destroy :: "module_state \<Rightarrow> module_state" where
  "gas_inode_cache_destroy m = m\<lparr>gas_inode_cache := False\<rparr>"

text \<open>\<open>created\<close>: \<open>kmem_cache_create\<close> succeeds; \<open>reg\<close>: the result of \<open>register_filesystem\<close>.\<close>

definition init_gas_fs :: "bool \<Rightarrow> err \<Rightarrow> module_state \<Rightarrow> err \<times> module_state" where
  "init_gas_fs created reg m =
     (let (ret, m) = gas_inode_cache_create created m
      in if ret \<noteq> None then (ret, m)
         else if reg = None then (None, m\<lparr>gas_registered := True\<rparr>)
         else (None, gas_inode_cache_destroy m))"

definition exit_gas_fs :: "module_state \<Rightarrow> module_state" where
  "exit_gas_fs m = m\<lparr>gas_registered := False\<rparr>"

end
