(* ===== verification/Gas_Super_Spec.thy ===== *)
theory Gas_Super_Spec
  imports Gas_Super Gas_Dir_Spec
begin

text \<open>
  Mounting and unmounting (\<^verbatim>\<open>src/kern/gas_super.c\<close>): what a mount holds, what unmounting releases, what the
  error paths leave behind, and the results of the module's entry points.
\<close>

section \<open>Releasing what a mount holds\<close>

lemma brelse_all_simps [simp]:
  "brelse_all [] S = S" "brelse_all (n # ns) S = brelse_all ns (S\<lparr>bh_refs := (bh_refs S)(n := bh_refs S n - 1)\<rparr>)"
  by (simp_all add: brelse_all_def brelse_def)

lemma brelse_all_state:
  "brelse_all ns S = S\<lparr>bh_refs := (\<lambda>n. bh_refs S n - length (filter (\<lambda>k. k = n) ns))\<rparr>"
proof (induction ns arbitrary: S)
  case Nil
  then show ?case by simp
next
  case (Cons k ns)
  have "(\<lambda>n. ((bh_refs S)(k := bh_refs S k - 1)) n - length (filter (\<lambda>j. j = n) ns)) =
    (\<lambda>n. bh_refs S n - length (filter (\<lambda>j. j = n) (k # ns)))" by auto
  then show ?case by (simp only: brelse_all_simps Cons.IH) simp
qed

text \<open>Reading the blocks of a bitmap takes one reference on each block read; it is complete unless a read fails.\<close>

lemma read_maps_state:
  assumes "read_maps K blk n S = (bhs, ok, S')"
  shows "S' = S\<lparr>bh_refs := (\<lambda>k. bh_refs S k + length (filter (\<lambda>j. j = k) bhs))\<rparr>"
    "ok \<longleftrightarrow> (\<forall>k\<in>{blk..<blk + n}. sb_bread K (bufs (fs_of S)) k \<noteq> None)" "ok \<Longrightarrow> bhs = [blk..<blk + n]"
proof -
  have "S' = S\<lparr>bh_refs := (\<lambda>k. bh_refs S k + length (filter (\<lambda>j. j = k) bhs))\<rparr> \<and>
    (ok \<longleftrightarrow> (\<forall>k\<in>{blk..<blk + n}. sb_bread K (bufs (fs_of S)) k \<noteq> None)) \<and> (ok \<longrightarrow> bhs = [blk..<blk + n])"
    using assms
  proof (induction n arbitrary: blk S bhs ok S')
    case 0
    then show ?case by simp
  next
    case (Suc n)
    show ?case
    proof (cases "sb_bread K (bufs (fs_of S)) blk")
      case None
      then have "bhs = []" "\<not> ok" "S' = S" using Suc.prems by simp_all
      moreover have "blk \<in> {blk..<blk + Suc n}" by simp
      ultimately show ?thesis using None by auto
    next
      case (Some b)
      define T where "T = S\<lparr>bh_refs := (bh_refs S)(blk := bh_refs S blk + 1)\<rparr>"
      obtain bs where r: "read_maps K (blk + 1) n T = (bs, ok, S')" "bhs = blk # bs"
        using Suc.prems Some by (auto simp: T_def Let_def split: prod.splits)
      note ih = Suc.IH [OF r(1)]
      have split: "{blk..<blk + Suc n} = insert blk {blk + 1..<blk + 1 + n}" by auto
      have f: "fs_of T = fs_of S" by (simp add: T_def)
      have "(\<lambda>k. bh_refs T k + length (filter (\<lambda>j. j = k) bs)) = (\<lambda>k. bh_refs S k + length (filter (\<lambda>j. j = k) bhs))"
        by (auto simp: T_def r(2))
      then have "S' = S\<lparr>bh_refs := (\<lambda>k. bh_refs S k + length (filter (\<lambda>j. j = k) bhs))\<rparr>"
        using ih by (simp add: T_def)
      moreover have "ok \<longleftrightarrow> (\<forall>k\<in>{blk..<blk + Suc n}. sb_bread K (bufs (fs_of S)) k \<noteq> None)"
        unfolding split using ih Some f by simp
      moreover have "ok \<longrightarrow> bhs = [blk..<blk + Suc n]" using ih r(2) by (simp add: upt_conv_Cons)
      ultimately show ?thesis by blast
    qed
  qed
  then show "S' = S\<lparr>bh_refs := (\<lambda>k. bh_refs S k + length (filter (\<lambda>j. j = k) bhs))\<rparr>"
    "ok \<longleftrightarrow> (\<forall>k\<in>{blk..<blk + n}. sb_bread K (bufs (fs_of S)) k \<noteq> None)" "ok \<Longrightarrow> bhs = [blk..<blk + n]" by blast+
qed

text \<open>Outcomes of reading the super block.\<close>

lemma super_block_read_cases:
  assumes "gas_super_block_read K S = (r, S')"
  shows "case r of
      None \<Rightarrow> S' = S
    | Some sb \<Rightarrow> S' = S\<lparr>kmems := Mem_sbi # kmems S\<rparr> \<and> s_magic sb = MAGIC_NUMBER \<and>
        (\<exists>b. sb_bread K (bufs (fs_of S)) SUPER_BLOCK_NO = Some b \<and> sb = gas_super_block_fill zero_sb_info (load_super b 0))"
  using assms by (auto simp: gas_super_block_read_def Let_def kfree_def split: if_splits option.splits)

lemma iget_keeps_sbi: "gas_iget K s ino = (r, s') \<Longrightarrow> sbi s' = sbi s"
  by (auto simp: gas_iget_def Let_def split: iget_result.splits option.splits)

section \<open>Mounting\<close>

text \<open>\<open>sb_set_blocksize\<close> changes neither what \<open>s_fs_info\<close> points to nor the contents of the device.\<close>

locale block_device =
  fixes K :: "'k super_services_scheme"
  assumes set_blocksize: "sb_set_blocksize K f b = Some f' \<Longrightarrow> sbi f' = sbi f \<and> bufs f' = bufs f"

text \<open>The in-core super block of a mounted volume.\<close>

definition mounted_sb :: "gas_sb_info \<Rightarrow> gas_sb_info" where
  "mounted_sb sb = sb\<lparr>s_bam_bh := [1..<1 + unat (s_bam_blocks sb)],
     s_iam_bh := [1 + unat (s_bam_blocks sb)..<1 + unat (s_bam_blocks sb) + unat (s_iam_blocks sb)], s_bam_last := 0, s_iam_last := 0\<rparr>"

lemma mounted_sb_simps [simp]:
  "s_bam_blocks (mounted_sb sb) = s_bam_blocks sb" "s_iam_blocks (mounted_sb sb) = s_iam_blocks sb"
  "s_inode_blocks (mounted_sb sb) = s_inode_blocks sb" "s_magic (mounted_sb sb) = s_magic sb"
  "s_bam_bh (mounted_sb sb) = [1..<1 + unat (s_bam_blocks sb)]"
  "s_iam_bh (mounted_sb sb) = [1 + unat (s_bam_blocks sb)..<1 + unat (s_bam_blocks sb) + unat (s_iam_blocks sb)]"
  by (simp_all add: mounted_sb_def)

text \<open>Taking references on some blocks and releasing them.\<close>

definition held :: "nat list \<Rightarrow> super_block \<Rightarrow> super_block" where
  "held ns S = S\<lparr>bh_refs := (\<lambda>n. bh_refs S n + length (filter (\<lambda>k. k = n) ns))\<rparr>"

lemma held_simps [simp]:
  "fs_of (held ns S) = fs_of S" "kmems (held ns S) = kmems S" "v_root (held ns S) = v_root S" "v_fs_info (held ns S) = v_fs_info S"
  "held ms (held ns S) = held (ns @ ms) S" "bh_refs (brelse_all ns (held ns S)) = bh_refs S"
  by (simp_all add: held_def brelse_all_state add.assoc)

context block_device
begin

text \<open>The second half of \<^verbatim>\<open>gas_fill_super\<close>, after the checks of the super block.\<close>

lemma fill_super_maps:
  assumes rd: "gas_super_block_read K S = (Some sb, S1)" and bs: "sb_set_blocksize K ((fs_of S)\<lparr>sbi := sb\<rparr>) (s_blocksize sb) = Some f"
    and nz: "s_bam_blocks sb \<noteq> 0" "s_iam_blocks sb \<noteq> 0" "s_inode_blocks sb \<noteq> 0" and km: "kzalloc K f (8 * unat (s_bam_blocks sb + s_iam_blocks sb))"
    and M: "M = {1..<1 + unat (s_bam_blocks sb) + unat (s_iam_blocks sb)}"
    and T: "T = S1\<lparr>v_magic := s_magic sb, fs_of := f, v_fs_info := True, v_op := True, v_max_links := GAS_LINK_MAX,
      kmems := Mem_map # kmems S1\<rparr>"
    and maps: "maps = [1..<1 + unat (s_bam_blocks sb) + unat (s_iam_blocks sb)]"
  shows "if \<exists>k\<in>M. sb_bread K (bufs (fs_of S)) k = None
    then \<exists>S'. gas_fill_super K S = Some (Some EIO, S') \<and> bh_refs S' = bh_refs S \<and> kmems S' = kmems S1 \<and> v_root S' = v_root S
    else gas_fill_super K S =
      (case gas_iget K (f\<lparr>sbi := mounted_sb sb\<rparr>) GAS_ROOT_INO of
         (Inl e, g) \<Rightarrow> Some (Some e, (held maps T)\<lparr>fs_of := g\<rparr>)
       | (Inr root, g) \<Rightarrow>
           if d_make_root K g root then Some (None, (held maps T)\<lparr>fs_of := g, v_root := Some root\<rparr>)
           else Some (Some ENOMEM, (held maps T)\<lparr>fs_of := g, v_root := None\<rparr>))"
proof -
  let ?b = "unat (s_bam_blocks sb)" and ?i = "unat (s_iam_blocks sb)"
  have S1: "S1 = S\<lparr>kmems := Mem_sbi # kmems S\<rparr>" using super_block_read_cases [OF rd] by simp
  have f: "sbi f = sb" "bufs f = bufs (fs_of S)" using set_blocksize [OF bs] by simp_all
  have split: "M = {1..<1 + ?b} \<union> {1 + ?b..<1 + ?b + ?i}" unfolding M by auto
  obtain bam ok1 S2 where m1: "read_maps K 1 ?b T = (bam, ok1, S2)" by (cases "read_maps K 1 ?b T") auto
  have bT: "bufs (fs_of T) = bufs (fs_of S)" by (simp add: T f(2))
  note r1 = read_maps_state [OF m1, folded held_def]
  have s2: "S2 = held bam T" using r1(1) .
  define second where "second = (if ok1 then read_maps K (1 + ?b) ?i S2 else ([], False, S2))"
  obtain iam ok2 S3 where m2: "second = (iam, ok2, S3)" by (cases second) auto
  have s3: "S3 = held (bam @ iam) T \<and> (ok2 \<longleftrightarrow> (\<forall>k\<in>M. sb_bread K (bufs (fs_of S)) k \<noteq> None)) \<and> (ok2 \<longrightarrow> bam @ iam = maps \<and> bam = [1..<1 + ?b] \<and> iam = [1 + ?b..<1 + ?b + ?i])"
  proof (cases ok1)
    case True
    then have m: "read_maps K (1 + ?b) ?i S2 = (iam, ok2, S3)" using m2 by (simp add: second_def)
    note r2 = read_maps_state [OF m, folded held_def]
    have "bufs (fs_of S2) = bufs (fs_of S)" using bT by (simp add: s2)
    moreover have "[1..<1 + ?b] @ [1 + ?b..<1 + ?b + ?i] = maps" unfolding maps by (rule upt_add_eq_append [symmetric]) simp
    moreover have "bam = [1..<1 + ?b]" using r1(3) [OF True] .
    moreover have "\<forall>k\<in>{1..<1 + ?b}. sb_bread K (bufs (fs_of S)) k \<noteq> None" using r1(2) True bT by simp
    ultimately show ?thesis using r2 s2 unfolding split by auto
  next
    case False
    then have "iam = []" "\<not> ok2" "S3 = S2" using m2 by (simp_all add: second_def)
    moreover have "\<not> (\<forall>k\<in>{1..<1 + ?b}. sb_bread K (bufs (fs_of S)) k \<noteq> None)" using r1(2) False bT by simp
    ultimately show ?thesis using s2 unfolding split by auto
  qed
  have fill: "gas_fill_super K S = (if \<not> ok2 then Some (Some EIO, kfree Mem_map (brelse_all (bam @ iam) S3))
      else case gas_iget K (f\<lparr>sbi := sb\<lparr>s_bam_bh := bam, s_iam_bh := iam, s_bam_last := 0, s_iam_last := 0\<rparr>\<rparr>) GAS_ROOT_INO of
        (Inl e, g) \<Rightarrow> Some (Some e, S3\<lparr>fs_of := g\<rparr>)
      | (Inr root, g) \<Rightarrow> if d_make_root K g root then Some (None, S3\<lparr>fs_of := g, v_root := Some root\<rparr>)
          else Some (Some ENOMEM, S3\<lparr>fs_of := g, v_root := None\<rparr>))"
  proof -
    have fs: "fs_of S1 = fs_of S" by (simp add: S1)
    have T': "T = S1\<lparr>v_magic := s_magic sb, fs_of := (fs_of S1)\<lparr>sbi := sb\<rparr>, v_fs_info := True, v_op := True,
        v_max_links := GAS_LINK_MAX\<rparr>\<lparr>fs_of := f\<rparr>\<lparr>kmems := Mem_map # kmems S1\<rparr>" by (simp add: T)
    have "gas_fill_super K S = (let (bam, ok1, S) = read_maps K 1 ?b T;
        (iam, ok2, S) = (if ok1 then read_maps K (1 + ?b) ?i S else ([], False, S))
      in if \<not> ok2 then Some (Some EIO, kfree Mem_map (brelse_all (bam @ iam) S))
         else
           let sb = sb\<lparr>s_bam_bh := bam, s_iam_bh := iam, s_bam_last := 0, s_iam_last := 0\<rparr>;
               S = S\<lparr>fs_of := (fs_of S)\<lparr>sbi := sb\<rparr>\<rparr>
           in case gas_iget K (fs_of S) GAS_ROOT_INO of
                (Inl e, f) \<Rightarrow> Some (Some e, S\<lparr>fs_of := f\<rparr>)
              | (Inr root, f) \<Rightarrow>
                  let S = S\<lparr>fs_of := f\<rparr>
                  in if d_make_root K f root then Some (None, S\<lparr>v_root := Some root\<rparr>)
                     else Some (Some ENOMEM, S\<lparr>v_root := None\<rparr>))"
      unfolding T' gas_fill_super_def rd by (simp add: bs nz km fs cong del: if_weak_cong)
    also have "\<dots> = (if \<not> ok2 then Some (Some EIO, kfree Mem_map (brelse_all (bam @ iam) S3))
      else case gas_iget K (f\<lparr>sbi := sb\<lparr>s_bam_bh := bam, s_iam_bh := iam, s_bam_last := 0, s_iam_last := 0\<rparr>\<rparr>) GAS_ROOT_INO of
        (Inl e, g) \<Rightarrow> Some (Some e, S3\<lparr>fs_of := g\<rparr>)
      | (Inr root, g) \<Rightarrow> if d_make_root K g root then Some (None, S3\<lparr>fs_of := g, v_root := Some root\<rparr>)
          else Some (Some ENOMEM, S3\<lparr>fs_of := g, v_root := None\<rparr>))"
    proof -
      have "fs_of S3 = f" using s3 by (simp add: T)
      then show ?thesis by (simp add: m1 m2 second_def [symmetric] Let_def del: One_nat_def split: sum.split prod.split)
    qed
    finally show ?thesis .
  qed
  have okM: "ok2 \<longleftrightarrow> (\<forall>k\<in>M. sb_bread K (bufs (fs_of S)) k \<noteq> None)" by (rule conjunct1 [OF conjunct2 [OF s3]])
  show ?thesis
  proof (cases ok2)
    case False
    have h: "S3 = held (bam @ iam) T" using s3 by blast
    have b: "\<exists>k\<in>M. sb_bread K (bufs (fs_of S)) k = None" using okM False by simp
    define S' where "S' = kfree Mem_map (brelse_all (bam @ iam) S3)"
    have "gas_fill_super K S = Some (Some EIO, S')" using fill False by (simp only: S'_def if_P simp_thms)
    moreover have "bh_refs S' = bh_refs S"
    proof -
      have "bh_refs S' = bh_refs (brelse_all (bam @ iam) (held (bam @ iam) T))" by (simp only: S'_def h) (simp add: kfree_def)
      then show ?thesis unfolding held_simps by (simp add: T S1)
    qed
    moreover have "kmems S' = kmems S1" "v_root S' = v_root S" unfolding S'_def h kfree_def brelse_all_state held_def by (simp_all add: T S1)
    ultimately show ?thesis unfolding if_P [OF b] by blast
  next
    case True
    have h: "S3 = held maps T" "bam = [1..<1 + ?b]" "iam = [1 + ?b..<1 + ?b + ?i]" using s3 True by blast+
    have b: "\<not> (\<exists>k\<in>M. sb_bread K (bufs (fs_of S)) k = None)" using okM True by simp
    have m: "sb\<lparr>s_bam_bh := bam, s_iam_bh := iam, s_bam_last := 0, s_iam_last := 0\<rparr> = mounted_sb sb" by (simp only: mounted_sb_def h(2,3))
    show ?thesis unfolding if_not_P [OF b] using fill True by (simp only: m h(1) simp_thms if_False)
  qed
qed

end

context block_device
begin

lemma fill_super_success:
  assumes "gas_fill_super K S = Some (None, S')"
  shows "s_magic (sbi (fs_of S')) = MAGIC_NUMBER \<and> s_bam_blocks (sbi (fs_of S')) \<noteq> 0 \<and> s_iam_blocks (sbi (fs_of S')) \<noteq> 0 \<and>
    s_inode_blocks (sbi (fs_of S')) \<noteq> 0 \<and> sbi (fs_of S') = mounted_sb (sbi (fs_of S')) \<and> v_root S' = Some GAS_ROOT_INO \<and>
    (let T = gas_put_super S' in bh_refs T = bh_refs S \<and> kmems T = kmems S \<and> \<not> v_fs_info T)"
proof -
  obtain r S1 where rd0: "gas_super_block_read K S = (r, S1)" by fastforce
  obtain sb where r: "r = Some sb" using assms rd0 by (cases r) (simp_all add: gas_fill_super_def)
  note rd = rd0 [unfolded r]
  have S1: "S1 = S\<lparr>kmems := Mem_sbi # kmems S\<rparr>" and magic: "s_magic sb = MAGIC_NUMBER" using super_block_read_cases [OF rd] by simp_all
  have fs: "(fs_of S1)\<lparr>sbi := sb\<rparr> = (fs_of S)\<lparr>sbi := sb\<rparr>" by (simp add: S1)
  obtain f where bs: "sb_set_blocksize K ((fs_of S)\<lparr>sbi := sb\<rparr>) (s_blocksize sb) = Some f"
    using assms fs by (cases "sb_set_blocksize K ((fs_of S)\<lparr>sbi := sb\<rparr>) (s_blocksize sb)") (simp_all add: gas_fill_super_def rd Let_def)
  have nz: "s_bam_blocks sb \<noteq> 0" "s_iam_blocks sb \<noteq> 0" "s_inode_blocks sb \<noteq> 0"
    using assms fs bs by (auto simp: gas_fill_super_def rd Let_def split: if_splits)
  have km: "kzalloc K f (8 * unat (s_bam_blocks sb + s_iam_blocks sb))"
  proof (rule ccontr)
    assume "\<not> ?thesis"
    then have "gas_fill_super K S = None" using fs bs nz by (simp add: gas_fill_super_def rd Let_def)
    then show False using assms by simp
  qed
  define maps T where "maps = [1..<1 + unat (s_bam_blocks sb) + unat (s_iam_blocks sb)]" and
    "T = S1\<lparr>v_magic := s_magic sb, fs_of := f, v_fs_info := True, v_op := True, v_max_links := GAS_LINK_MAX, kmems := Mem_map # kmems S1\<rparr>"
  note m = fill_super_maps [OF rd bs nz km refl T_def maps_def]
  have "\<not> (\<exists>k\<in>{1..<1 + unat (s_bam_blocks sb) + unat (s_iam_blocks sb)}. sb_bread K (bufs (fs_of S)) k = None)" (is "\<not> ?bad")
  proof
    assume ?bad
    from m [unfolded if_P [OF this]] assms show False by auto
  qed
  note m = m [unfolded if_not_P [OF this]]
  obtain x g where ig: "gas_iget K (f\<lparr>sbi := mounted_sb sb\<rparr>) GAS_ROOT_INO = (x, g)" by fastforce
  then have g: "sbi g = mounted_sb sb" using iget_keeps_sbi [OF ig] by simp
  obtain root where x: "x = Inr root" using m assms ig by (cases x) auto
  have root: "root = GAS_ROOT_INO" using ig x by (auto simp: gas_iget_def Let_def split: iget_result.splits option.splits)
  have S': "S' = (held maps T)\<lparr>fs_of := g, v_root := Some root\<rparr>" using m assms ig x by (simp split: if_splits)
  have split: "maps = [1..<1 + unat (s_bam_blocks sb)] @ [1 + unat (s_bam_blocks sb)..<1 + unat (s_bam_blocks sb) + unat (s_iam_blocks sb)]"
    unfolding maps_def by (rule upt_add_eq_append) simp
  have "gas_put_super S' = kfree Mem_sbi (kfree Mem_map (brelse_all maps S'))\<lparr>v_fs_info := False\<rparr>"
    by (simp add: gas_put_super_def Let_def S' T_def g split brelse_all_state kfree_def held_def del: One_nat_def)
  moreover have "bh_refs (brelse_all maps S') = bh_refs S" by (simp add: S' brelse_all_state held_def T_def S1)
  moreover have "kmems (brelse_all maps S') = Mem_map # Mem_sbi # kmems S" by (simp add: S' brelse_all_state T_def S1)
  ultimately have "let P = gas_put_super S' in bh_refs P = bh_refs S \<and> kmems P = kmems S \<and> \<not> v_fs_info P"
    by (simp add: Let_def kfree_def)
  moreover have "sbi (fs_of S') = mounted_sb sb" "v_root S' = Some GAS_ROOT_INO" by (simp_all add: S' g root)
  moreover have "mounted_sb (mounted_sb sb) = mounted_sb sb" by (simp add: mounted_sb_def)
  ultimately show ?thesis using magic nz by simp
qed

end

section \<open>Reference services\<close>

definition ref_super_services :: super_services where
  "ref_super_services = dir_services.extend ref_dir_services
     (super_services.fields (\<lambda>_ _. True) (\<lambda>f b. if b = 4096 then Some (f\<lparr>sb_blocksize := 4096, sb_blocksize_bits := 12\<rparr>) else None) (\<lambda>_ _. True) (\<lambda>_. 0))"

lemma ref_super_services_simps [simp]:
  "sb_bread ref_super_services bf n = Some (bf n)" "kzalloc ref_super_services g m"
  "sb_set_blocksize ref_super_services f b = (if b = 4096 then Some (f\<lparr>sb_blocksize := 4096, sb_blocksize_bits := 12\<rparr>) else None)" "d_make_root ref_super_services g r"
  "iget_locked ref_super_services s n = Iget_new (ref_fresh_inode n)"
  by (simp_all add: ref_super_services_def ref_dir_services_def ref_dir_fields_def ref_page_services_def ref_page_fields_def
      ref_tree_services_def ref_alloc_services_def ref_inode_services_def bitops.extend_def inode_services.extend_def
      alloc_services.extend_def itree_services.extend_def page_services.extend_def dir_services.extend_def
      inode_services.fields_def alloc_services.fields_def itree_services.fields_def page_services.fields_def
      dir_services.fields_def super_services.fields_def)

interpretation ref_device: block_device ref_super_services
  by unfold_locales (auto split: if_splits)

text \<open>A device with one block of each bitmap and four of inodes, and the same device with an unreadable inode bitmap.\<close>

definition example_device :: super_block where
  "example_device = \<lparr>fs_of = empty_file_volume\<lparr>bufs := (bufs empty_file_volume)(0 := store_super (\<lambda>_. 0) 0
       \<lparr>d_magic = MAGIC_NUMBER, d_blocksize = 4096, d_bam_blocks = 1, d_iam_blocks = 1, d_inode_blocks = 4,
         d_nblocks = 1024, d_ninodes = 256\<rparr>)\<rparr>,
     v_magic = 0, v_fs_info = False, v_op = False, v_max_links = 0, v_root = None, bh_refs = (\<lambda>_. 0), kmems = []\<rparr>"

definition bad_map_services :: super_services where
  "bad_map_services = ref_super_services\<lparr>sb_bread := (\<lambda>bf n. if n = 2 then None else Some (bf n))\<rparr>"

lemma bad_map_simps [simp]:
  "sb_bread bad_map_services bf n = (if n = 2 then None else Some (bf n))" "kzalloc bad_map_services g m"
  "sb_set_blocksize bad_map_services f b = (if b = 4096 then Some (f\<lparr>sb_blocksize := 4096, sb_blocksize_bits := 12\<rparr>) else None)"
  by (simp_all add: bad_map_services_def)

interpretation bad_device: block_device bad_map_services
  by unfold_locales (auto split: if_splits)

definition example_mount_sb :: gas_sb_info where
  "example_mount_sb = gas_super_block_fill zero_sb_info (load_super (bufs (fs_of example_device) 0) 0)"

lemma example_mount_sb_simps [simp]:
  "s_magic example_mount_sb = MAGIC_NUMBER" "s_blocksize example_mount_sb = 4096" "s_bam_blocks example_mount_sb = 1"
  "s_iam_blocks example_mount_sb = 1" "s_inode_blocks example_mount_sb = 4"
  by (simp_all add: example_mount_sb_def example_device_def gas_super_block_fill_def Let_def super.load_store)

lemma example_device_read:
  assumes "K = ref_super_services \<or> K = bad_map_services"
  shows "gas_super_block_read K example_device = (Some example_mount_sb, example_device\<lparr>kmems := [Mem_sbi]\<rparr>)"
proof -
  have "kmems example_device = []" by (simp add: example_device_def)
  then show ?thesis
    using assms example_mount_sb_simps(1)
    by (auto simp: gas_super_block_read_def Let_def example_mount_sb_def [symmetric])
qed

section \<open>Properties\<close>

text \<open>
  C26. A mount that succeeds leaves an in-core super block that describes the volume: the magic number is right,
  the areas are not empty, the buffer heads are those of the blocks after the super block, block bitmap
  first, and the root is inode 1. \<^verbatim>\<open>gas_put_super\<close> then gives back exactly what the mount took: every reference
  to a buffer and every allocation.
\<close>

theorem mount_unmount_balance:
  assumes "block_device K" and "gas_fill_super K S = Some (None, S')"
  shows "s_magic (sbi (fs_of S')) = MAGIC_NUMBER \<and> s_bam_blocks (sbi (fs_of S')) \<noteq> 0 \<and> s_iam_blocks (sbi (fs_of S')) \<noteq> 0 \<and>
    s_inode_blocks (sbi (fs_of S')) \<noteq> 0 \<and> sbi (fs_of S') = mounted_sb (sbi (fs_of S')) \<and> v_root S' = Some GAS_ROOT_INO \<and>
    (let T = gas_put_super S' in bh_refs T = bh_refs S \<and> kmems T = kmems S \<and> \<not> v_fs_info T)"
  by (rule block_device.fill_super_success [OF assms])

theorem mount_unmount_balance_witness:
  "\<exists>S'. gas_fill_super ref_super_services example_device = Some (None, S') \<and>
     bh_refs (gas_put_super S') = (\<lambda>_. 0) \<and> kmems (gas_put_super S') = []"
proof -
  note rd = example_device_read [OF disjI1 [OF refl]]
  have bs: "sb_set_blocksize ref_super_services ((fs_of example_device)\<lparr>sbi := example_mount_sb\<rparr>) (s_blocksize example_mount_sb) =
    Some (((fs_of example_device)\<lparr>sbi := example_mount_sb\<rparr>)\<lparr>sb_blocksize := 4096, sb_blocksize_bits := 12\<rparr>)" by simp
  have nz: "s_bam_blocks example_mount_sb \<noteq> 0" "s_iam_blocks example_mount_sb \<noteq> 0" "s_inode_blocks example_mount_sb \<noteq> 0" by simp_all
  obtain S' where "gas_fill_super ref_super_services example_device = Some (None, S')"
    using ref_device.fill_super_maps [OF rd bs nz _ refl refl refl] by (auto simp: gas_iget_def Let_def)
  moreover from mount_unmount_balance [OF ref_device.block_device_axioms this]
  have "bh_refs (gas_put_super S') = (\<lambda>_. 0)" "kmems (gas_put_super S') = []"
    by (simp_all add: Let_def example_device_def)
  ultimately show ?thesis by blast
qed

text \<open>
  C34. When a block of one of the bitmaps cannot be read, the mount fails with \<open>EIO\<close> and gives back every reference it
  took and the array of buffer heads, and does not touch the root; but the in-core super block stays
  allocated. Without a root the VFS does not call \<open>put_super\<close>, so it is never freed.
\<close>

theorem gas_fill_super_bad_map:
  assumes "block_device K" and "gas_super_block_read K S = (Some sb, S1)"
    and "sb_set_blocksize K ((fs_of S)\<lparr>sbi := sb\<rparr>) (s_blocksize sb) \<noteq> None"
    and "s_bam_blocks sb \<noteq> 0" and "s_iam_blocks sb \<noteq> 0" and "s_inode_blocks sb \<noteq> 0" and "\<And>g n. kzalloc K g n"
    and "k \<in> {1..<1 + unat (s_bam_blocks sb) + unat (s_iam_blocks sb)}" and "sb_bread K (bufs (fs_of S)) k = None"
  shows "\<exists>S'. gas_fill_super K S = Some (Some EIO, S') \<and> bh_refs S' = bh_refs S \<and> kmems S' = Mem_sbi # kmems S \<and> v_root S' = v_root S"
proof -
  obtain f where f: "sb_set_blocksize K ((fs_of S)\<lparr>sbi := sb\<rparr>) (s_blocksize sb) = Some f" using assms(3) by auto
  have "kmems S1 = Mem_sbi # kmems S" using super_block_read_cases [OF assms(2)] by simp
  moreover have "\<exists>k\<in>{1..<1 + unat (s_bam_blocks sb) + unat (s_iam_blocks sb)}. sb_bread K (bufs (fs_of S)) k = None"
    using assms(8,9) by blast
  ultimately show ?thesis
    using block_device.fill_super_maps [OF assms(1,2) f assms(4-6,7) refl refl refl] by simp
qed

theorem gas_fill_super_bad_map_witness:
  "\<exists>S'. gas_fill_super bad_map_services example_device = Some (Some EIO, S') \<and> bh_refs S' = (\<lambda>_. 0) \<and> kmems S' = [Mem_sbi]"
proof -
  have "\<exists>S'. gas_fill_super bad_map_services example_device = Some (Some EIO, S') \<and> bh_refs S' = bh_refs example_device \<and>
      kmems S' = Mem_sbi # kmems example_device \<and> v_root S' = v_root example_device"
    by (rule gas_fill_super_bad_map [OF bad_device.block_device_axioms example_device_read [OF disjI2 [OF refl]], where k = 2]) simp_all
  moreover have "bh_refs example_device = (\<lambda>_. 0)" "kmems example_device = []" by (simp_all add: example_device_def)
  ultimately show ?thesis by auto
qed

end
