(* ===== verification/Mkfs_Spec.thy ===== *)
theory Mkfs_Spec
  imports Mkfs Gas_Super_Spec
begin

text \<open>
  The file system maker produces what the kernel module expects: the geometry, the two bitmaps, the
  write-back cache, and the whole image with its root directory, for devices of up to 2 GB (beyond, the
  offset of a block overflows an \<open>int\<close>).
\<close>

section \<open>Geometry\<close>

text \<open>The numbers of blocks of the areas of a device of \<open>N\<close> blocks.\<close>

definition bam_of :: "nat \<Rightarrow> nat" where "bam_of N = (N + 32767) div 32768"
definition inodes_of :: "nat \<Rightarrow> nat" where "inodes_of N = 64 * (N div 256)"
definition iam_of :: "nat \<Rightarrow> nat" where "iam_of N = (inodes_of N + 32767) div 32768"
definition data_of :: "nat \<Rightarrow> nat" where "data_of N = 1 + bam_of N + iam_of N + N div 256"

lemma unat_add_u64: "unat a + unat b < 2 ^ 64 \<Longrightarrow> unat (a + b :: u64) = unat a + unat b"
  by (simp add: unat_word_ariths)

lemma unat_ceil_u64: "unat a < 2 ^ 60 \<Longrightarrow> unat ((a + 32768 - 1) div 32768 :: u64) = (unat a + 32767) div 32768"
proof -
  assume a: "unat a < 2 ^ 60"
  have e: "a + 32768 - 1 = a + 32767" by (simp add: algebra_simps)
  have "unat (a + 32767) = unat a + 32767" using a by (subst unat_add_u64) simp_all
  then show ?thesis by (simp only: e unat_div) simp
qed

lemma ceil_bounds:
  assumes "0 < (n :: nat)"
  shows "n \<le> 32768 * ((n + 32767) div 32768)" "32768 * ((n + 32767) div 32768 - 1) < n"
proof -
  define q t where "q = (n + 32767) div 32768" and "t = (n + 32767) mod 32768"
  have "n + 32767 = 32768 * q + t" "t < 32768" by (simp_all add: q_def t_def)
  then have "n \<le> 32768 * q" "32768 * q < n + 32768" "0 < q" using assms by linarith+
  then show "n \<le> 32768 * ((n + 32767) div 32768)" "32768 * ((n + 32767) div 32768 - 1) < n"
    unfolding q_def [symmetric] by (simp_all add: diff_mult_distrib2)
qed

lemma geometry_values:
  assumes N: "sz div GAS_BLOCK_SIZE = N" "N < 2 ^ 19"
  shows "unat (blk_cnt (geometry sz)) = N" "unat (bam_blk (geometry sz)) = bam_of N" "unat (ino_blk (geometry sz)) = N div 256"
    "unat (ino_cnt (geometry sz)) = inodes_of N" "unat (iam_blk (geometry sz)) = iam_of N" "unat (data_st (geometry sz)) = data_of N"
proof -
  define b :: u64 where "b = word_of_nat N"
  have b: "unat b = N" using N(2) by (simp add: b_def unat_of_nat)
  have bam: "unat ((b + 32768 - 1) div 32768) = bam_of N"
    using N(2) b unat_ceil_u64 [of b] by (simp add: bam_of_def)
  have ino: "unat (b div 4 div 64) = N div 256" 
  proof -
    have "N div 4 div 64 = N div 256" by (simp add: div_mult2_eq [symmetric])
    moreover have "unat (b div 4 div 64) = unat (b div 4) div unat (64 :: u64)" by (rule unat_div)
    moreover have "unat (b div 4) = unat b div unat (4 :: u64)" by (rule unat_div)
    ultimately show ?thesis using b by (simp only:) simp
  qed
  have inoc: "unat (b div 4 div 64 * 64) = inodes_of N"
  proof -
    have "N div 256 * 64 < 2 ^ 64" using N(2) by simp
    then show ?thesis unfolding unat_word_ariths(2) ino by (simp add: inodes_of_def mult.commute)
  qed
  have "inodes_of N \<le> N" by (simp add: inodes_of_def)
  then have iam: "unat ((b div 4 div 64 * 64 + 32768 - 1) div 32768) = iam_of N"
    using N(2) inoc \<open>inodes_of N \<le> N\<close> unat_ceil_u64 [of "b div 4 div 64 * 64"] by (simp add: iam_of_def)
  have le: "bam_of N \<le> 2 ^ 19" "iam_of N \<le> 2 ^ 19" "N div 256 \<le> 2 ^ 19"
    using N(2) \<open>inodes_of N \<le> N\<close> by (simp_all add: bam_of_def iam_of_def)
  have data: "unat (1 + (b + 32768 - 1) div 32768 + (b div 4 div 64 * 64 + 32768 - 1) div 32768 + b div 4 div 64) = data_of N"
  proof -
    have a: "unat (1 + (b + 32768 - 1) div 32768) = 1 + bam_of N" using le(1) by (subst unat_add_u64) (simp_all only: bam unat_1, simp)
    have c: "unat (1 + (b + 32768 - 1) div 32768 + (b div 4 div 64 * 64 + 32768 - 1) div 32768) = 1 + bam_of N + iam_of N"
      using le(1,2) by (subst unat_add_u64) (simp_all only: a iam, simp)
    show ?thesis using le by (subst unat_add_u64) (simp_all only: c ino data_of_def, simp)
  qed
  show "unat (blk_cnt (geometry sz)) = N" "unat (bam_blk (geometry sz)) = bam_of N" "unat (ino_blk (geometry sz)) = N div 256"
    "unat (ino_cnt (geometry sz)) = inodes_of N" "unat (iam_blk (geometry sz)) = iam_of N" "unat (data_st (geometry sz)) = data_of N"
    using b bam ino inoc iam data by (simp_all add: geometry_def Let_def N b_def [symmetric])
qed

lemma geometry_bounds:
  assumes "256 \<le> N" and "N < 2 ^ 19"
  shows "0 < bam_of N" "bam_of N \<le> 16" "0 < iam_of N" "iam_of N \<le> 4" "64 \<le> inodes_of N" "data_of N + 5 \<le> N" "data_of N \<le> 2069"
    "N \<le> 32768 * bam_of N" "32768 * (bam_of N - 1) < N" "inodes_of N \<le> 32768 * iam_of N" "32768 * (iam_of N - 1) < inodes_of N"
proof -
  have i: "64 \<le> inodes_of N" "inodes_of N \<le> 131072" using assms by (simp_all add: inodes_of_def)
  then show "64 \<le> inodes_of N" by simp
  show "0 < bam_of N" "bam_of N \<le> 16" using assms by (simp_all add: bam_of_def)
  show "0 < iam_of N" "iam_of N \<le> 4" using i by (simp_all add: iam_of_def)
  show "N \<le> 32768 * bam_of N" "32768 * (bam_of N - 1) < N" using ceil_bounds [of N] assms(1) by (simp_all add: bam_of_def)
  show "inodes_of N \<le> 32768 * iam_of N" "32768 * (iam_of N - 1) < inodes_of N" using ceil_bounds [of "inodes_of N"] i(1) by (simp_all add: iam_of_def)
  have "inodes_of N \<le> N" by (simp add: inodes_of_def)
  then have "iam_of N \<le> bam_of N" by (simp add: iam_of_def bam_of_def div_le_mono)
  moreover have "32768 * bam_of N \<le> N + 32767" by (simp add: bam_of_def)
  moreover have "256 * (N div 256) \<le> N" by simp
  ultimately show "data_of N + 5 \<le> N" using assms(1) unfolding data_of_def by linarith
  have "N div 256 \<le> 2047" using assms(2) by simp
  then show "data_of N \<le> 2069" using \<open>bam_of N \<le> 16\<close> \<open>iam_of N \<le> 4\<close> by (simp add: data_of_def)
qed

section \<open>The bitmaps\<close>

lemma write_block_ok: "blk < 2 ^ 19 \<Longrightarrow> write_block blk b s = Some (s\<lparr>disk := (disk s)(blk := b)\<rparr>)"
  by (simp add: write_block_def seek_ok_def)

lemma alloc_map_block_spec:
  assumes "alloc_map_block prealloc lst blks cnt buffer = (b, p)" and "unat blks * 32768 < 2 ^ 64" and "unat cnt \<le> unat blks * 32768"
    and "unat blks * 32768 \<le> unat cnt + 32768"
  shows "p = prealloc - 32768"
    "k < 32768 \<Longrightarrow> blk_bit b k \<longleftrightarrow> k < prealloc \<or> lst \<and> 32768 - (unat blks * 32768 - unat cnt) \<le> k"
proof -
  have m: "unat (blks * 32768) = unat blks * 32768" using assms(2) by (simp add: unat_word_ariths)
  then have d: "unat (blks * 32768 - cnt) = unat blks * 32768 - unat cnt" using assms(3) by (simp add: unat_sub_if')
  have z: "cnt = blks * 32768 \<longleftrightarrow> unat cnt = unat blks * 32768" using m by (metis word_unat_eq_iff)
  define u where "u = unat blks * 32768 - unat cnt"
  have u: "u \<le> 32768" "cnt = blks * 32768 \<longleftrightarrow> u = 0" using assms(3,4) z by (auto simp: u_def)
  note def = assms(1) [unfolded alloc_map_block_def Let_def d, folded u_def]
  show "p = prealloc - 32768" using def by (auto split: if_splits)
  show "k < 32768 \<Longrightarrow> blk_bit b k \<longleftrightarrow> k < prealloc \<or> lst \<and> 32768 - (unat blks * 32768 - unat cnt) \<le> k"
    unfolding u_def [symmetric] using def u by (auto split: if_splits simp: bits_simps)
qed

lemma init_alloc_map_spec:
  assumes "blk + n \<le> 2 ^ 19" and "unat blks = d + n" and "unat blks * 32768 < 2 ^ 64" and "unat cnt \<le> unat blks * 32768"
    and "32768 * (unat blks - 1) < unat cnt"
  shows "\<exists>D. init_alloc_map blks cnt n blk prealloc buffer s = Some (s\<lparr>disk := D\<rparr>) \<and>
    (\<forall>k. k < blk \<or> blk + n \<le> k \<longrightarrow> D k = disk s k) \<and>
    (\<forall>j<n. \<forall>b<32768. blk_bit (D (blk + j)) b \<longleftrightarrow> 32768 * j + b < prealloc \<or> unat cnt \<le> 32768 * (d + j) + b)"
  using assms(1,2)
proof (induction n arbitrary: blk d prealloc buffer s)
  case 0
  show ?case by (intro exI [of _ "disk s"]) simp
next
  case (Suc n)
  obtain b p where b: "alloc_map_block prealloc (n = 0) blks cnt buffer = (b, p)" by fastforce
  have gap: "unat blks * 32768 \<le> unat cnt + 32768" using assms(5) by (cases "unat blks") simp_all
  note a = alloc_map_block_spec [OF b assms(3,4) gap]
  have w: "write_block blk b s = Some (s\<lparr>disk := (disk s)(blk := b)\<rparr>)" using Suc.prems(1) by (intro write_block_ok) simp
  obtain D where D: "init_alloc_map blks cnt n (blk + 1) p b (s\<lparr>disk := (disk s)(blk := b)\<rparr>) = Some (s\<lparr>disk := D\<rparr>)"
    "\<forall>k. k < blk + 1 \<or> blk + 1 + n \<le> k \<longrightarrow> D k = ((disk s)(blk := b)) k"
    "\<forall>j<n. \<forall>c<32768. blk_bit (D (blk + 1 + j)) c \<longleftrightarrow> 32768 * j + c < p \<or> unat cnt \<le> 32768 * (Suc d + j) + c"
    using Suc.IH [of "blk + 1" "Suc d" p b "s\<lparr>disk := (disk s)(blk := b)\<rparr>"] Suc.prems by auto
  have first: "blk_bit b c \<longleftrightarrow> c < prealloc \<or> unat cnt \<le> 32768 * d + c" if "c < 32768" for c
  proof (cases "n = 0")
    case True
    then have "unat blks * 32768 = 32768 * d + 32768" using Suc.prems(2) by simp
    then show ?thesis using a(2) [OF that] True assms(4) that gap by auto
  next
    case False
    then have "32768 * d + 32768 \<le> 32768 * (unat blks - 1)" using Suc.prems(2) by simp
    then have "32768 * d + c < unat cnt" using assms(5) that by linarith
    then show ?thesis using a(2) [OF that] False by simp
  qed
  have "blk_bit (D (blk + j)) c \<longleftrightarrow> 32768 * j + c < prealloc \<or> unat cnt \<le> 32768 * (d + j) + c"
    if "j < Suc n" "c < 32768" for j c
  proof (cases j)
    case 0
    then show ?thesis using D(2) first [OF that(2)] by simp
  next
    case (Suc i)
    then have "blk_bit (D (blk + j)) c \<longleftrightarrow> 32768 * i + c < p \<or> unat cnt \<le> 32768 * (d + j) + c"
      using D(3) [rule_format, of i c] that by simp
    moreover have "32768 * i + c < p \<longleftrightarrow> 32768 * j + c < prealloc" using a(1) Suc by auto
    ultimately show ?thesis by simp
  qed
  moreover have "D k = disk s k" if "k < blk \<or> blk + Suc n \<le> k" for k using D(2) that by auto
  moreover have "init_alloc_map blks cnt (Suc n) blk prealloc buffer s = Some (s\<lparr>disk := D\<rparr>)"
    using b w D(1) by simp
  ultimately show ?case by blast
qed

lemma write_blocks_spec:
  "blk + n \<le> 2 ^ 19 \<Longrightarrow> write_blocks n blk b s = Some (s\<lparr>disk := (\<lambda>k. if blk \<le> k \<and> k < blk + n then b else disk s k)\<rparr>)"
proof (induction n arbitrary: blk s)
  case (Suc n)
  define t where "t = s\<lparr>disk := (disk s)(blk := b)\<rparr>"
  have "write_block blk b s = Some t" using Suc.prems write_block_ok [of blk b s] by (simp add: t_def)
  moreover have "blk + 1 + n \<le> 2 ^ 19" using Suc.prems by simp
  ultimately have "write_blocks (Suc n) blk b s = Some (t\<lparr>disk := (\<lambda>k. if blk + 1 \<le> k \<and> k < blk + 1 + n then b else disk t k)\<rparr>)"
    using Suc.IH [of "blk + 1" t] by simp
  moreover have "(\<lambda>k. if blk + 1 \<le> k \<and> k < blk + 1 + n then b else disk t k) =
    (\<lambda>k. if blk \<le> k \<and> k < blk + Suc n then b else disk s k)" by (auto simp: t_def)
  ultimately show ?case by (simp add: t_def)
next
  case 0
  have "(\<lambda>k. if blk \<le> k \<and> k < blk then b else disk s k) = disk s" by (rule ext) auto
  then show ?case by simp
qed

section \<open>The metadata areas\<close>

text \<open>
  What the first four steps leave on a device of \<open>N\<close> blocks that held \<open>dev\<close>: the super block, the block bitmap with
  the metadata and the blocks beyond the end marked, the inode bitmap likewise, an empty inode list, and
  the data area as it was.
\<close>

definition metadata :: "nat \<Rightarrow> (nat \<Rightarrow> block) \<Rightarrow> (nat \<Rightarrow> block) \<Rightarrow> bool" where
  "metadata N dev D \<longleftrightarrow>
     D 0 = store_super zero_block 0 \<lparr>d_magic = MAGIC_NUMBER, d_blocksize = 4096, d_bam_blocks = word_of_nat (bam_of N),
       d_iam_blocks = word_of_nat (iam_of N), d_inode_blocks = word_of_nat (N div 256), d_nblocks = word_of_nat N,
       d_ninodes = word_of_nat (inodes_of N)\<rparr> \<and>
     (\<forall>j<bam_of N. \<forall>b<32768. blk_bit (D (1 + j)) b \<longleftrightarrow> 32768 * j + b < data_of N \<or> N \<le> 32768 * j + b) \<and>
     (\<forall>j<iam_of N. \<forall>b<32768. blk_bit (D (1 + bam_of N + j)) b \<longleftrightarrow> 32768 * j + b < 1 \<or> inodes_of N \<le> 32768 * j + b) \<and>
     (\<forall>k. 1 + bam_of N + iam_of N \<le> k \<longrightarrow> k < data_of N \<longrightarrow> D k = zero_block) \<and>
     (\<forall>k. data_of N \<le> k \<longrightarrow> D k = dev k)"

lemma ucast_word_of_nat: "unat (x :: u64) = n \<Longrightarrow> (ucast x :: u32) = word_of_nat n"
  by (metis ucast_eq of_nat_unat uint_nat)

lemma area_starts:
  assumes "sz div GAS_BLOCK_SIZE = N" and "N < 2 ^ 19"
  shows "unat (IAM_BLOCK_START (geometry sz)) = 1 + bam_of N"
    "unat (INODE_LIST_START (geometry sz)) = 1 + bam_of N + iam_of N"
proof -
  note g = geometry_values [OF assms]
  have "data_of N \<le> 2 ^ 60"
  proof -
    have "inodes_of N \<le> N" by (simp add: inodes_of_def)
    then have "bam_of N \<le> 2 ^ 19" "iam_of N \<le> 2 ^ 19" "N div 256 \<le> 2 ^ 19" using assms(2) by (simp_all add: bam_of_def iam_of_def)
    then show ?thesis by (simp add: data_of_def)
  qed
  then have le: "1 + bam_of N + iam_of N < 2 ^ 64" by (simp add: data_of_def)
  show i: "unat (IAM_BLOCK_START (geometry sz)) = 1 + bam_of N"
    unfolding IAM_BLOCK_START_def using le by (subst unat_add_u64) (simp_all add: g)
  show "unat (INODE_LIST_START (geometry sz)) = 1 + bam_of N + iam_of N"
    unfolding INODE_LIST_START_def using le by (subst unat_add_u64) (simp_all add: i g)
qed

lemma metadata_written:
  assumes sz: "sz div GAS_BLOCK_SIZE = N" and N: "256 \<le> N" "N < 2 ^ 19"
    and s: "s = \<lparr>gas = geometry sz, disk = dev, bc_head = []\<rparr>"
  shows "\<exists>s1 s2 s3 D. init_super_block s = Some s1 \<and> init_block_alloc_map buffer s1 = Some s2 \<and>
    init_inode_alloc_map buffer s2 = Some s3 \<and> init_inode_list s3 = Some (s\<lparr>disk := D\<rparr>) \<and> metadata N dev D"
proof -
  note g = geometry_values [OF sz N(2)] and b = geometry_bounds [OF N] and a = area_starts [OF sz N(2)]
  define sb where "sb = store_super zero_block 0 \<lparr>d_magic = MAGIC_NUMBER, d_blocksize = 4096, d_bam_blocks = word_of_nat (bam_of N),
       d_iam_blocks = word_of_nat (iam_of N), d_inode_blocks = word_of_nat (N div 256), d_nblocks = word_of_nat N,
       d_ninodes = word_of_nat (inodes_of N)\<rparr>"
  have s1: "init_super_block s = Some (s\<lparr>disk := dev(0 := sb)\<rparr>)"
    unfolding init_super_block_def Let_def using write_block_ok [of SUPER_BLOCK_NO]
    by (simp add: s sb_def ucast_word_of_nat g)
  obtain D2 where s2: "init_block_alloc_map buffer (s\<lparr>disk := dev(0 := sb)\<rparr>) = Some (s\<lparr>disk := D2\<rparr>)"
    "\<forall>k. k < 1 \<or> 1 + bam_of N \<le> k \<longrightarrow> D2 k = (dev(0 := sb)) k"
    "\<forall>j<bam_of N. \<forall>c<32768. blk_bit (D2 (1 + j)) c \<longleftrightarrow> 32768 * j + c < data_of N \<or> N \<le> 32768 * j + c"
    using init_alloc_map_spec [of 1 "bam_of N" "bam_blk (geometry sz)" 0 "blk_cnt (geometry sz)" "data_of N" buffer "s\<lparr>disk := dev(0 := sb)\<rparr>"] b g
    by (auto simp: init_block_alloc_map_def Let_def s)
  obtain D3 where s3: "init_inode_alloc_map buffer (s\<lparr>disk := D2\<rparr>) = Some (s\<lparr>disk := D3\<rparr>)"
    "\<forall>k. k < 1 + bam_of N \<or> 1 + bam_of N + iam_of N \<le> k \<longrightarrow> D3 k = D2 k"
    "\<forall>j<iam_of N. \<forall>c<32768. blk_bit (D3 (1 + bam_of N + j)) c \<longleftrightarrow> 32768 * j + c < 1 \<or> inodes_of N \<le> 32768 * j + c"
    using init_alloc_map_spec [of "1 + bam_of N" "iam_of N" "iam_blk (geometry sz)" 0 "ino_cnt (geometry sz)" 1 buffer "s\<lparr>disk := D2\<rparr>"] b g a
    by (auto simp: init_inode_alloc_map_def Let_def s)
  define D4 where "D4 = (\<lambda>k. if 1 + bam_of N + iam_of N \<le> k \<and> k < 1 + bam_of N + iam_of N + N div 256 then zero_block else D3 k)"
  have s4: "init_inode_list (s\<lparr>disk := D3\<rparr>) = Some (s\<lparr>disk := D4\<rparr>)"
  proof -
    have "disk (s\<lparr>disk := D3\<rparr>) = D3" by simp
    note w = write_blocks_spec [of "1 + bam_of N + iam_of N" "N div 256" zero_block "s\<lparr>disk := D3\<rparr>", unfolded this, folded D4_def]
    show ?thesis using w b(7) g a by (simp add: init_inode_list_def Let_def s data_of_def)
  qed
  have "metadata N dev D4"
  proof -
    have low: "D4 k = D3 k" if "k < 1 + bam_of N + iam_of N" for k using that by (simp add: D4_def)
    have "D4 0 = sb" using low s3(2) s2(2) by simp
    moreover have "\<forall>j<bam_of N. \<forall>c<32768. blk_bit (D4 (1 + j)) c \<longleftrightarrow> 32768 * j + c < data_of N \<or> N \<le> 32768 * j + c"
      using low s3(2) s2(3) by simp
    moreover have "\<forall>j<iam_of N. \<forall>c<32768. blk_bit (D4 (1 + bam_of N + j)) c \<longleftrightarrow> 32768 * j + c < 1 \<or> inodes_of N \<le> 32768 * j + c"
      using low s3(3) by simp
    moreover have "D4 k = zero_block" if "1 + bam_of N + iam_of N \<le> k" "k < data_of N" for k
      using that by (simp add: D4_def data_of_def)
    moreover have "D4 k = dev k" if "data_of N \<le> k" for k
      using that s3(2) s2(2) by (simp add: D4_def data_of_def)
    ultimately show ?thesis unfolding metadata_def sb_def by blast
  qed
  then show ?thesis using s1 s2(1) s3(1) s4 by blast
qed

section \<open>The block cache\<close>

text \<open>
  The contents of a block as the program sees it, and the invariant of the cache: one entry for a block, on
  a block whose offset fits, and an entry that is not dirty holds the contents of its block. The blocks of \<open>P\<close>
  are exempt: a store through the pointer comes before the call of \<^verbatim>\<open>bc_write\<close>.
\<close>

definition view :: "mkfs \<Rightarrow> nat \<Rightarrow> block" where
  "view s blk = (case bc_find blk s of Some it \<Rightarrow> bc_block it | None \<Rightarrow> disk s blk)"

definition cached :: "mkfs \<Rightarrow> nat \<Rightarrow> bool" where
  "cached s blk \<longleftrightarrow> bc_find blk s \<noteq> None"

definition marked :: "mkfs \<Rightarrow> nat \<Rightarrow> bool" where
  "marked s blk \<longleftrightarrow> (\<exists>c. bc_find blk s = Some c \<and> bc_dirty c)"

definition bc_ok :: "nat set \<Rightarrow> mkfs \<Rightarrow> bool" where
  "bc_ok P s \<longleftrightarrow> distinct (map bc_id (bc_head s)) \<and>
     (\<forall>c\<in>set (bc_head s). bc_id c < 2 ^ 19 \<and> (\<not> bc_dirty c \<longrightarrow> bc_id c \<in> P \<or> bc_block c = disk s (bc_id c)))"

lemma find_distinct:
  "distinct (map bc_id cs) \<Longrightarrow> find (\<lambda>c. bc_id c = blk) cs = Some c \<longleftrightarrow> c \<in> set cs \<and> bc_id c = blk"
  by (induction cs) (auto simp: image_iff)

lemma find_bc_map:
  assumes "\<And>c. bc_id (f c) = bc_id c"
  shows "find (\<lambda>c. bc_id c = k) (bc_map blk f cs) =
    (if k = blk then map_option f (find (\<lambda>c. bc_id c = k) cs) else find (\<lambda>c. bc_id c = k) cs)"
  using assms by (induction cs) auto

lemma bc_map_ids: "(\<And>c. bc_id (f c) = bc_id c) \<Longrightarrow> map bc_id (bc_map blk f cs) = map bc_id cs"
  by (induction cs) auto

lemma set_bc_map:
  assumes "c \<in> set (bc_map blk f cs)" and "distinct (map bc_id cs)"
  shows "c \<in> set cs \<and> bc_id c \<noteq> blk \<or> (\<exists>d\<in>set cs. bc_id d = blk \<and> c = f d) \<or> False"
  using assms by (induction cs) (auto simp: image_iff split: if_splits)

text \<open>Reading a block caches it and changes nothing the program sees.\<close>

lemma bc_read_spec:
  assumes "bc_ok P s" and "blk < 2 ^ 19"
  obtains s' where "bc_read blk s = Some s'" "bc_ok P s'" "view s' = view s" "cached s' blk" "gas s' = gas s" "disk s' = disk s"
    "\<And>k. cached s k \<Longrightarrow> cached s' k" "\<And>k. marked s k \<Longrightarrow> marked s' k"
proof (cases "bc_find blk s")
  case (Some it)
  then have "bc_read blk s = Some s" "cached s blk" by (simp_all add: bc_read_def cached_def)
  then show thesis using that [of s] assms(1) by blast
next
  case None
  define s' where "s' = bc_insert \<lparr>bc_dirty = False, bc_id = blk, bc_block = disk s blk\<rparr> s"
  have r: "bc_read blk s = Some s'" using None assms(2) by (simp add: bc_read_def read_block_def seek_ok_def s'_def)
  have new: "blk \<notin> bc_id ` set (bc_head s)" using None by (auto simp: bc_find_def find_None_iff)
  then have ok: "bc_ok P s'" using assms by (auto simp: bc_ok_def s'_def bc_insert_def)
  have f: "bc_find k s' = (if k = blk then Some \<lparr>bc_dirty = False, bc_id = blk, bc_block = disk s blk\<rparr> else bc_find k s)" for k
    by (simp add: bc_find_def s'_def bc_insert_def)
  have dk: "disk s' = disk s" "gas s' = gas s" by (simp_all add: s'_def bc_insert_def)
  have "view s' k = view s k" for k using None by (cases "k = blk") (simp_all add: view_def f dk split: option.split)
  then have v: "view s' = view s" by blast
  have c: "cached s' blk" "cached s k \<Longrightarrow> cached s' k" "marked s k \<Longrightarrow> marked s' k" for k
    using None by (auto simp: cached_def marked_def f)
  show thesis using that [OF r ok v] c dk by blast
qed

lemma bc_data_view: "cached s blk \<Longrightarrow> bc_data blk s = view s blk"
  by (auto simp: bc_data_def view_def cached_def)

text \<open>A store through a cached pointer changes what the program sees of that block.\<close>

lemma bc_store_spec:
  assumes "bc_ok P s" and "cached s blk"
  shows "view (bc_store blk b s) = (view s)(blk := b)" "bc_ok (insert blk P) (bc_store blk b s)"
    "marked s blk \<Longrightarrow> bc_ok P (bc_store blk b s)"
    "cached (bc_store blk b s) k = cached s k" "marked (bc_store blk b s) k = marked s k" "gas (bc_store blk b s) = gas s"
proof -
  let ?f = "\<lambda>c. c\<lparr>bc_block := b\<rparr>"
  have d: "distinct (map bc_id (bc_head s))" using assms(1) by (simp add: bc_ok_def)
  have f: "bc_find k (bc_store blk b s) = (if k = blk then map_option ?f (bc_find k s) else bc_find k s)" for k
    by (simp add: bc_find_def bc_store_def find_bc_map)
  have dk: "disk (bc_store blk b s) = disk s" by (simp add: bc_store_def)
  show "view (bc_store blk b s) = (view s)(blk := b)"
    using assms(2) by (auto simp: view_def f cached_def dk fun_eq_iff split: option.splits)
  show "cached (bc_store blk b s) k = cached s k" by (simp add: cached_def f)
  show "marked (bc_store blk b s) k = marked s k" by (auto simp: marked_def f)
  show "gas (bc_store blk b s) = gas s" by (simp add: bc_store_def)
  have ids: "distinct (map bc_id (bc_head (bc_store blk b s)))" using d by (simp add: bc_store_def bc_map_ids)
  have mem: "c \<in> set (bc_head s) \<and> bc_id c \<noteq> blk \<or> (\<exists>e\<in>set (bc_head s). bc_id e = blk \<and> c = ?f e)"
    if "c \<in> set (bc_head (bc_store blk b s))" for c
    using set_bc_map [OF _ d] that by (simp add: bc_store_def)
  show "bc_ok (insert blk P) (bc_store blk b s)"
    unfolding bc_ok_def using ids assms(1) by (auto simp: bc_ok_def dest!: mem) (auto simp: bc_store_def)
  assume m: "marked s blk"
  have "bc_dirty e" if "e \<in> set (bc_head s)" "bc_id e = blk" for e
  proof -
    have "bc_find blk s = Some e" using find_distinct [OF d, of blk e] that by (simp add: bc_find_def)
    then show ?thesis using m by (simp add: marked_def)
  qed
  then show "bc_ok P (bc_store blk b s)"
    unfolding bc_ok_def using ids assms(1) by (auto simp: bc_ok_def dest!: mem) (auto simp: bc_store_def)
qed

text \<open>\<^verbatim>\<open>bc_write\<close> marks the block to be written.\<close>

lemma bc_write_spec:
  assumes "bc_ok (insert blk P) s" and "cached s blk"
  obtains s' where "bc_write blk False s = Some s'" "bc_ok P s'" "view s' = view s" "gas s' = gas s" "marked s' blk"
    "\<And>k. cached s k \<Longrightarrow> cached s' k" "\<And>k. marked s k \<Longrightarrow> marked s' k"
proof -
  let ?f = "\<lambda>c. c\<lparr>bc_dirty := True\<rparr>"
  define s' where "s' = s\<lparr>bc_head := bc_map blk ?f (bc_head s)\<rparr>"
  have d: "distinct (map bc_id (bc_head s))" using assms(1) by (simp add: bc_ok_def)
  obtain p where p: "bc_find blk s = Some p" using assms(2) by (auto simp: cached_def)
  then have r: "bc_write blk False s = Some s'" by (simp add: bc_write_def s'_def)
  have f: "bc_find k s' = (if k = blk then map_option ?f (bc_find k s) else bc_find k s)" for k
    by (simp add: bc_find_def s'_def find_bc_map)
  have dk: "disk s' = disk s" by (simp add: s'_def)
  have v: "view s' = view s" by (rule ext) (auto simp: view_def f dk split: option.splits)
  have m: "marked s' blk" "cached s k \<Longrightarrow> cached s' k" "marked s k \<Longrightarrow> marked s' k" for k
    using p by (auto simp: marked_def cached_def f)
  have ids: "distinct (map bc_id (bc_head s'))" using d by (simp add: s'_def bc_map_ids)
  have "c \<in> set (bc_head s) \<and> bc_id c \<noteq> blk \<or> (\<exists>e\<in>set (bc_head s). bc_id e = blk \<and> c = ?f e)"
    if "c \<in> set (bc_head s')" for c
    using set_bc_map [OF _ d] that by (simp add: s'_def)
  then have "bc_id c < 2 ^ 19 \<and> (\<not> bc_dirty c \<longrightarrow> bc_id c \<in> P \<or> bc_block c = disk s' (bc_id c))" if "c \<in> set (bc_head s')" for c
    using that assms(1) by (fastforce simp: bc_ok_def s'_def)
  then have "bc_ok P s'" using ids by (simp add: bc_ok_def)
  then show thesis using that [OF r _ v] m by (auto simp: s'_def)
qed

text \<open>\<^verbatim>\<open>bc_sync\<close> writes everything the program has seen back to the device and empties the cache.\<close>

lemma bc_sync_list_spec:
  assumes "distinct (map bc_id cs)" and "\<forall>c\<in>set cs. bc_id c < 2 ^ 19"
  shows "bc_sync_list cs s = Some (s\<lparr>disk := (\<lambda>k. case find (\<lambda>c. bc_id c = k) cs of
    Some c \<Rightarrow> if bc_dirty c then bc_block c else disk s k | None \<Rightarrow> disk s k)\<rparr>)"
  using assms
proof (induction cs arbitrary: s)
  case (Cons c cs)
  define t where "t = (if bc_dirty c then s\<lparr>disk := (disk s)(bc_id c := bc_block c)\<rparr> else s)"
  have t: "(if bc_dirty c then write_block (bc_id c) (bc_block c) s else Some s) = Some t"
    using Cons.prems by (simp add: t_def write_block_ok)
  have nf: "find (\<lambda>d. bc_id d = bc_id c) cs = None" using Cons.prems(1) by (auto simp: find_None_iff image_iff)
  have "(\<lambda>k. case find (\<lambda>c. bc_id c = k) cs of Some c \<Rightarrow> if bc_dirty c then bc_block c else disk t k | None \<Rightarrow> disk t k) =
    (\<lambda>k. case find (\<lambda>c. bc_id c = k) (c # cs) of Some c \<Rightarrow> if bc_dirty c then bc_block c else disk s k | None \<Rightarrow> disk s k)"
    using nf by (auto simp: fun_eq_iff t_def split: option.splits)
  moreover have "bc_sync_list cs t = Some (t\<lparr>disk := (\<lambda>k. case find (\<lambda>c. bc_id c = k) cs of
    Some c \<Rightarrow> if bc_dirty c then bc_block c else disk t k | None \<Rightarrow> disk t k)\<rparr>)"
    using Cons by simp
  ultimately have "bc_sync_list (c # cs) s = Some (t\<lparr>disk := (\<lambda>k. case find (\<lambda>c. bc_id c = k) (c # cs) of
    Some c \<Rightarrow> if bc_dirty c then bc_block c else disk s k | None \<Rightarrow> disk s k)\<rparr>)" using t by simp
  then show ?case by (simp add: t_def split: if_splits)
qed simp

lemma bc_sync_spec:
  assumes "bc_ok {} s"
  shows "bc_sync s = Some (s\<lparr>disk := view s, bc_head := []\<rparr>)"
proof -
  have d: "distinct (map bc_id (bc_head s))" "\<forall>c\<in>set (bc_head s). bc_id c < 2 ^ 19" using assms by (simp_all add: bc_ok_def)
  have "(\<lambda>k. case find (\<lambda>c. bc_id c = k) (bc_head s) of Some c \<Rightarrow> if bc_dirty c then bc_block c else disk s k | None \<Rightarrow> disk s k) = view s"
  proof (rule ext)
    fix k
    show "(case find (\<lambda>c. bc_id c = k) (bc_head s) of Some c \<Rightarrow> if bc_dirty c then bc_block c else disk s k | None \<Rightarrow> disk s k) = view s k"
    proof (cases "find (\<lambda>c. bc_id c = k) (bc_head s)")
      case (Some c)
      then have "c \<in> set (bc_head s)" "bc_id c = k" using find_distinct [OF d(1)] by blast+
      then show ?thesis using assms Some by (auto simp: view_def bc_find_def bc_ok_def)
    qed (simp add: view_def bc_find_def)
  qed
  then show ?thesis using bc_sync_list_spec [OF d] by (simp add: bc_sync_def)
qed

section \<open>Allocation in the image\<close>

lemma alloc_region_at:
  assumes "0 < nr" and "start \<le> p" and "p + nr \<le> sz" and "free_run m p nr" and "\<And>q. start \<le> q \<Longrightarrow> q < p \<Longrightarrow> \<not> free_run m q nr"
  shows "bitmap_alloc_region m sz start nr = (p, bitmap_set m p nr)"
proof -
  define r where "r = bitmap_find_next_zero_area m sz start nr 0"
  have "start \<le> sz" using assms(2,3) by simp
  from bitmap_find_next_zero_area_spec [OF assms(1) this, of m]
  have "r = p \<and> r \<le> sz" unfolding r_def [symmetric] using assms(2-5) by (metis add_leD1 linorder_neqE_nat)
  then show ?thesis by (simp add: bitmap_alloc_region_def r_def [symmetric] Let_def)
qed

lemma allocate_inode_spec:
  assumes ok: "bc_ok {} s" and A: "unat (IAM_BLOCK_START (gas s)) = A" "A < 2 ^ 19"
    and bits: "\<And>k. 1 \<le> k \<Longrightarrow> k < 64 \<Longrightarrow> \<not> blk_bit (view s A) k"
  obtains s' where "allocate_inode s = Some (1, s')" "bc_ok {} s'" "view s' = (view s)(A := bytes_of (bitmap_set (u64s (view s A)) 1 1))"
    "gas s' = gas s" "\<And>k. cached s k \<Longrightarrow> cached s' k"
proof -
  obtain s1 where s1: "bc_read A s = Some s1" "bc_ok {} s1" "view s1 = view s" "cached s1 A" "gas s1 = gas s" "\<And>k. cached s k \<Longrightarrow> cached s1 k"
    using bc_read_spec [OF ok A(2)] by metis
  have "free_run (u64s (view s A)) 1 1" using bits by (simp add: free_run_def)
  then have r: "bitmap_alloc_region (u64s (bc_data A s1)) BITS_PER_BLOCK GAS_ROOT_INO 1 = (1, bitmap_set (u64s (view s A)) 1 1)"
    using s1(3,4) by (subst alloc_region_at) (simp_all add: bc_data_view)
  define s2 where "s2 = bc_store A (bytes_of (bitmap_set (u64s (view s A)) 1 1)) s1"
  note st = bc_store_spec [OF s1(2,4), of "bytes_of (bitmap_set (u64s (view s A)) 1 1)", folded s2_def]
  have "cached s2 A" using st(4) s1(4) by simp
  then obtain s3 where s3: "bc_write A False s2 = Some s3" "bc_ok {} s3" "view s3 = view s2" "gas s3 = gas s2" "\<And>k. cached s2 k \<Longrightarrow> cached s3 k"
    using bc_write_spec [OF st(2)] by metis
  have "allocate_inode s = Some (1, s3)"
    using A(1) s1(1) r s3(1) by (simp add: allocate_inode_def Let_def s2_def)
  then show thesis using that s3 st s1 by metis
qed

lemma allocate_blk_spec:
  assumes ok: "bc_ok {} s" and bam: "0 < unat (bam_blk (gas s))" and n: "0 < nr" "0 < p" "p + nr \<le> 32768"
    and used: "\<And>k. k < p \<Longrightarrow> blk_bit (view s 1) k" and free: "\<And>k. p \<le> k \<Longrightarrow> k < p + nr \<Longrightarrow> \<not> blk_bit (view s 1) k"
  obtains s' where "allocate_blk nr s = Some (word_of_nat p, s')" "bc_ok {} s'"
    "view s' = (view s)(1 := bytes_of (bitmap_set (u64s (view s 1)) p nr))" "gas s' = gas s" "\<And>k. cached s k \<Longrightarrow> cached s' k"
proof -
  have one: "(1 :: nat) < 2 ^ 19" by simp
  obtain s1 where s1: "bc_read 1 s = Some s1" "bc_ok {} s1" "view s1 = view s" "cached s1 1" "gas s1 = gas s" "\<And>k. cached s k \<Longrightarrow> cached s1 k"
    using bc_read_spec [OF ok one] by metis
  have "free_run (u64s (view s 1)) p nr" using free by (simp add: free_run_def)
  moreover have "\<not> free_run (u64s (view s 1)) q nr" if "q < p" for q
    using used [OF that] n(1) by (intro not_free_runI [of _ q]) simp_all
  ultimately have r: "bitmap_alloc_region (u64s (bc_data 1 s1)) BITS_PER_BLOCK 0 nr = (p, bitmap_set (u64s (view s 1)) p nr)"
    using s1(3,4) n by (subst alloc_region_at) (simp_all add: bc_data_view)
  define s2 where "s2 = bc_store 1 (bytes_of (bitmap_set (u64s (view s 1)) p nr)) s1"
  note st = bc_store_spec [OF s1(2,4), of "bytes_of (bitmap_set (u64s (view s 1)) p nr)", folded s2_def]
  have "cached s2 1" using st(4) s1(4) by simp
  then obtain s3 where s3: "bc_write 1 False s2 = Some s3" "bc_ok {} s3" "view s3 = view s2" "gas s3 = gas s2" "\<And>k. cached s2 k \<Longrightarrow> cached s3 k"
    using bc_write_spec [OF st(2)] by metis
  obtain l where l: "unat (bam_blk (gas s)) = Suc l" using bam by (cases "unat (bam_blk (gas s))") auto
  have "allocate_blk_loop (Suc l) 0 nr None s = Some (Some p, s3)"
    using s1(1) r s3(1) n(2) by (simp add: Let_def s2_def del: One_nat_def)
  then have "allocate_blk nr s = Some (word_of_nat p, s3)" by (simp add: allocate_blk_def l)
  then show thesis using that s3 st s1 by metis
qed

text \<open>A store into the cached inode list.\<close>

lemma ino_store_spec:
  assumes ok: "bc_ok P s" and L: "unat (INODE_LIST_START (gas s)) = L" "cached s L"
    and f: "gas_inode_ok (f (load_inode (view s L) off))"
  shows "load_inode (view (ino_store off f s) L) off = f (load_inode (view s L) off)"
    "k \<noteq> L \<Longrightarrow> view (ino_store off f s) k = view s k" "bc_ok (insert L P) (ino_store off f s)"
    "marked s L \<Longrightarrow> bc_ok P (ino_store off f s)" "cached (ino_store off f s) k = cached s k" "marked (ino_store off f s) k = marked s k"
    "gas (ino_store off f s) = gas s"
proof -
  have e: "ino_store off f s = bc_store L (store_inode (view s L) off (f (load_inode (view s L) off))) s"
    using L bc_data_view [OF L(2)] by (simp add: ino_store_def Let_def)
  note st = bc_store_spec [OF ok L(2), of "store_inode (view s L) off (f (load_inode (view s L) off))", folded e]
  show "load_inode (view (ino_store off f s) L) off = f (load_inode (view s L) off)"
    using st(1) dinode.load_store [OF f] by simp
  show "k \<noteq> L \<Longrightarrow> view (ino_store off f s) k = view s k" using st(1) by simp
  show "bc_ok (insert L P) (ino_store off f s)" "marked s L \<Longrightarrow> bc_ok P (ino_store off f s)"
    "cached (ino_store off f s) k = cached s k" "marked (ino_store off f s) k = marked s k" "gas (ino_store off f s) = gas s"
    using st by blast+
qed

lemma ino_load_view: "unat (INODE_LIST_START (gas s)) = L \<Longrightarrow> cached s L \<Longrightarrow> ino_load off s = load_inode (view s L) off"
  by (simp add: ino_load_def bc_data_view)

section \<open>The root directory\<close>

lemma add_dentry_spec:
  assumes ok: "bc_ok {} s" and L: "unat (INODE_LIST_START (gas s)) = L" "cached s L" "marked s L" and ne: "b \<noteq> L" "b < 2 ^ 19"
    and i: "gi_blkaddr (load_inode (view s L) off) 0 = word_of_nat b" "unat (gi_size (load_inode (view s L) off)) = sz" "sz + 260 \<le> 4096"
  obtains s' where "gas_add_dentry off name new_ino s = Some (Inr ((), s'))" "bc_ok {} s'" "gas s' = gas s" "cached s' L" "marked s' L"
    "view s' b = store_dentry (view s b) sz \<lparr>de_name = name, de_inode = new_ino\<rparr>"
    "load_inode (view s' L) off = (load_inode (view s L) off)\<lparr>gi_size := word_of_nat (sz + 260)\<rparr>"
    "\<And>k. k \<noteq> b \<Longrightarrow> k \<noteq> L \<Longrightarrow> view s' k = view s k"
proof -
  let ?i = "load_inode (view s L) off" and ?f = "\<lambda>i :: gas_inode. i\<lparr>gi_size := gi_size i + 260\<rparr>"
  have "unat (gi_size ?i div 4096) = 0" "unat (gi_size ?i mod 4096) = sz" using i(2,3) by (simp_all add: unat_div unat_mod)
  then have z: "gi_size ?i div 4096 = 0" "unat (gi_size ?i mod 4096) = sz" by (simp_all add: unat_eq_0)
  have ub: "unat (word_of_nat b :: u32) = b" using ne(2) by (simp add: unat_of_nat)
  obtain s1 where s1: "bc_read b s = Some s1" "bc_ok {} s1" "view s1 = view s" "cached s1 b" "gas s1 = gas s" "cached s1 L" "marked s1 L"
    using bc_read_spec [OF ok ne(2)] L(2,3) by metis
  define s2 where "s2 = bc_store b (store_dentry (view s b) sz \<lparr>de_name = name, de_inode = new_ino\<rparr>) s1"
  note st = bc_store_spec [OF s1(2,4), of "store_dentry (view s b) sz \<lparr>de_name = name, de_inode = new_ino\<rparr>", folded s2_def]
  have vL: "view s2 L = view s L" using st(1) s1(3) ne(1) by simp
  have ok2: "gas_inode_ok (?f (load_inode (view s2 L) off))" using gas_inode_ok_load [of "view s2 L" off] by (simp add: gas_inode_ok_def)
  have L2: "unat (INODE_LIST_START (gas s2)) = L" "cached s2 L" "marked s2 L" using L(1) s1 st by simp_all
  note sto = ino_store_spec [where f = ?f and off = off, OF st(2) L2(1,2) ok2]
  define s3 where "s3 = ino_store off ?f s2"
  have ok3: "bc_ok {b} s3" and c3: "cached s3 b" "cached s3 L" "marked s3 L" "gas s3 = gas s"
    using sto(4) [OF L2(3)] sto(5,6,7) L2 st(4,6) s1(4,5) by (simp_all add: s3_def)
  obtain s4 where s4: "bc_write b False s3 = Some s4" "bc_ok {} s4" "view s4 = view s3" "gas s4 = gas s3" "cached s4 L" "marked s4 L"
    using bc_write_spec [OF ok3 c3(1)] c3(2,3) by metis
  have run: "gas_add_dentry off name new_ino s = Some (Inr ((), s4))"
    unfolding gas_add_dentry_def Let_def ino_load_view [OF L(1,2)]
    using i z ub s1 s4(1) s2_def s3_def bc_data_view [OF s1(4)] by simp
  have "gi_size ?i = word_of_nat sz" using i(2) by (metis of_nat_unat ucast_id)
  then have "gi_size ?i + 260 = word_of_nat (sz + 260)" by simp
  then have inode: "load_inode (view s4 L) off = ?i\<lparr>gi_size := word_of_nat (sz + 260)\<rparr>"
    using sto(1) vL s4(3) by (simp add: s3_def)
  have vb: "view s4 b = store_dentry (view s b) sz \<lparr>de_name = name, de_inode = new_ino\<rparr>"
    using sto(2) [OF ne(1)] st(1) s4(3) by (simp add: s3_def)
  have vk: "view s4 k = view s k" if "k \<noteq> b" "k \<noteq> L" for k using sto(2) [OF that(2)] st(1) s4(3) s1(3) that(1) by (simp add: s3_def)
  have "gas s4 = gas s" using s4(4) c3(4) by simp
  then show thesis using that [OF run s4(2) _ s4(5,6) vb inode vk] by blast
qed

text \<open>The super block, the root inode and the image of a new file system of \<open>N\<close> blocks.\<close>

definition super_of :: "nat \<Rightarrow> gas_super_block" where
  "super_of N = \<lparr>d_magic = MAGIC_NUMBER, d_blocksize = 4096, d_bam_blocks = word_of_nat (bam_of N), d_iam_blocks = word_of_nat (iam_of N),
     d_inode_blocks = word_of_nat (N div 256), d_nblocks = word_of_nat N, d_ninodes = word_of_nat (inodes_of N)\<rparr>"

definition root_inode :: "env \<Rightarrow> nat \<Rightarrow> gas_inode" where
  "root_inode E N = \<lparr>gi_mode = S_IFDIR OR 0x1ED, gi_nlink = 2, gi_uid = getuid E, gi_gid = getgid E, gi_size = 520,
     gi_atime = ucast (time_now E), gi_mtime = ucast (time_now E), gi_ctime = ucast (time_now E),
     gi_blkaddr = (\<lambda>_. 0)(0 := word_of_nat (data_of N))\<rparr>"

definition fs_image :: "env \<Rightarrow> nat \<Rightarrow> (nat \<Rightarrow> block) \<Rightarrow> bool" where
  "fs_image E N D \<longleftrightarrow>
     load_super (D 0) 0 = super_of N \<and>
     (\<forall>j<bam_of N. \<forall>b<32768. blk_bit (D (1 + j)) b \<longleftrightarrow> 32768 * j + b < data_of N + 5 \<or> N \<le> 32768 * j + b) \<and>
     (\<forall>j<iam_of N. \<forall>b<32768. blk_bit (D (1 + bam_of N + j)) b \<longleftrightarrow> 32768 * j + b < 2 \<or> inodes_of N \<le> 32768 * j + b) \<and>
     load_inode (D (1 + bam_of N + iam_of N)) 64 = root_inode E N \<and>
     load_dentry (D (data_of N)) 0 = \<lparr>de_name = [46], de_inode = 1\<rparr> \<and>
     load_dentry (D (data_of N)) 260 = \<lparr>de_name = [46, 46], de_inode = 1\<rparr>"

lemma zero_block_inode: "load_inode zero_block p = \<lparr>gi_mode = 0, gi_nlink = 0, gi_uid = 0, gi_gid = 0, gi_size = 0,
    gi_atime = 0, gi_mtime = 0, gi_ctime = 0, gi_blkaddr = (\<lambda>_. 0)\<rparr>"
proof -
  have z: "zero_block = (\<lambda>_. 0)" by (simp add: zero_block_def memset_def)
  have "get_le32 (\<lambda>_. 0) q = 0" "get_le16 (\<lambda>_. 0) q = 0" for q by (simp_all add: get_le32_def get_le16_def)
  then show ?thesis by (simp add: load_inode_def z fun_eq_iff)
qed

lemma new_inode_mk_root:
  assumes sz: "sz div GAS_BLOCK_SIZE = N" and N: "256 \<le> N" "N < 2 ^ 19" and s: "s = \<lparr>gas = geometry sz, disk = D, bc_head = []\<rparr>"
    and md: "metadata N dev D" and L: "L = 1 + bam_of N + iam_of N" and A: "A = 1 + bam_of N"
  obtains s' where "new_inode_mk E (S_IFDIR OR 0x1ED) (64 * GAS_DIR_ENTRY_SIZE) s = Some (Inr (1, s'))" "bc_ok {} s'" "gas s' = gas s"
    "cached s' L" "marked s' L" "view s' A = bytes_of (bitmap_set (u64s (D A)) 1 1)"
    "view s' 1 = bytes_of (bitmap_set (u64s (D 1)) (data_of N) 5)" "load_inode (view s' L) 64 = (root_inode E N)\<lparr>gi_size := 0\<rparr>"
    "\<And>k. k \<noteq> 1 \<Longrightarrow> k \<noteq> A \<Longrightarrow> k \<noteq> L \<Longrightarrow> view s' k = D k"
proof -
  note b = geometry_bounds [OF N] and g = geometry_values [OF sz N(2)] and st = area_starts [OF sz N(2)]
  note md = md [unfolded metadata_def]
  have ok: "bc_ok {} s" and v0: "view s = D" and gs: "gas s = geometry sz"
    by (simp_all add: s bc_ok_def view_def bc_find_def fun_eq_iff)
  have bits: "blk_bit (D (1 + j)) k \<longleftrightarrow> 32768 * j + k < data_of N \<or> N \<le> 32768 * j + k" if "j < bam_of N" "k < 32768" for j k
    using md that by blast
  have bits1: "blk_bit (D 1) k \<longleftrightarrow> k < data_of N \<or> N \<le> k" if "k < 32768" for k using bits [of 0 k] b(1) that by simp
  have ibits: "blk_bit (D A) k \<longleftrightarrow> k < 1 \<or> inodes_of N \<le> k" if "k < 32768" for k
  proof -
    have "\<forall>j<iam_of N. \<forall>b<32768. blk_bit (D (1 + bam_of N + j)) b \<longleftrightarrow> 32768 * j + b < 1 \<or> inodes_of N \<le> 32768 * j + b" using md by blast
    from this [rule_format, of 0 k] show ?thesis using b(3) that by (simp add: A)
  qed
  have ne: "A \<noteq> L" "1 \<noteq> L" "A \<noteq> 1" "L < data_of N" and lt: "A < 2 ^ 19" "L < 2 ^ 19" using b N by (simp_all add: A L data_of_def)
  have DL: "D L = zero_block" using md ne(4) by (simp add: L)
  have Astart: "unat (IAM_BLOCK_START (gas s)) = A" using st(1) gs A by simp
  have fb: "\<not> blk_bit (view s A) k" if "1 \<le> k" "k < 64" for k using ibits [of k] that b(5) unfolding v0 by simp
  obtain s1 where s1: "allocate_inode s = Some (1, s1)" "bc_ok {} s1" "view s1 = D(A := bytes_of (bitmap_set (u64s (D A)) 1 1))" "gas s1 = gas s"
    using allocate_inode_spec [OF ok Astart lt(1) fb] unfolding v0 by metis
  have Lstart: "unat (INODE_LIST_START (gas s1)) = L" using st(2) gs s1(4) L by simp
  obtain s2 where s2: "bc_read L s1 = Some s2" "bc_ok {} s2" "view s2 = view s1" "cached s2 L" "gas s2 = gas s1"
    using bc_read_spec [OF s1(2) lt(2)] by metis
  have gi: "get_inode 1 s1 = Some (Some 64, s2)" using s2(1) Lstart by (simp add: get_inode_def)
  have v2: "view s2 1 = D 1" using s2(3) s1(3) ne(3) by simp
  have bamp: "0 < unat (bam_blk (gas s2))" using g(2) gs s1(4) s2(5) b(1) by simp
  have dp: "0 < data_of N" "data_of N + 5 \<le> 32768" using b(7) by (simp_all add: data_of_def)
  obtain s3 where s3: "allocate_blk 5 s2 = Some (word_of_nat (data_of N), s3)" "bc_ok {} s3"
    "view s3 = (view s2)(1 := bytes_of (bitmap_set (u64s (D 1)) (data_of N) 5))" "gas s3 = gas s2" "cached s3 L"
  proof (rule allocate_blk_spec [OF s2(2) bamp _ dp])
    show "blk_bit (view s2 1) k" if "k < data_of N" for k using bits1 [of k] that dp v2 by simp
    show "\<not> blk_bit (view s2 1) k" if "data_of N \<le> k" "k < data_of N + 5" for k using bits1 [of k] that dp b(6) v2 by simp
  qed (use s2(4) v2 that in auto)
  have w: "(word_of_nat (data_of N) :: u32) \<noteq> 0"
  proof -
    have "unat (word_of_nat (data_of N) :: u32) = data_of N" using b(7) by (simp add: unat_of_nat)
    then show ?thesis using dp(1) by (metis less_irrefl unat_0)
  qed
  have L3: "unat (INODE_LIST_START (gas s3)) = L" using Lstart s2(5) s3(4) by simp
  have vL: "view s3 L = zero_block" using s3(3) s2(3) s1(3) ne DL by simp
  let ?f1 = "\<lambda>i :: gas_inode. i\<lparr>gi_blkaddr := (gi_blkaddr i)(0 := word_of_nat (data_of N))\<rparr>"
  have k1: "gas_inode_ok (?f1 (load_inode (view s3 L) 64))" by (simp add: vL zero_block_inode gas_inode_ok_def)
  define s4 where "s4 = ino_store 64 ?f1 s3"
  note t4 = ino_store_spec [where f = ?f1 and off = 64, OF s3(2) L3 s3(5) k1, folded s4_def]
  have L4: "unat (INODE_LIST_START (gas s4)) = L" "cached s4 L" using L3 t4(5,7) s3(5) by simp_all
  let ?f2 = "\<lambda>i :: gas_inode. i\<lparr>gi_size := 0, gi_nlink := 2, gi_uid := getuid E, gi_gid := getgid E, gi_mode := S_IFDIR OR 0x1ED,
    gi_ctime := ucast (time_now E), gi_atime := ucast (time_now E), gi_mtime := ucast (time_now E)\<rparr>"
  have k2: "gas_inode_ok (?f2 (load_inode (view s4 L) 64))" using k1 by (simp add: t4(1) gas_inode_ok_def)
  define s5 where "s5 = ino_store 64 ?f2 s4"
  note t5 = ino_store_spec [where f = ?f2 and off = 64, OF t4(3) L4 k2, folded s5_def]
  have "bc_ok (insert L {}) s5" "cached s5 L" using t5(3,5) L4(2) by simp_all
  then obtain s6 where s6: "bc_write L False s5 = Some s6" "bc_ok {} s6" "view s6 = view s5" "gas s6 = gas s5" "marked s6 L" "cached s6 L"
    using bc_write_spec by metis
  have dirmode: "S_ISDIR (S_IFDIR OR 0x1ED)" by (simp add: S_ISDIR_def)
  have L5: "unat (INODE_LIST_START (gas s5)) = L" using L4(1) t5(7) by simp
  have addr: "gi_blkaddr (ino_load 64 s4) 0 \<noteq> 0" using w t4(1) ino_load_view [OF L4] by simp
  have run: "new_inode_mk E (S_IFDIR OR 0x1ED) (64 * GAS_DIR_ENTRY_SIZE) s = Some (Inr (1, s6))"
    using s1(1) gi s3(1) addr dirmode s6(1) L5
    by (simp add: new_inode_mk_def Let_def s4_def s5_def)
  have "load_inode (view s6 L) 64 = (root_inode E N)\<lparr>gi_size := 0\<rparr>"
    using t5(1) t4(1) s6(3) by (simp add: vL zero_block_inode root_inode_def)
  moreover have "view s6 k = view s3 k" if "k \<noteq> L" for k using s6(3) t5(2) [OF that] t4(2) [OF that] by simp
  moreover have "gas s6 = gas s" using s6(4) t5(7) t4(7) s3(4) s2(5) s1(4) by simp
  ultimately show thesis using that [OF run s6(2) _ s6(6,5)] ne s3(3) s2(3) s1(3) by simp
qed

lemma make_rootdir_spec:
  assumes sz: "sz div GAS_BLOCK_SIZE = N" and N: "256 \<le> N" "N < 2 ^ 19" and s: "s = \<lparr>gas = geometry sz, disk = D, bc_head = []\<rparr>"
    and md: "metadata N dev D"
  obtains s' where "make_rootdir E s = Some (Inr ((), s'))" "bc_ok {} s'" "fs_image E N (view s')"
    "\<And>k. data_of N < k \<Longrightarrow> view s' k = dev k" "\<And>q. 520 \<le> q \<Longrightarrow> view s' (data_of N) q = dev (data_of N) q"
proof -
  define L where "L = 1 + bam_of N + iam_of N"
  define A where "A = 1 + bam_of N"
  define d where "d = data_of N"
  note b = geometry_bounds [OF N]
  have ne: "d \<noteq> L" "d \<noteq> 1" "d \<noteq> A" "d \<noteq> 0" "A \<noteq> L" "1 \<noteq> L" "0 \<noteq> L" "A \<noteq> 1" "0 \<noteq> A" and lt: "d < 2 ^ 19" "L < 2 ^ 19" "L < d"
    using b N by (simp_all add: A_def L_def d_def data_of_def)
  obtain s1 where s1: "new_inode_mk E (S_IFDIR OR 0x1ED) (64 * GAS_DIR_ENTRY_SIZE) s = Some (Inr (1, s1))" "bc_ok {} s1" "gas s1 = gas s"
    "cached s1 L" "marked s1 L" "view s1 A = bytes_of (bitmap_set (u64s (D A)) 1 1)"
    "view s1 1 = bytes_of (bitmap_set (u64s (D 1)) d 5)" "load_inode (view s1 L) 64 = (root_inode E N)\<lparr>gi_size := 0\<rparr>"
    "\<And>k. k \<noteq> 1 \<Longrightarrow> k \<noteq> A \<Longrightarrow> k \<noteq> L \<Longrightarrow> view s1 k = D k"
    using new_inode_mk_root [OF sz N s md L_def A_def, folded d_def] by metis
  have Ls: "unat (INODE_LIST_START (geometry sz)) = L" using area_starts(2) [OF sz N(2)] by (simp add: L_def)
  then have L1: "unat (INODE_LIST_START (gas s1)) = L" using s1(3) s by simp
  obtain s2 where s2: "bc_read L s1 = Some s2" "bc_ok {} s2" "view s2 = view s1" "cached s2 L" "gas s2 = gas s1" "marked s2 L"
    using bc_read_spec [OF s1(2) lt(2)] s1(5) by metis
  have gi: "get_inode 1 s1 = Some (Some 64, s2)" using s2(1) L1 by (simp add: get_inode_def)
  have L2: "unat (INODE_LIST_START (gas s2)) = L" using L1 s2(5) by simp
  have i2: "gi_blkaddr (load_inode (view s2 L) 64) 0 = word_of_nat d" "unat (gi_size (load_inode (view s2 L) 64)) = 0"
    using s2(3) s1(8) by (simp_all add: root_inode_def d_def)
  have le0: "0 + 260 \<le> (4096 :: nat)" by simp
  obtain s3 where s3: "gas_add_dentry 64 [46] 1 s2 = Some (Inr ((), s3))" "bc_ok {} s3" "gas s3 = gas s2" "cached s3 L" "marked s3 L"
    "view s3 d = store_dentry (view s2 d) 0 \<lparr>de_name = [46], de_inode = 1\<rparr>"
    "load_inode (view s3 L) 64 = (load_inode (view s2 L) 64)\<lparr>gi_size := word_of_nat (0 + 260)\<rparr>"
    "\<And>k. k \<noteq> d \<Longrightarrow> k \<noteq> L \<Longrightarrow> view s3 k = view s2 k"
    using add_dentry_spec [OF s2(2) L2 s2(4,6) ne(1) lt(1) i2 le0, of "[46]" 1] by metis
  have L3: "unat (INODE_LIST_START (gas s3)) = L" using L2 s3(3) by simp
  have i3: "gi_blkaddr (load_inode (view s3 L) 64) 0 = word_of_nat d" "unat (gi_size (load_inode (view s3 L) 64)) = 260"
    using i2 by (simp_all add: s3(7))
  have le: "260 + 260 \<le> (4096 :: nat)" by simp
  obtain s4 where s4: "gas_add_dentry 64 [46, 46] 1 s3 = Some (Inr ((), s4))" "bc_ok {} s4"
    "view s4 d = store_dentry (view s3 d) 260 \<lparr>de_name = [46, 46], de_inode = 1\<rparr>"
    "load_inode (view s4 L) 64 = (load_inode (view s3 L) 64)\<lparr>gi_size := word_of_nat (260 + 260)\<rparr>"
    "\<And>k. k \<noteq> d \<Longrightarrow> k \<noteq> L \<Longrightarrow> view s4 k = view s3 k"
    using add_dentry_spec [OF s3(2) L3 s3(4,5) ne(1) lt(1) i3 le, of "[46, 46]" 1] by metis
  have run: "make_rootdir E s = Some (Inr ((), s4))" using s1(1) gi s3(1) s4(1) by (simp add: make_rootdir_def)
  have v: "view s4 k = view s1 k" if "k \<noteq> d" "k \<noteq> L" for k using s4(5) s3(8) s2(3) that by simp
  have vD: "view s4 k = D k" if "k \<noteq> d" "k \<noteq> L" "k \<noteq> 1" "k \<noteq> A" for k using v s1(9) that by simp
  note md' = md [unfolded metadata_def]
  have "fs_image E N (view s4)"
    unfolding fs_image_def d_def [symmetric] L_def [symmetric]
  proof (intro conjI allI impI)
    show "load_super (view s4 0) 0 = super_of N" using vD [of 0] ne md' by (simp add: super.load_store super_of_def)
    show "blk_bit (view s4 (1 + j)) c \<longleftrightarrow> 32768 * j + c < d + 5 \<or> N \<le> 32768 * j + c" if "j < bam_of N" "c < 32768" for j c
    proof -
      have m: "blk_bit (D (1 + j)) c \<longleftrightarrow> 32768 * j + c < d \<or> N \<le> 32768 * j + c" using md' that by (simp add: d_def)
      show ?thesis
      proof (cases "j = 0")
        case True
        then show ?thesis using v [of 1] ne s1(7) m by (auto simp: map_bit_bitmap_set)
      next
        case False
        then have "view s4 (1 + j) = D (1 + j)" using that(1) lt(3) by (intro vD) (simp_all add: A_def L_def)
        moreover have "\<not> 32768 * j + c < d + 5" using False b(7) by (simp add: d_def)
        ultimately show ?thesis using m by simp
      qed
    qed
    show "blk_bit (view s4 (1 + bam_of N + j)) c \<longleftrightarrow> 32768 * j + c < 2 \<or> inodes_of N \<le> 32768 * j + c" if "j < iam_of N" "c < 32768" for j c
    proof -
      have m: "blk_bit (D (1 + bam_of N + j)) c \<longleftrightarrow> 32768 * j + c < 1 \<or> inodes_of N \<le> 32768 * j + c" using md' that by blast
      show ?thesis
      proof (cases "j = 0")
        case True
        then show ?thesis using v [of A] ne s1(6) m by (auto simp: map_bit_bitmap_set A_def)
      next
        case False
        then have "view s4 (1 + bam_of N + j) = D (1 + bam_of N + j)" using that(1) lt(3) b(1) by (intro vD) (simp_all add: A_def L_def)
        then show ?thesis using m False by simp
      qed
    qed
    show "load_inode (view s4 L) 64 = root_inode E N" by (simp add: s4(4) s3(7) s2(3) s1(8) root_inode_def)
    have ok: "dentry_ok \<lparr>de_name = [46], de_inode = 1\<rparr>" "dentry_ok \<lparr>de_name = [46, 46], de_inode = 1\<rparr>" by (simp_all add: dentry_ok_def)
    show "load_dentry (view s4 d) 260 = \<lparr>de_name = [46, 46], de_inode = 1\<rparr>" by (simp add: s4(3) dentry.load_store ok)
    show "load_dentry (view s4 d) 0 = \<lparr>de_name = [46], de_inode = 1\<rparr>"
      by (simp add: s4(3) s3(6) dentry.load_store_disjoint dentry.load_store ok)
  qed
  moreover have "view s4 k = dev k" if "d < k" for k
    using vD [of k] that lt(3) md' by (simp add: d_def A_def L_def)
  moreover have "view s4 d q = dev d q" if "520 \<le> q" for q
  proof -
    have "D d = dev d" using md' by (simp add: d_def)
    then have "view s2 d = dev d" using ne s1(9) [of d] s2(3) by simp
    then show ?thesis using that by (simp add: s4(3) s3(6) dentry.store_frame)
  qed
  ultimately show thesis using that [OF run s4(2)] by (simp add: d_def)
qed

text \<open>The whole program.\<close>

lemma mkfs_main_spec:
  assumes sz: "sz div GAS_BLOCK_SIZE = N" and N: "256 \<le> N" "N < 2 ^ 19" and argv: "2 \<le> length argv" "openf (argv ! 1) = Some (sz, dev)"
  obtains D where "mkfs_main E argv openf buffer = Some (0, D)" "fs_image E N D" "\<And>k. data_of N < k \<Longrightarrow> D k = dev k"
    "\<And>q. 520 \<le> q \<Longrightarrow> D (data_of N) q = dev (data_of N) q"
proof -
  define s where "s = \<lparr>gas = geometry sz, disk = dev, bc_head = []\<rparr>"
  obtain s1 s2 s3 M where m: "init_super_block s = Some s1" "init_block_alloc_map buffer s1 = Some s2"
    "init_inode_alloc_map buffer s2 = Some s3" "init_inode_list s3 = Some (s\<lparr>disk := M\<rparr>)" "metadata N dev M"
    using metadata_written [OF sz N s_def] by blast
  have t: "s\<lparr>disk := M\<rparr> = \<lparr>gas = geometry sz, disk = M, bc_head = []\<rparr>" by (simp add: s_def)
  obtain s4 where r: "make_rootdir E (s\<lparr>disk := M\<rparr>) = Some (Inr ((), s4))" "bc_ok {} s4" "fs_image E N (view s4)"
    "\<And>k. data_of N < k \<Longrightarrow> view s4 k = dev k" "\<And>q. 520 \<le> q \<Longrightarrow> view s4 (data_of N) q = dev (data_of N) q"
    using make_rootdir_spec [OF sz N t m(5)] by blast
  have "mkfs_main E argv openf buffer = Some (0, view s4)"
    using argv m r(1) bc_sync_spec [OF r(2)] by (simp add: mkfs_main_def Let_def s_def)
  then show thesis using that r(3-5) by blast
qed

section \<open>Mounting the image\<close>

text \<open>The in-core super block of the image, and the state after its root inode is read.\<close>

definition image_sb :: "nat \<Rightarrow> gas_sb_info" where
  "image_sb N = mounted_sb (gas_super_block_fill zero_sb_info (super_of N))"

lemma image_sb_values:
  assumes N: "256 \<le> N" "N < 2 ^ 19"
  shows "s_magic (image_sb N) = MAGIC_NUMBER" "s_blocksize (image_sb N) = 4096" "unat (s_bam_blocks (image_sb N)) = bam_of N"
    "unat (s_iam_blocks (image_sb N)) = iam_of N" "unat (s_inode_blocks (image_sb N)) = N div 256" "unat (s_nblocks (image_sb N)) = N"
    "unat (s_ninodes (image_sb N)) = inodes_of N" "s_inodes_per_block (image_sb N) = 64" "s_bits_per_block (image_sb N) = 32768"
    "unat (s_inode_list_start (image_sb N)) = 1 + bam_of N + iam_of N" "unat (s_data_block_start (image_sb N)) = data_of N"
    "s_bam_bh (image_sb N) = [1..<1 + bam_of N]" "s_iam_bh (image_sb N) = [1 + bam_of N..<1 + bam_of N + iam_of N]"
    "s_bam_last (image_sb N) = 0" "s_iam_last (image_sb N) = 0"
proof -
  note b = geometry_bounds [OF N]
  have "inodes_of N \<le> N" by (simp add: inodes_of_def)
  then have le: "bam_of N < 2 ^ 32" "iam_of N < 2 ^ 32" "N div 256 < 2 ^ 32" "inodes_of N < 2 ^ 32" "N < 2 ^ 32"
    using b N by simp_all
  have w: "unat (word_of_nat (bam_of N) :: u32) = bam_of N" "unat (word_of_nat (iam_of N) :: u32) = iam_of N"
    "unat (word_of_nat (N div 256) :: u32) = N div 256" "unat (word_of_nat (inodes_of N) :: u32) = inodes_of N" "unat (word_of_nat N :: u32) = N"
    using le by (simp_all add: unat_of_nat)
  have add: "unat (x + y :: u32) = unat x + unat y" if "unat x + unat y < 2 ^ 32" for x y using that by (simp add: unat_word_ariths)
  have a1: "unat (word_of_nat (bam_of N) + word_of_nat (iam_of N) :: u32) = bam_of N + iam_of N"
    using b(2,4) w by (subst add) simp_all
  have a2: "unat (word_of_nat (bam_of N) + word_of_nat (iam_of N) + 1 :: u32) = 1 + bam_of N + iam_of N"
    using b(2,4) by (subst add) (simp_all add: a1)
  have a3: "unat (word_of_nat (bam_of N) + word_of_nat (iam_of N) + 1 + word_of_nat (N div 256) :: u32) = data_of N"
    using b(2,4,7) by (subst add) (simp_all add: a2 w data_of_def)
  show "s_magic (image_sb N) = MAGIC_NUMBER" "s_blocksize (image_sb N) = 4096" "unat (s_bam_blocks (image_sb N)) = bam_of N"
    "unat (s_iam_blocks (image_sb N)) = iam_of N" "unat (s_inode_blocks (image_sb N)) = N div 256" "unat (s_nblocks (image_sb N)) = N"
    "unat (s_ninodes (image_sb N)) = inodes_of N" "s_inodes_per_block (image_sb N) = 64" "s_bits_per_block (image_sb N) = 32768"
    "unat (s_inode_list_start (image_sb N)) = 1 + bam_of N + iam_of N" "unat (s_data_block_start (image_sb N)) = data_of N"
    "s_bam_bh (image_sb N) = [1..<1 + bam_of N]" "s_iam_bh (image_sb N) = [1 + bam_of N..<1 + bam_of N + iam_of N]"
    "s_bam_last (image_sb N) = 0" "s_iam_last (image_sb N) = 0"
    using w a2 a3 by (simp_all add: image_sb_def mounted_sb_def gas_super_block_fill_def super_of_def Let_def del: One_nat_def)
qed

text \<open>The bits of a bitmap spread over the blocks from \<open>start\<close>.\<close>

lemma map_bits_area:
  assumes "\<forall>j<n. \<forall>b<32768. blk_bit (D (start + j)) b \<longleftrightarrow> P (32768 * j + b)"
  shows "map_bits D [start..<start + n] = {k. k < 32768 * n \<and> P k}"
proof -
  have "blk_bit (D ([start..<start + n] ! (k div 32768))) (k mod 32768) \<longleftrightarrow> P k" if "k < 32768 * n" for k
  proof -
    have j: "k div 32768 < n" using that by (simp add: less_mult_imp_div_less mult.commute)
    then have "[start..<start + n] ! (k div 32768) = start + k div 32768" by simp
    then show ?thesis using assms [rule_format, OF j, of "k mod 32768"] by simp
  qed
  then show ?thesis by (auto simp: map_bits_def)
qed

lemma leaked_blocks:
  assumes "(d :: nat) + 5 \<le> n" and "n \<le> m"
  shows "{k. k < m \<and> (k < d + 5 \<or> n \<le> k)} - {d} = {..<d} \<union> {d + 1..<d + 5} \<union> {n..<m}"
proof (rule set_eqI)
  fix x
  have "(x < m \<and> (x < d + 5 \<or> n \<le> x)) \<and> x \<noteq> d \<longleftrightarrow> (x < d \<or> d + 1 \<le> x \<and> x < d + 5) \<or> n \<le> x \<and> x < m"
    using assms by linarith
  then show "x \<in> {k. k < m \<and> (k < d + 5 \<or> n \<le> k)} - {d} \<longleftrightarrow> x \<in> {..<d} \<union> {d + 1..<d + 5} \<union> {n..<m}"
    by simp
qed

lemma image_files:
  assumes N: "256 \<le> N" "N < 2 ^ 19" and im: "fs_image E N D"
    and t: "sbi t = image_sb N" "sb_blocksize t = 4096" "sb_blocksize_bits t = 12" "bufs t = D"
    and root: "i_ino (icache t 1) = 1" "\<And>r. r < 9 \<Longrightarrow> blkaddr (icache t 1) r = gi_blkaddr (root_inode E N) r"
  shows "files_ok {1} t" "used_inodes t = {k. k < 32768 * iam_of N \<and> (k < 2 \<or> inodes_of N \<le> k)}" "tree_blocks t 1 = {data_of N}"
    "unowned {1} t = {..<data_of N} \<union> {data_of N + 1..<data_of N + 5} \<union> {N..<32768 * bam_of N}"
proof -
  note b = geometry_bounds [OF N] and v = image_sb_values [OF N] and im = im [unfolded fs_image_def]
  have ub: "used_blocks t = {k. k < 32768 * bam_of N \<and> (k < data_of N + 5 \<or> N \<le> k)}"
    unfolding used_blocks_def t v(12) by (rule map_bits_area) (use im in blast)
  show ui: "used_inodes t = {k. k < 32768 * iam_of N \<and> (k < 2 \<or> inodes_of N \<le> k)}"
    unfolding used_inodes_def t v(13) by (rule map_bits_area) (use im in blast)
  have dz: "data_zone t = {data_of N..<N}" by (simp add: data_zone_def t v)
  have ud: "unat (word_of_nat (data_of N) :: u32) = data_of N" using b(7) by (simp add: unat_of_nat)
  have w: "(word_of_nat (data_of N) :: u32) \<noteq> 0"
  proof
    assume "(word_of_nat (data_of N) :: u32) = 0"
    then have "data_of N = 0" using ud by simp
    then show False by (simp add: data_of_def)
  qed
  have bm: "bmap t 1 q = (if q = [0] then word_of_nat (data_of N) else 0)" if "node_path q" for q
  proof (cases q)
    case (Cons r os)
    then have r: "r < 9" "length os \<le> r - 5" using that by simp_all
    show ?thesis
    proof (cases "r = 0")
      case True
      then show ?thesis using r Cons root(2) [of 0] by (simp add: root_inode_def)
    next
      case False
      then show ?thesis using r Cons root(2) [of r] by (simp add: root_inode_def bmap_def)
    qed
  qed (use that in simp)
  have np: "node_path [0]" by simp
  show tb: "tree_blocks t 1 = {data_of N}"
    unfolding tree_blocks_def using bm np w ud by (auto split: if_splits) (metis np)
  have "data_of N \<in> data_zone t \<inter> used_blocks t" using b(6,8) by (simp add: dz ub)
  then have tw: "tree_wf {1} t" unfolding tree_wf_def using bm ud by (auto split: if_splits)
  have bam: "bam_wf t" "iam_wf t" using b v t by (simp_all add: bam_wf_def iam_wf_def del: upt.simps)
  have al: "alloc_inv t" unfolding alloc_inv_def using bam(1) v t b by (auto simp: dz ub bam_bits_def data_of_def)
  have lay: "layout_wf t" unfolding layout_wf_def using v t b by (auto simp: itable_wf_def data_of_def)
  have "tree_geom t" "itable_area (sbi t)" using v t N by (simp_all add: tree_geom_def itable_area_def data_of_def inodes_of_def)
  moreover have "unat (s_nblocks (sbi t)) \<le> max_blocks" using v t N by simp
  ultimately have vol: "vol_ok {1} t" using al bam(2) lay tw by (simp add: vol_ok_def)
  have "ino_inv t" unfolding ino_inv_def inode_zone_def ui using v t by auto
  moreover have "1 \<in> used_inodes t \<inter> inode_zone t" using b(3,5) v t by (simp add: ui inode_zone_def)
  ultimately show "files_ok {1} t" using vol root(1) by (simp add: files_ok_def)
  show "unowned {1} t = {..<data_of N} \<union> {data_of N + 1..<data_of N + 5} \<union> {N..<32768 * bam_of N}"
  proof -
    have "unowned {1} t = used_blocks t - {data_of N}" by (simp add: unowned_def tb del: One_nat_def)
    then show ?thesis unfolding ub by (simp only: leaked_blocks [OF b(6,8)])
  qed
qed

text \<open>\<^verbatim>\<open>gas_fill_super\<close> on a device that holds the image.\<close>

lemma mount_image:
  assumes N: "256 \<le> N" "N < 2 ^ 19" and im: "fs_image E N D" and bf: "bufs (fs_of S) = D"
    and rd: "\<And>g n. sb_bread K g n = Some (g n)" and km: "\<And>g n. kzalloc K g n"
    and bs: "\<And>g. sb_set_blocksize K g 4096 = Some (g\<lparr>sb_blocksize := 4096, sb_blocksize_bits := 12\<rparr>)" and bd: "block_device K"
    and dr: "\<And>g r. d_make_root K g r" and ig: "\<And>g. \<exists>i. iget_locked K g 1 = Iget_new i \<and> i_ino i = 1"
  shows "\<exists>S'. gas_fill_super K S = Some (None, S') \<and> v_root S' = Some GAS_ROOT_INO \<and> files_ok {1} (fs_of S') \<and>
    unowned {1} (fs_of S') = {..<data_of N} \<union> {data_of N + 1..<data_of N + 5} \<union> {N..<32768 * bam_of N} \<and>
    tree_blocks (fs_of S') 1 = {data_of N} \<and> S_ISDIR (i_mode (icache (fs_of S') 1)) \<and> i_nlink (icache (fs_of S') 1) = 2 \<and>
    i_size (icache (fs_of S') 1) = 520 \<and> bufs (fs_of S') = D"
proof -
  note b = geometry_bounds [OF N] and v = image_sb_values [OF N]
  define sb where "sb = gas_super_block_fill zero_sb_info (super_of N)"
  have msb: "mounted_sb sb = image_sb N" by (simp add: sb_def image_sb_def)
  have sbv: "s_magic sb = MAGIC_NUMBER" "s_blocksize sb = 4096" "unat (s_bam_blocks sb) = bam_of N" "unat (s_iam_blocks sb) = iam_of N"
    "unat (s_inode_blocks sb) = N div 256"
    using v(1-5) unfolding msb [symmetric] by (simp_all add: mounted_sb_def)
  have nz: "s_bam_blocks sb \<noteq> 0" "s_iam_blocks sb \<noteq> 0" "s_inode_blocks sb \<noteq> 0"
    using sbv(3-5) b(1,3) N(1) by (metis less_irrefl unat_0, metis less_irrefl unat_0, metis div_greater_zero_iff less_irrefl unat_0 zero_less_numeral)
  have load: "load_super (bufs (fs_of S) 0) 0 = super_of N" using im bf by (simp add: fs_image_def)
  define S1 where "S1 = S\<lparr>kmems := Mem_sbi # kmems S\<rparr>"
  have read: "gas_super_block_read K S = (Some sb, S1)"
    using km rd sbv(1) load by (simp add: gas_super_block_read_def Let_def S1_def sb_def)
  define f where "f = (fs_of S)\<lparr>sbi := sb, sb_blocksize := 4096, sb_blocksize_bits := 12\<rparr>"
  have bsz: "sb_set_blocksize K ((fs_of S)\<lparr>sbi := sb\<rparr>) (s_blocksize sb) = Some f" using bs sbv(2) by (simp add: f_def)
  define maps T where "maps = [1..<1 + unat (s_bam_blocks sb) + unat (s_iam_blocks sb)]" and
    "T = S1\<lparr>v_magic := s_magic sb, fs_of := f, v_fs_info := True, v_op := True, v_max_links := GAS_LINK_MAX, kmems := Mem_map # kmems S1\<rparr>"
  note m = block_device.fill_super_maps [OF bd read bsz nz km refl T_def maps_def]
  obtain i where i: "iget_locked K (f\<lparr>sbi := image_sb N\<rparr>) 1 = Iget_new i" "i_ino i = 1" using ig by blast
  have itw: "itable_wf (image_sb N)" by (simp add: itable_wf_def v)
  have loc: "load_inode (D (gas_inode_block (image_sb N) 1)) (gas_inode_offset (image_sb N) 1) = root_inode E N"
    using im by (simp add: inode_location [OF itw] v fs_image_def)
  define j where "j = gas_set_inode K (gas_inode_fill i (root_inode E N)) (new_decode_dev K (word_of_nat (data_of N)))"
  define g where "g = upd_inode 1 (\<lambda>_. j) (f\<lparr>sbi := image_sb N\<rparr>)"
  have fD: "bufs f = D" by (simp add: f_def bf)
  have get: "gas_iget K (f\<lparr>sbi := image_sb N\<rparr>) GAS_ROOT_INO = (Inr 1, g)"
  proof -
    have "blkaddr (gas_inode_fill i (root_inode E N)) 0 = word_of_nat (data_of N)" by (simp add: gas_inode_fill_def root_inode_def)
    then show ?thesis using i rd loc fD by (simp add: gas_iget_def Let_def j_def g_def del: inode_location One_nat_def)
  qed
  define S' where "S' = (held maps T)\<lparr>fs_of := g, v_root := Some 1\<rparr>"
  have fill: "gas_fill_super K S = Some (None, S')" using m rd get dr by (simp add: msb S'_def)
  have dirmode: "S_ISDIR (S_IFDIR OR 0x1ED)" "\<not> S_ISREG (S_IFDIR OR 0x1ED)" by (simp_all add: S_ISDIR_def S_ISREG_def)
  have jv: "i_ino j = 1" "S_ISDIR (i_mode j)" "i_nlink j = 2" "i_size j = 520" "\<And>r. r < 9 \<Longrightarrow> blkaddr j r = gi_blkaddr (root_inode E N) r"
    using i dirmode by (simp_all add: j_def gas_set_inode_def gas_inode_fill_def root_inode_def Let_def)
  have g: "sbi g = image_sb N" "sb_blocksize g = 4096" "sb_blocksize_bits g = 12" "bufs g = D" "icache g 1 = j"
    by (simp_all add: g_def f_def bf)
  note files = image_files [OF N im g(1-4), unfolded g(5), OF jv(1,5)]
  show ?thesis using fill files jv g by (intro exI [of _ S']) (simp add: S'_def)
qed

text \<open>
  The root directory once its page is read: the first page holds its block, there are no others. The program writes
  two entries and leaves the rest of the block as it was on the device.
\<close>

definition root_page_read :: "(nat \<Rightarrow> block) \<Rightarrow> nat \<Rightarrow> fs \<Rightarrow> fs" where
  "root_page_read D N f = f\<lparr>pages := (pages f)(GAS_ROOT_INO := (\<lambda>n. if n = 0 then D (data_of N) else (\<lambda>_. 0)))\<rparr>"

lemma root_dir_read:
  assumes im: "fs_image E N D" and sz: "i_size (icache f 1) = 520"
    and stale: "\<And>m. 2 \<le> m \<Longrightarrow> m < 15 \<Longrightarrow> de_inode (load_dentry (D (data_of N)) (GAS_DIR_ENTRY_SIZE * m)) = 0"
  shows "dir_wf (root_page_read D N f) 1" "dir_map (root_page_read D N f) 1 = [dot \<mapsto> 1, dotdot \<mapsto> 1]"
proof -
  let ?g = "root_page_read D N f"
  have s0: "dslot ?g 1 m = load_dentry (D (data_of N)) (GAS_DIR_ENTRY_SIZE * m)" if "m < 15" for m
    using that by (simp add: dslot_def root_page_read_def)
  have d: "dslot ?g 1 0 = \<lparr>de_name = dot, de_inode = 1\<rparr>" "dslot ?g 1 1 = \<lparr>de_name = dotdot, de_inode = 1\<rparr>"
    using s0 [of 0] s0 [of 1] im by (simp_all add: fs_image_def dot_def dotdot_def del: One_nat_def)
  have dead: "\<not> live ?g 1 m" if "2 \<le> m" for m
  proof (cases "m < 15")
    case True
    then show ?thesis using stale [OF that True] by (simp add: live_def s0 del: One_nat_def)
  next
    case False
    then have "m div 15 \<noteq> 0" by simp
    then show ?thesis by (simp add: live_def dslot_def root_page_read_def load_dentry_def get_le32_def del: One_nat_def)
  qed
  have z: "i_size (icache ?g 1) = dir_size 2" using sz by (simp add: root_page_read_def dir_size_def)
  show "dir_wf ?g 1" "dir_map ?g 1 = [dot \<mapsto> 1, dotdot \<mapsto> 1]"
    using two_slot_dir(1,3) [OF z d dead] by simp_all
qed

lemma load_inode_number_cong:
  assumes "\<And>q. 520 \<le> q \<Longrightarrow> b q = c q" and "2 \<le> m"
  shows "de_inode (load_dentry b (GAS_DIR_ENTRY_SIZE * m)) = de_inode (load_dentry c (GAS_DIR_ENTRY_SIZE * m))"
  using assms by (simp add: load_dentry_def get_le32_def)

section \<open>Properties\<close>

text \<open>
  C33. The write-back cache is transparent. Through it the program sees of every block what it last stored, or the
  contents of the device; a block that is read, changed and marked, and then synchronised, is on the
  device, every other block holds what the program saw of it, and the cache is empty.
\<close>

theorem block_cache_writes_back:
  assumes "bc_ok {} s" and "blk < 2 ^ 19"
  shows "\<exists>s1 s2. bc_read blk s = Some s1 \<and> bc_data blk s1 = view s blk \<and> bc_write blk False (bc_store blk b s1) = Some s2 \<and>
    bc_ok {} s2 \<and> view s2 = (view s)(blk := b) \<and> bc_sync s2 = Some (s2\<lparr>disk := (view s)(blk := b), bc_head := []\<rparr>)"
proof -
  obtain s1 where s1: "bc_read blk s = Some s1" "bc_ok {} s1" "view s1 = view s" "cached s1 blk"
    using bc_read_spec [OF assms] by metis
  note st = bc_store_spec [OF s1(2,4), of b]
  have "cached (bc_store blk b s1) blk" using st(4) s1(4) by simp
  then obtain s2 where s2: "bc_write blk False (bc_store blk b s1) = Some s2" "bc_ok {} s2" "view s2 = view (bc_store blk b s1)"
    using bc_write_spec [OF st(2)] by metis
  have v: "view s2 = (view s)(blk := b)" using s2(3) st(1) s1(3) by simp
  show ?thesis using s1(1) bc_data_view [OF s1(4)] s1(3) s2(1,2) v bc_sync_spec [OF s2(2)] by simp
qed

theorem block_cache_writes_back_witness:
  "\<exists>s1 s2. bc_read 7 \<lparr>gas = geometry 1048576, disk = (\<lambda>_ _. 0), bc_head = []\<rparr> = Some s1 \<and>
     bc_write 7 False (bc_store 7 (\<lambda>_. 1) s1) = Some s2 \<and> map_option (\<lambda>s. disk s 7 5) (bc_sync s2) = Some 1"
proof -
  define s where "s = \<lparr>gas = geometry 1048576, disk = (\<lambda>_ _. 0 :: byte), bc_head = []\<rparr>"
  have "bc_ok {} s" by (simp add: bc_ok_def s_def)
  from block_cache_writes_back [OF this, of 7 "\<lambda>_. 1"] show ?thesis unfolding s_def [symmetric] by auto
qed

text \<open>
  C24. On every device from 1 MB to below 2 GB the file system maker ends with exit status 0 and leaves an image
  that is right: the super block describes the geometry; the block bitmap marks exactly the
  metadata, the five blocks it allocated for the root and the numbers beyond the end; the inode bitmap exactly
  the numbers 0 and 1 and those beyond the end; inode 1 is a directory of two links whose first block holds
  the entries \<open>.\<close> and \<open>..\<close>, both for inode 1. The data blocks behind that one are as they were.
\<close>

theorem mkfs_makes_image:
  assumes "sz div GAS_BLOCK_SIZE = N" and "256 \<le> N" and "N < 2 ^ 19" and "2 \<le> length argv" and "openf (argv ! 1) = Some (sz, dev)"
  shows "\<exists>D. mkfs_main E argv openf buffer = Some (0, D) \<and> fs_image E N D \<and> (\<forall>k>data_of N. D k = dev k)"
  using mkfs_main_spec [where sz = sz and openf = openf and argv = argv and dev = dev and N = N, OF assms] by metis

theorem mkfs_makes_image_witness:
  "\<exists>D. mkfs_main \<lparr>getuid = 0, getgid = 0, time_now = 5\<rparr> [''mkfs'', ''disk''] (\<lambda>_. Some (1048576, \<lambda>_ _. 7)) (\<lambda>_. 3) = Some (0, D) \<and>
     fs_image \<lparr>getuid = 0, getgid = 0, time_now = 5\<rparr> 256 D \<and> D 200 = (\<lambda>_. 7)"
proof -
  have d: "data_of 256 < 200" by (simp add: data_of_def bam_of_def iam_of_def inodes_of_def)
  show ?thesis
    using mkfs_makes_image [where sz = 1048576 and N = 256 and argv = "[''mkfs'', ''disk'']" and openf = "\<lambda>_. Some (1048576, \<lambda>_ _. 7)"
        and dev = "\<lambda>_ _. 7" and buffer = "\<lambda>_. 3" and E = "\<lparr>getuid = 0, getgid = 0, time_now = 5\<rparr>"] d
    by auto
qed

text \<open>
  C25. What the file system maker writes, the kernel module mounts: \<^verbatim>\<open>gas_fill_super\<close> on the image succeeds with the
  directory inode 1 as root, and the allocators, the inode list and the block trees of the mounted volume satisfy their
  invariants (\<open>files_ok\<close>). The busy blocks that belong to no file are the metadata, the padding of the bitmap, and the four
  blocks after the first one of the root: \<^verbatim>\<open>new_inode\<close> of the maker allocates five and records one, the others are lost.
  The root, once its page is read, is a well-formed directory of exactly \<open>.\<close> and \<open>..\<close>, provided the device had no
  stale inode numbers where the slots behind these two are, which the maker does not clear.
\<close>

theorem mkfs_then_mount:
  assumes "sz div GAS_BLOCK_SIZE = N" and "256 \<le> N" and "N < 2 ^ 19" and "2 \<le> length argv" and "openf (argv ! 1) = Some (sz, dev)"
    and "block_device K" and "\<And>g n. sb_bread K g n = Some (g n)" and "\<And>g n. kzalloc K g n"
    and "\<And>g. sb_set_blocksize K g 4096 = Some (g\<lparr>sb_blocksize := 4096, sb_blocksize_bits := 12\<rparr>)" and "\<And>g r. d_make_root K g r"
    and "\<And>g. \<exists>i. iget_locked K g 1 = Iget_new i \<and> i_ino i = 1"
    and "mkfs_main E argv openf buffer = Some (code, D)" and "bufs (fs_of S) = D"
  shows "\<exists>S'. gas_fill_super K S = Some (None, S') \<and> v_root S' = Some GAS_ROOT_INO \<and> files_ok {1} (fs_of S') \<and>
    unowned {1} (fs_of S') = {..<data_of N} \<union> {data_of N + 1..<data_of N + 5} \<union> {N..<32768 * bam_of N} \<and>
    tree_blocks (fs_of S') 1 = {data_of N} \<and> S_ISDIR (i_mode (icache (fs_of S') 1)) \<and> i_nlink (icache (fs_of S') 1) = 2 \<and>
    i_size (icache (fs_of S') 1) = 520 \<and> bufs (fs_of S') = D \<and>
    ((\<forall>m. 2 \<le> m \<longrightarrow> m < 15 \<longrightarrow> de_inode (load_dentry (dev (data_of N)) (GAS_DIR_ENTRY_SIZE * m)) = 0) \<longrightarrow>
      dir_wf (root_page_read D N (fs_of S')) 1 \<and> dir_map (root_page_read D N (fs_of S')) 1 = [dot \<mapsto> 1, dotdot \<mapsto> 1])"
proof -
  obtain M where M: "mkfs_main E argv openf buffer = Some (0, M)" "fs_image E N M"
    "\<And>q. 520 \<le> q \<Longrightarrow> M (data_of N) q = dev (data_of N) q"
    using mkfs_main_spec [where sz = sz and openf = openf and argv = argv and dev = dev and N = N, OF assms(1-5)] by metis
  then have im: "fs_image E N D" "\<And>q. 520 \<le> q \<Longrightarrow> D (data_of N) q = dev (data_of N) q" using assms(12) by simp_all
  obtain S' where S': "gas_fill_super K S = Some (None, S') \<and> v_root S' = Some GAS_ROOT_INO \<and> files_ok {1} (fs_of S') \<and>
    unowned {1} (fs_of S') = {..<data_of N} \<union> {data_of N + 1..<data_of N + 5} \<union> {N..<32768 * bam_of N} \<and>
    tree_blocks (fs_of S') 1 = {data_of N} \<and> S_ISDIR (i_mode (icache (fs_of S') 1)) \<and> i_nlink (icache (fs_of S') 1) = 2 \<and>
    i_size (icache (fs_of S') 1) = 520 \<and> bufs (fs_of S') = D"
    using mount_image [OF assms(2,3) im(1) assms(13,7,8,9,6,10,11)] by blast
  then have sz: "i_size (icache (fs_of S') 1) = 520" by blast
  have "dir_wf (root_page_read D N (fs_of S')) 1 \<and> dir_map (root_page_read D N (fs_of S')) 1 = [dot \<mapsto> 1, dotdot \<mapsto> 1]"
    if st: "\<forall>m. 2 \<le> m \<longrightarrow> m < 15 \<longrightarrow> de_inode (load_dentry (dev (data_of N)) (GAS_DIR_ENTRY_SIZE * m)) = 0"
  proof -
    have "de_inode (load_dentry (D (data_of N)) (GAS_DIR_ENTRY_SIZE * m)) = 0" if "2 \<le> m" "m < 15" for m
      using st that load_inode_number_cong [where b = "D (data_of N)" and c = "dev (data_of N)", OF im(2) that(1)] by simp
    from root_dir_read [OF im(1) sz this] show ?thesis by blast
  qed
  then show ?thesis using S' by blast
qed

theorem mkfs_then_mount_witness:
  "\<exists>D S'. mkfs_main \<lparr>getuid = 0, getgid = 0, time_now = 5\<rparr> [''mkfs'', ''disk''] (\<lambda>_. Some (1048576, \<lambda>_ _. 0)) (\<lambda>_. 3) = Some (0, D) \<and>
     gas_fill_super ref_super_services (example_device\<lparr>fs_of := empty_file_volume\<lparr>bufs := D\<rparr>\<rparr>) = Some (None, S') \<and>
     unowned {1} (fs_of S') = {..<4} \<union> {5..<9} \<union> {256..<32768} \<and>
     dir_map (root_page_read D 256 (fs_of S')) 1 = [dot \<mapsto> 1, dotdot \<mapsto> 1]"
proof -
  let ?E = "\<lparr>getuid = 0, getgid = 0, time_now = 5\<rparr>" and ?argv = "[''mkfs'', ''disk'']" and ?dev = "\<lambda>_ _. 0 :: byte"
  let ?openf = "\<lambda>_ :: string. Some (1048576 :: nat, ?dev)"
  have h: "1048576 div GAS_BLOCK_SIZE = (256 :: nat)" "256 \<le> (256 :: nat)" "256 < (2 :: nat) ^ 19" "2 \<le> length ?argv"
    "?openf (?argv ! 1) = Some (1048576, ?dev)" by simp_all
  obtain D where D: "mkfs_main ?E ?argv ?openf (\<lambda>_. 3) = Some (0, D)" using mkfs_main_spec [where sz = 1048576 and openf = ?openf and argv = ?argv and dev = ?dev and N = 256, OF h] by metis
  define S where "S = example_device\<lparr>fs_of := empty_file_volume\<lparr>bufs := D\<rparr>\<rparr>"
  have "bufs (fs_of S) = D" by (simp add: S_def)
  moreover have "\<exists>i. iget_locked ref_super_services g 1 = Iget_new i \<and> i_ino i = 1" for g by (simp add: ref_fresh_inode_def)
  ultimately have "\<exists>S'. gas_fill_super ref_super_services S = Some (None, S') \<and> v_root S' = Some GAS_ROOT_INO \<and> files_ok {1} (fs_of S') \<and>
    unowned {1} (fs_of S') = {..<data_of 256} \<union> {data_of 256 + 1..<data_of 256 + 5} \<union> {256..<32768 * bam_of 256} \<and>
    tree_blocks (fs_of S') 1 = {data_of 256} \<and> S_ISDIR (i_mode (icache (fs_of S') 1)) \<and> i_nlink (icache (fs_of S') 1) = 2 \<and>
    i_size (icache (fs_of S') 1) = 520 \<and> bufs (fs_of S') = D \<and>
    ((\<forall>m. 2 \<le> m \<longrightarrow> m < 15 \<longrightarrow> de_inode (load_dentry (?dev (data_of 256)) (GAS_DIR_ENTRY_SIZE * m)) = 0) \<longrightarrow>
      dir_wf (root_page_read D 256 (fs_of S')) 1 \<and> dir_map (root_page_read D 256 (fs_of S')) 1 = [dot \<mapsto> 1, dotdot \<mapsto> 1])"
    by (intro mkfs_then_mount [where sz = 1048576 and openf = ?openf and argv = ?argv and dev = ?dev and N = 256, OF h ref_device.block_device_axioms _ _ _ _ _ D]) simp_all
  moreover have "de_inode (load_dentry (\<lambda>_. 0) p) = 0" for p by (simp add: load_dentry_def get_le32_def)
  moreover have "data_of 256 = 4" "bam_of 256 = 1" by (simp_all add: data_of_def bam_of_def iam_of_def inodes_of_def)
  ultimately show ?thesis using D unfolding S_def by auto
qed

end
