(* ===== verification/Spec2Isabelle.thy ===== *)
theory Spec2Isabelle
  imports Gas_Vfs Mkfs_Spec
begin

text \<open>
  The GAS file system is a Linux kernel module (\<^verbatim>\<open>src/kern\<close>) and a program that formats a device for it
  (\<^verbatim>\<open>src/makefs\<close>). On disk there are, in blocks of 4096 bytes: the super block, the block bitmap, the inode
  bitmap, the inode list and the data zone. A file has a tree of blocks under nine addresses in its inode; a directory is
  a file of 260-byte entries. This development models both programs and proves what they do to the volume.

  \<^bold>\<open>The parts, bottom up.\<close> Paths are relative to \<^verbatim>\<open>src\<close> in the repository.

  \<^item> \<open>Gas_Prelude\<close>: words, blocks as functions from byte offsets to bytes, little-endian fields, bitmaps, error numbers.
  \<^item> \<open>Makefs_Bitmap\<close>: \<^verbatim>\<open>makefs/bitmap.c\<close>, \<^verbatim>\<open>makefs/bitmap.h\<close>. The searches against the least set or clear bit,
    the range operations against sets of bits, \<^verbatim>\<open>bitmap_alloc_region\<close> as first fit.
  \<^item> \<open>Gas_State\<close>: the structures of \<^verbatim>\<open>kern/gas.h\<close> with their byte layout, and the state \<open>fs\<close> of a mounted
    volume: in-core super block, contents of the buffers, in-core inodes, pages, dirty buffers. The locale \<open>stored_struct\<close>
    states what storing and loading a structure promise, and is interpreted on the integer fields, the super block and the inode
    (and in \<open>Gas_Dentry\<close> on directory entries).
  \<^item> \<open>Kern_Bitops\<close>: the bit operations of the kernel as the locale \<open>kernel_bitops\<close>, interpreted on the
    routines of \<open>Makefs_Bitmap\<close>.
  \<^item> \<open>Gas_Inode\<close>: \<^verbatim>\<open>kern/gas_inode.c\<close>, the inode list. Places of inodes do not overlap; writing and reading back.
  \<^item> \<open>Kern_Bitmap\<close>: \<^verbatim>\<open>kern/bitmap.c\<close>. Allocation and release of blocks and inode numbers keep the bitmaps right; the counts
    that \<^verbatim>\<open>statfs\<close> reports. The locale \<open>block_allocator\<close> is the contract of the block allocator; \<open>kernel_bitops\<close> is a
    sublocale of it.
  \<^item> \<open>Gas_Itree\<close>, \<open>Gas_Itree_Free\<close>, \<open>Gas_Truncate\<close>: \<^verbatim>\<open>kern/gas_itree.c\<close>, \<^verbatim>\<open>kern/gas_itree.h\<close>. \<open>bmap s ino p\<close> is the
    block a path leads to, \<open>tree_blocks\<close> the set of all blocks of a file. Growing the tree (\<^verbatim>\<open>gas_get_block\<close>) and cutting it
    (\<^verbatim>\<open>gas_truncate_inode\<close>) are specified by what they do to \<open>bmap\<close> and to the bitmap.
  \<^item> \<open>Gas_Volume\<close>: the invariant \<open>vol_ok\<close> that allocators, inode list and trees share, and \<open>local_op\<close>, an operation
    that works on one file.
  \<^item> \<open>Gas_Page\<close>: \<^verbatim>\<open>kern/gas_page.c\<close>, \<^verbatim>\<open>gas_truncate\<close> and \<^verbatim>\<open>gas_evict_inode\<close> of \<^verbatim>\<open>kern/gas_inode.c\<close>, the table
    \<^verbatim>\<open>gas_a_ops\<close> of \<^verbatim>\<open>kern/def.c\<close>. Every operation of the table is local to its file; \<open>blocks_stay\<close> and \<open>blocks_cut\<close> say
    what a write, complete or failed, does to the blocks of its file.
  \<^item> \<open>Gas_Life\<close>: the step relation of the operations on files; no block and no inode number is lost, and what a deleted file
    gave up can be used again.
  \<^item> \<open>Gas_Dentry\<close>, \<open>Gas_Dir\<close>: C strings, the directory entry, \<^verbatim>\<open>kern/gas_dir.c\<close>. \<open>Gas_Dir_Map\<close>, \<open>Gas_Dir_Iterate\<close>,
    \<open>Gas_Dir_Spec\<close>: \<open>dir_map s dir\<close> is the finite map from names to inode numbers that a directory stands for; each
    operation is specified by what it does to that map.
  \<^item> \<open>Gas_Namei\<close>, \<open>Gas_Namei_Spec\<close>: \<^verbatim>\<open>kern/gas_namei.c\<close> and the inode operation tables of \<^verbatim>\<open>kern/def.c\<close>. The effect on
    maps, link counts, inode numbers and blocks, error paths included.
  \<^item> \<open>Gas_Vfs\<close>: calls through the table of directories. \<open>op_ready\<close> collects what the VFS has checked and what the operation
    needs; under it \<open>kept\<close> says what an answer, success or error, leaves of the volume. \<open>session_step\<close> interleaves such calls with
    operations on files: no block is lost, and the inode numbers lost are at most as many as creating calls failed.
  \<^item> \<open>Gas_Super\<close>, \<open>Gas_Super_Spec\<close>: \<^verbatim>\<open>kern/gas_super.c\<close>. What a mount holds, what unmounting gives back, the
    error paths, the entry points of the module.
  \<^item> \<open>Mkfs\<close>, \<open>Mkfs_Spec\<close>: \<^verbatim>\<open>makefs/mkfs.c\<close>. The write-back cache is transparent, the image is right, and the kernel
    module mounts it.

  \<^bold>\<open>How the model corresponds to the code.\<close> A C function is a definition of the same name; a loop is a recursive definition
  named after the function. State is passed explicitly: an inode is named by its number, a buffer head by the number
  of its block, a dentry by its directory and name. Integers that wrap are words; block counts and offsets that the
  code keeps in range are natural numbers. Errors are values of type \<open>err\<close>, an optional error number. A result
  \<open>None\<close> of an operation stands for a path on which the C code has no defined result: a search that never ends, a read
  beyond an array or a page, an overflow of a signed offset. So a theorem that an operation yields \<open>Some\<close> says that it returns.

  \<^bold>\<open>The kernel.\<close> The functions of Linux the module calls are not part of the repository. They are fields of
  records (\<open>bitops\<close>, \<open>inode_services\<close>, \<open>alloc_services\<close>, \<open>itree_services\<close>, \<open>page_services\<close>, \<open>dir_services\<close>,
  \<open>namei_services\<close>, each extending the one before, and \<open>super_services\<close>) that the definitions take as an argument \<open>K\<close>. What the
  code relies on are the assumptions of the locales \<open>kernel_bitops\<close>, \<open>buffer_cache\<close>, \<open>inode_alloc\<close>, \<open>block_tree\<close>,
  \<open>page_cache\<close>, \<open>directory_io\<close>, \<open>name_io\<close> (each extending the one before) and \<open>block_device\<close>. Each is interpreted on
  reference services, whose generic routines call back into the modelled functions as those of the kernel do
  (\<open>makefs\<close>, \<open>ref_buffers\<close>, \<open>ref_alloc\<close>, \<open>ref_tree\<close>, \<open>ref_pages\<close>, \<open>ref_dirs\<close>, \<open>ref_names\<close>, \<open>ref_device\<close>); the example states are
  evaluated with these.

  \<^bold>\<open>Bounds and fuel.\<close> The rereading loop of \<^verbatim>\<open>gas_get_block\<close> is a \<open>partial_function\<close>, whose result is \<open>None\<close> if it never
  ends; the theorems show that it does. The round-robin search of the bitmaps recurs on a fuel of one more than the number
  of map blocks, which is shown to be enough. The tree functions descend at most four levels. Files are handled up to the block number that \<^verbatim>\<open>block_to_path\<close> accepts, and
  truncation for every size below 4 GB whose blocks are below \<open>s_nblocks\<close>. The image theorems of \<^verbatim>\<open>mkfs\<close> hold for devices of 256 blocks
  (1 MB, below which there is no inode block and the mount is refused) to below \<open>2 ^ 19\<close> blocks (2 GB, where the offset of
  a block overflows an \<open>int\<close>).

  \<^bold>\<open>What the proofs brought to light.\<close> Several theorems state what the code does where this is not what it means to do:
  \<open>Gas_Dir_Spec.gas_inode_by_name_overrun\<close> (lookup walks off a page), \<open>Gas_Dir_Spec.gas_add_link_duplicates\<close>
  (two entries of one name), \<open>Gas_Namei_Spec.gas_rename_keeps_target\<close> (rename onto a name, and its ignored error),
  \<open>Gas_Namei_Spec.gas_create_correct\<close> (a number left behind on a failed creation), \<open>Gas_Namei_Spec.gas_mkdir_correct\<close> (a name left
  behind on a failed synchronous write), \<open>Mkfs_Spec.mkfs_then_mount\<close> (four lost blocks),
  \<open>Gas_Super_Spec.gas_fill_super_bad_map\<close> (memory kept after a failed mount),
  \<open>Kern_Bitmap.gas_count_free_blocks_undercounts\<close> and \<open>Kern_Bitmap.gas_count_free_inodes_overrun\<close>.

  \<^bold>\<open>What the theorems ask for.\<close> The theorems on names are about directories with \<open>dir_wf\<close>, which asks among other things that the
  slots behind the end of the directory have no inode number. \<^verbatim>\<open>gas_make_empty\<close> clears the whole first page of a
  new directory, and the operations keep the property. The formatting program does not clear them: the root of a fresh volume has \<open>dir_wf\<close> if the device had no stale
  numbers there (\<open>Mkfs_Spec.mkfs_then_mount\<close>). Block and page reads are assumed to succeed where a theorem says so;
  allocations and writes may always fail.

  \<^bold>\<open>Not modelled.\<close> A super block whose two bitmap sizes overflow their 32-bit sum, for which \<^verbatim>\<open>gas_fill_super\<close> would allocate
  too small an array: the map blocks are read into a list here. The numbers of \<^verbatim>\<open>int\<close> type in \<^verbatim>\<open>mkfs\<close> are natural numbers, which
  agree with the code in the range of sizes given above; its whole-block reads and writes, whose results it ignores, succeed. Locks (\<^verbatim>\<open>pointers_lock\<close>, the spin lock of the bitmaps, \<^verbatim>\<open>inode->i_mutex\<close>) and the pinning of pages: each
  function runs without interference, but the checks against interference are kept. The end of an RCU grace period is a step
  of its own. The constructor of slab objects, messages to the log and the progress output of \<^verbatim>\<open>mkfs\<close> have no
  effect on the volume. The table \<^verbatim>\<open>gas_file_ops\<close> and the entries \<^verbatim>\<open>readlink\<close>, \<^verbatim>\<open>follow_link\<close>, \<^verbatim>\<open>put_link\<close> only name
  functions of Linux; prototypes have no content. Build files, test scripts and documents are not programs of the file system.
\<close>

end
